(* ===== verification/Prelude.thy ===== *)
theory Prelude
  imports Main "HOL-Library.Word" "HOL-Library.AList" "HOL-Library.List_Lexorder"
    "HOL-Library.Char_ord" "HOL-Library.Product_Lexorder" "HOL-Library.Multiset"
    "HOL-Library.Sublist" "HOL-Library.Code_Target_Nat"
begin

text \<open>
  The vocabulary shared by every component of the development: machine integers, the
  result type of fallible operations, the Rust standard library's \<open>Ordering\<close>,
  sorting, \<open>BinaryHeap\<close>, \<open>BTreeMap\<close>, \<open>HashMap\<close> and \<open>HashSet\<close> as far as the
  program uses them, and the lemmas about them that carry the component proofs.

  Conventions. \<open>u8\<close>, \<open>u32\<close> and \<open>u64\<close> are words. \<open>usize\<close> is \<open>nat\<close> with the
  64-bit limit \<open>usize_max\<close> written out wherever the source saturates or checks.
  A \<open>String\<close> is its UTF-8 byte sequence, as a \<open>string\<close>, whose order is the
  byte-wise lexicographic one of Rust's \<open>str\<close>. A \<open>HashMap\<close> is an association list
  with distinct keys, its order standing for the unspecified iteration order; a
  \<open>HashSet\<close> is a list without duplicates; a \<open>BTreeMap\<close> is an association list with
  strictly increasing keys.
\<close>

unbundle bit_operations_syntax

named_theorems result_simps \<open>equations that evaluate the result type's combinators\<close>
named_theorems roundtrip \<open>decoding inverts encoding, one rule per codec\<close>

section \<open>Machine integers\<close>

type_synonym u8 = "8 word"
type_synonym u32 = "32 word"
type_synonym u64 = "64 word"
type_synonym bytes = "u8 list"

definition usize_max :: nat where
  "usize_max = 2 ^ 64 - 1"

definition saturating_mul :: "nat \<Rightarrow> nat \<Rightarrow> nat" where
  "saturating_mul a b = min (a * b) usize_max"

definition saturating_add :: "nat \<Rightarrow> nat \<Rightarrow> nat" where
  "saturating_add a b = min (a + b) usize_max"

definition checked_add_u64 :: "u64 \<Rightarrow> u64 \<Rightarrow> u64 option" where
  "checked_add_u64 a b = (if a + b < a then None else Some (a + b))"

definition checked_add_usize :: "nat \<Rightarrow> nat \<Rightarrow> nat option" where
  "checked_add_usize a b = (if a + b \<le> usize_max then Some (a + b) else None)"

definition checked_mul_usize :: "nat \<Rightarrow> nat \<Rightarrow> nat option" where
  "checked_mul_usize a b = (if a * b \<le> usize_max then Some (a * b) else None)"

lemma unat_u64_less: "unat (a :: u64) < 18446744073709551616"
proof -
  have "unat a < 2 ^ LENGTH(64)"
    by (rule unsigned_less)
  then show ?thesis by simp
qed

lemma checked_add_u64_nat:
  "checked_add_u64 a b = (if unat a + unat b < 2 ^ 64 then Some (a + b) else None)"
proof -
  have "a + b < a \<longleftrightarrow> \<not> unat a + unat b < 2 ^ 64"
    using unat_u64_less [of a] unat_u64_less [of b]
    by (auto simp: word_less_nat_alt unat_word_ariths mod_if)
  then show ?thesis
    by (simp add: checked_add_u64_def)
qed

lemma checked_add_u64_one:
  "checked_add_u64 a 1 = Some b \<longleftrightarrow> b = a + 1 \<and> unat b = unat a + 1"
  using unat_u64_less [of a] by (auto simp: checked_add_u64_nat unat_word_ariths mod_if split: if_splits)

lemma checked_add_u64_one_less: "checked_add_u64 a 1 = Some b \<Longrightarrow> a < b"
  by (metis checked_add_u64_one less_add_one word_less_nat_alt)

lemma checked_add_u64_one_None: "checked_add_u64 a 1 = None \<longleftrightarrow> unat a = 2 ^ 64 - 1"
  using unat_u64_less [of a] by (auto simp: checked_add_u64_nat)

text \<open>Little-endian integers: \<open>to_le_bytes\<close> and \<open>from_le_bytes\<close>.\<close>

fun int_le :: "nat \<Rightarrow> int \<Rightarrow> bytes" where
  "int_le 0 x = []"
| "int_le (Suc n) x = word_of_int (x mod 256) # int_le n (x div 256)"

fun le_int :: "bytes \<Rightarrow> int" where
  "le_int [] = 0"
| "le_int (b # bs) = uint b + 256 * le_int bs"

definition u32_le :: "u32 \<Rightarrow> bytes" where "u32_le w = int_le 4 (uint w)"

definition u64_le :: "u64 \<Rightarrow> bytes" where "u64_le w = int_le 8 (uint w)"

definition le_u32 :: "bytes \<Rightarrow> u32" where "le_u32 bs = word_of_int (le_int bs)"

definition le_u64 :: "bytes \<Rightarrow> u64" where "le_u64 bs = word_of_int (le_int bs)"

lemma length_int_le [simp]: "length (int_le n x) = n"
  by (induction n arbitrary: x) auto

lemma length_u32_le [simp]: "length (u32_le w) = 4"
  by (simp add: u32_le_def)

lemma length_u64_le [simp]: "length (u64_le w) = 8"
  by (simp add: u64_le_def)

lemma le_int_le: "le_int (int_le n x) = x mod 256 ^ n"
proof (induction n arbitrary: x)
  case 0
  then show ?case by simp
next
  case (Suc n)
  have "uint (word_of_int (x mod 256) :: u8) = x mod 256"
    by (simp add: uint_word_of_int)
  with Suc show ?case
    by (simp add: zmod_zmult2_eq)
qed

lemma le_u32_le [simp, roundtrip]: "le_u32 (u32_le w) = w"
  using uint_bounded [of w] by (simp add: le_u32_def u32_le_def le_int_le)

lemma le_u64_le [simp, roundtrip]: "le_u64 (u64_le w) = w"
  using uint_bounded [of w] by (simp add: le_u64_def u64_le_def le_int_le)

lemma int_le_le: "int_le (length bs) (le_int bs) = bs"
proof (induction bs)
  case Nil
  then show ?case by simp
next
  case (Cons b bs)
  have "0 \<le> uint b" "uint b < 256"
    using uint_bounded [of b] by auto
  then have "(uint b + 256 * le_int bs) mod 256 = uint b"
    "(uint b + 256 * le_int bs) div 256 = le_int bs"
    by auto
  with Cons show ?case by simp
qed

lemma le_int_bounds: "0 \<le> le_int bs \<and> le_int bs < 256 ^ length bs"
proof (induction bs)
  case Nil
  then show ?case by simp
next
  case (Cons b bs)
  have "uint b < 256" "0 \<le> uint b"
    using uint_bounded [of b] by auto
  with Cons show ?case by (simp add: algebra_simps)
qed

lemma u32_le_u32 [simp]: "length bs = 4 \<Longrightarrow> u32_le (le_u32 bs) = bs"
  using le_int_bounds [of bs] int_le_le [of bs]
  by (simp add: u32_le_def le_u32_def uint_word_of_int)

lemma u64_le_u64 [simp]: "length bs = 8 \<Longrightarrow> u64_le (le_u64 bs) = bs"
  using le_int_bounds [of bs] int_le_le [of bs]
  by (simp add: u64_le_def le_u64_def uint_word_of_int)

section \<open>Results\<close>

definition rbind :: "'e + 'a \<Rightarrow> ('a \<Rightarrow> 'e + 'b) \<Rightarrow> 'e + 'b" where
  "rbind m f = (case m of Inl e \<Rightarrow> Inl e | Inr x \<Rightarrow> f x)"

definition ok_or :: "'a option \<Rightarrow> 'e \<Rightarrow> 'e + 'a" where
  "ok_or m e = (case m of None \<Rightarrow> Inl e | Some x \<Rightarrow> Inr x)"

definition is_ok :: "'e + 'a \<Rightarrow> bool" where
  "is_ok m = (case m of Inl _ \<Rightarrow> False | Inr _ \<Rightarrow> True)"

text \<open>\<open>iter().map(f).collect::<Result<Vec<_>>>()\<close>: stops at the first error.\<close>

fun try_map :: "('a \<Rightarrow> 'e + 'b) \<Rightarrow> 'a list \<Rightarrow> 'e + 'b list" where
  "try_map f [] = Inr []"
| "try_map f (x # xs) = rbind (f x) (\<lambda>y. rbind (try_map f xs) (\<lambda>ys. Inr (y # ys)))"

text \<open>A loop with \<open>?\<close> in its body, and \<open>map_err\<close>.\<close>

fun try_fold :: "('s \<Rightarrow> 'a \<Rightarrow> 'e + 's) \<Rightarrow> 's \<Rightarrow> 'a list \<Rightarrow> 'e + 's" where
  "try_fold f s [] = Inr s"
| "try_fold f s (x # xs) = rbind (f s x) (\<lambda>s'. try_fold f s' xs)"

definition map_err :: "('e \<Rightarrow> 'f) \<Rightarrow> 'e + 'a \<Rightarrow> 'f + 'a" where
  "map_err f m = (case m of Inl e \<Rightarrow> Inl (f e) | Inr x \<Rightarrow> Inr x)"

lemma map_err_simps [simp, result_simps]: "map_err f (Inl e) = Inl (f e)" "map_err f (Inr x) = Inr x"
  by (simp_all add: map_err_def)

lemma map_err_eq_Inr: "map_err f m = Inr x \<longleftrightarrow> m = Inr x"
  by (cases m) auto

lemma rbind_simps [simp, result_simps]:
  "rbind (Inl e) f = Inl e" "rbind (Inr x) f = f x"
  by (simp_all add: rbind_def)

lemma ok_or_simps [simp, result_simps]:
  "ok_or None e = Inl e" "ok_or (Some x) e = Inr x"
  by (simp_all add: ok_or_def)

lemma is_ok_simps [simp, result_simps]: "is_ok (Inr x)" "\<not> is_ok (Inl e)"
  by (simp_all add: is_ok_def)

lemma rbind_eq_Inr: "rbind m f = Inr y \<longleftrightarrow> (\<exists>x. m = Inr x \<and> f x = Inr y)"
  by (cases m) auto

lemma ok_or_eq_Inr: "ok_or m e = Inr x \<longleftrightarrow> m = Some x"
  by (cases m) auto

lemma ok_or_eq_Inl: "ok_or m e = Inl e' \<longleftrightarrow> m = None \<and> e' = e"
  by (cases m) auto

lemma try_map_eq_Inr:
  "try_map f xs = Inr ys \<longleftrightarrow> list_all2 (\<lambda>x y. f x = Inr y) xs ys"
  by (induction xs arbitrary: ys) (auto simp: rbind_eq_Inr list_all2_Cons1)

lemma try_fold_append: "try_fold f s (xs @ ys) = rbind (try_fold f s xs) (\<lambda>s'. try_fold f s' ys)"
proof (induction xs arbitrary: s)
  case (Cons x xs)
  then show ?case by (cases "f s x") auto
qed simp

lemma try_map_append:
  "try_map f (xs @ ys) = rbind (try_map f xs) (\<lambda>us. rbind (try_map f ys) (\<lambda>vs. Inr (us @ vs)))"
proof (induction xs)
  case Nil
  then show ?case by (cases "try_map f ys") auto
next
  case (Cons x xs)
  then show ?case
    by (cases "f x"; cases "try_map f xs"; cases "try_map f ys") auto
qed

section \<open>Orderings, sorting and heaps\<close>

datatype ordering = Less | Equal | Greater

definition cmp_of :: "'a::linorder \<Rightarrow> 'a \<Rightarrow> ordering" where
  "cmp_of a b = (if a < b then Less else if a = b then Equal else Greater)"

definition then_with :: "ordering \<Rightarrow> ordering \<Rightarrow> ordering" where
  "then_with a b = (case a of Equal \<Rightarrow> b | _ \<Rightarrow> a)"

fun insert_by :: "('a \<Rightarrow> 'a \<Rightarrow> ordering) \<Rightarrow> 'a \<Rightarrow> 'a list \<Rightarrow> 'a list" where
  "insert_by c x [] = [x]"
| "insert_by c x (y # ys) = (if c x y = Greater then y # insert_by c x ys else x # y # ys)"

text \<open>\<open>sort_unstable_by\<close>; elements that compare equal keep their order here.\<close>

definition sort_by :: "('a \<Rightarrow> 'a \<Rightarrow> ordering) \<Rightarrow> 'a list \<Rightarrow> 'a list" where
  "sort_by c xs = foldr (insert_by c) xs []"

text \<open>
  \<open>BinaryHeap\<close>, a max-heap: its elements in increasing order, so that \<open>peek\<close> and
  \<open>pop\<close> concern the last one. The program reads a heap through \<open>push\<close>, \<open>peek\<close>,
  \<open>pop\<close>, \<open>len\<close> and \<open>into_vec\<close> followed by a sort only.
\<close>

definition heap_push :: "('a \<Rightarrow> 'a \<Rightarrow> ordering) \<Rightarrow> 'a \<Rightarrow> 'a list \<Rightarrow> 'a list" where
  "heap_push c x h = insert_by c x h"

definition heap_peek :: "'a list \<Rightarrow> 'a option" where
  "heap_peek h = (if h = [] then None else Some (last h))"

definition heap_pop :: "'a list \<Rightarrow> 'a list" where
  "heap_pop h = butlast h"

text \<open>
  A comparator given by a key into a linear order: the facts every sort and every
  heap of the program rests on are proved here once.
\<close>

locale keyed_cmp =
  fixes cmp :: "'a \<Rightarrow> 'a \<Rightarrow> ordering"
    and key :: "'a \<Rightarrow> 'k::linorder"
  assumes cmp_key: "cmp a b = cmp_of (key a) (key b)"
begin

lemma cmp_Less: "cmp a b = Less \<longleftrightarrow> key a < key b"
  by (auto simp: cmp_key cmp_of_def)

lemma cmp_Equal: "cmp a b = Equal \<longleftrightarrow> key a = key b"
  by (auto simp: cmp_key cmp_of_def)

lemma cmp_Greater: "cmp a b = Greater \<longleftrightarrow> key b < key a"
  by (auto simp: cmp_key cmp_of_def)

lemma insert_by_insort: "insert_by cmp x xs = insort_key key x xs"
  by (induction xs) (auto simp: cmp_Greater)

lemma sort_by_sort_key: "sort_by cmp xs = sort_key key xs"
  by (induction xs) (auto simp: sort_by_def insert_by_insort)

lemma heap_push_insort: "heap_push cmp x h = insort_key key x h"
  by (simp add: heap_push_def insert_by_insort)

end

text \<open>A sorted list without equal keys is determined by its elements.\<close>

lemma sorted_key_unique:
  assumes "sorted (map f xs)" "sorted (map f ys)" "distinct xs" "distinct ys"
    and "set xs = set ys" "inj_on f (set xs)"
  shows "xs = ys"
proof -
  have "distinct (map f xs)" "distinct (map f ys)" "set (map f xs) = set (map f ys)"
    using assms by (auto simp: distinct_map)
  then have "map f xs = map f ys"
    using assms(1,2) sorted_distinct_set_unique by blast
  then show ?thesis
    using assms(5,6) map_inj_on [of f xs ys] by (simp add: Un_absorb)
qed

text \<open>
  The rank of an element decides whether it is among the first \<open>k\<close>: fewer than \<open>k\<close>
  elements have a smaller key.
\<close>

lemma set_take_sorted:
  assumes "sorted (map f xs)" "distinct xs" "inj_on f (set xs)"
  shows "set (take k xs) = {x \<in> set xs. card {y \<in> set xs. f y < f x} < k}"
  using assms
proof (induction xs arbitrary: k)
  case Nil
  then show ?case by simp
next
  case (Cons a xs)
  have lt: "f a < f y" if "y \<in> set xs" for y
  proof -
    have "f a \<le> f y" "f a \<noteq> f y"
      using Cons.prems that by (auto simp: inj_on_def)
    then show ?thesis by simp
  qed
  have card_x: "card {y \<in> set (a # xs). f y < f x} = Suc (card {y \<in> set xs. f y < f x})"
    if "x \<in> set xs" for x
  proof -
    have "{y \<in> set (a # xs). f y < f x} = insert a {y \<in> set xs. f y < f x}"
      using lt [OF that] by auto
    moreover have "a \<notin> set xs" using Cons.prems by simp
    ultimately show ?thesis by simp
  qed
  have card_a: "card {y \<in> set (a # xs). f y < f a} = 0"
  proof -
    have "\<not> f y < f a" if "y \<in> set xs" for y
      using lt [OF that] by simp
    then have "{y \<in> set (a # xs). f y < f a} = {}" by auto
    then show ?thesis by simp
  qed
  show ?case
  proof (cases k)
    case 0
    then show ?thesis by simp
  next
    case (Suc j)
    have IH: "set (take j xs) = {x \<in> set xs. card {y \<in> set xs. f y < f x} < j}"
      using Cons.prems by (intro Cons.IH) auto
    have "x \<in> set (take k (a # xs)) \<longleftrightarrow>
      x \<in> {x \<in> set (a # xs). card {y \<in> set (a # xs). f y < f x} < k}" for x
    proof (cases "x = a")
      case True
      have "a \<in> {x \<in> set (a # xs). card {y \<in> set (a # xs). f y < f x} < k}"
        unfolding mem_Collect_eq card_a using Suc by simp
      with True Suc show ?thesis by simp
    next
      case False
      then have "x \<in> set (take k (a # xs)) \<longleftrightarrow> x \<in> set (take j xs)"
        using Suc by simp
      also have "\<dots> \<longleftrightarrow> x \<in> set xs \<and> card {y \<in> set xs. f y < f x} < j"
        unfolding IH by blast
      also have "\<dots> \<longleftrightarrow> x \<in> set xs \<and> card {y \<in> set (a # xs). f y < f x} < k"
        unfolding Suc using card_x [of x] by (metis Suc_less_eq)
      finally show ?thesis using False by (metis (no_types, lifting) mem_Collect_eq set_ConsD list.set_intros(2))
    qed
    then show ?thesis by blast
  qed
qed

lemma sorted_take: "sorted xs \<Longrightarrow> sorted (take k xs)"
  by (metis append_take_drop_id sorted_append)

text \<open>The first \<open>k\<close> of a set of elements, smallest key first.\<close>

abbreviation first_k :: "('a \<Rightarrow> 'k::linorder) \<Rightarrow> nat \<Rightarrow> 'a list \<Rightarrow> 'a list" where
  "first_k f k xs \<equiv> take k (sort_key f xs)"

lemma sorted_first_k: "sorted (map f (first_k f k xs))"
  using sorted_take [of "map f (sort_key f xs)" k] by (simp add: take_map)

lemma set_first_k:
  assumes "distinct xs" "inj_on f (set xs)"
  shows "set (first_k f k xs) = {x \<in> set xs. card {y \<in> set xs. f y < f x} < k}"
  using set_take_sorted [of f "sort_key f xs" k] assms by simp

lemma first_k_unique:
  assumes "sorted (map f ys)" "distinct ys" "distinct xs" "inj_on f (set xs)"
    and "set ys = {x \<in> set xs. card {y \<in> set xs. f y < f x} < k}"
  shows "ys = first_k f k xs"
proof (rule sorted_key_unique [of f])
  show "sorted (map f (first_k f k xs))"
    by (rule sorted_first_k)
  show "set ys = set (first_k f k xs)"
    using assms(5) set_first_k [OF assms(3,4)] by simp
  then show "inj_on f (set ys)"
    using assms(4) by (metis inj_on_subset set_sort set_take_subset)
  show "sorted (map f ys)" "distinct ys"
    using assms(1,2) by blast+
  show "distinct (first_k f k xs)"
    using assms(3) by simp
qed

lemma first_k_perm:
  assumes "mset xs = mset ys" "distinct xs" "inj_on f (set xs)"
  shows "first_k f k xs = first_k f k ys"
proof -
  have eq: "set xs = set ys"
    using assms(1) by (rule mset_eq_setD)
  have "distinct ys"
    using assms(1,2) mset_eq_imp_distinct_iff by blast
  have "sort_key f xs = sort_key f ys"
    by (rule sorted_key_unique [of f]) (simp_all add: assms(2,3) eq [symmetric] \<open>distinct ys\<close>)
  then show ?thesis by simp
qed

text \<open>
  Merging: when every element outside a selection is beaten by \<open>k\<close> elements of the
  selection, the selection has the same first \<open>k\<close>.
\<close>

lemma first_k_subset:
  assumes sub: "set ys \<subseteq> set xs" and dist: "distinct xs" "distinct ys"
    and inj: "inj_on f (set xs)"
    and cover: "\<And>x. x \<in> set xs - set ys \<Longrightarrow> k \<le> card {y \<in> set ys. f y < f x}"
  shows "first_k f k ys = first_k f k xs"
proof (rule first_k_unique [OF _ _ dist(1) inj])
  show "sorted (map f (first_k f k ys))"
    by (rule sorted_first_k)
  show "distinct (first_k f k ys)"
    using dist by simp
  have mono: "card {y \<in> set ys. f y < f x} \<le> card {y \<in> set xs. f y < f x}" for x
    using sub by (intro card_mono) auto
  have few: "card {y \<in> set xs. f y < f x} < k"
    if x: "x \<in> set ys" "card {y \<in> set ys. f y < f x} < k" for x
  proof -
    have "y \<in> set ys" if "y \<in> set xs" "f y < f x" for y
    proof (rule ccontr)
      assume "y \<notin> set ys"
      then have "k \<le> card {z \<in> set ys. f z < f y}"
        using cover that by blast
      also have "\<dots> \<le> card {z \<in> set ys. f z < f x}"
        using that by (intro card_mono) auto
      finally show False using x by simp
    qed
    then have "{y \<in> set xs. f y < f x} = {y \<in> set ys. f y < f x}"
      using sub by blast
    then show ?thesis using x by simp
  qed
  have iff: "x \<in> set (first_k f k ys) \<longleftrightarrow> x \<in> set ys \<and> card {y \<in> set ys. f y < f x} < k" for x
    unfolding set_first_k [OF dist(2) inj_on_subset [OF inj sub]] by blast
  have "x \<in> set (first_k f k ys) \<longleftrightarrow> x \<in> set xs \<and> card {y \<in> set xs. f y < f x} < k" for x
  proof
    assume "x \<in> set (first_k f k ys)"
    then show "x \<in> set xs \<and> card {y \<in> set xs. f y < f x} < k"
      unfolding iff using few sub by blast
  next
    assume x: "x \<in> set xs \<and> card {y \<in> set xs. f y < f x} < k"
    then have few_ys: "card {y \<in> set ys. f y < f x} < k"
      using mono [of x] by linarith
    then have "x \<in> set ys"
      using cover [of x] x by (meson DiffI not_less)
    with few_ys show "x \<in> set (first_k f k ys)"
      unfolding iff by blast
  qed
  then show "set (first_k f k ys) = {x \<in> set xs. card {y \<in> set xs. f y < f x} < k}"
    by blast
qed

lemma map_insort_key: "map g (insort_key (\<lambda>x. f (g x)) x xs) = insort_key f (g x) (map g xs)"
  by (induction xs) auto

lemma map_sort_key: "map g (sort_key (\<lambda>x. f (g x)) xs) = sort_key f (map g xs)"
  by (induction xs) (auto simp: map_insort_key)

lemma first_k_best:
  assumes "distinct xs" "inj_on f (set xs)"
    and "y \<in> set (first_k f k xs)" "x \<in> set xs" "x \<notin> set (first_k f k xs)"
  shows "f y < f x"
proof -
  have "sort_key f xs = first_k f k xs @ drop k (sort_key f xs)"
    by simp
  moreover have "sorted (map f (sort_key f xs))"
    by simp
  moreover have "x \<in> set (drop k (sort_key f xs))"
    using assms(4,5) by (metis Un_iff append_take_drop_id set_append set_sort)
  ultimately have "f y \<le> f x"
    using assms(3) by (metis (no_types, lifting) imageI list.set_map map_append sorted_append)
  moreover have "y \<noteq> x" "y \<in> set xs"
    using assms(3,5) by (auto dest: in_set_takeD)
  then have "f y \<noteq> f x"
    using assms(2,4) by (metis inj_on_def)
  ultimately show ?thesis by simp
qed

lemma first_k_strict:
  assumes "distinct xs" "inj_on f (set xs)"
  shows "sorted_wrt (\<lambda>a b. f a < f b) (first_k f k xs)"
proof -
  have "inj_on f (set (first_k f k xs))"
    using assms(2) by (rule inj_on_subset) (auto dest: in_set_takeD)
  then have "distinct (map f (first_k f k xs))"
    using assms(1) by (simp add: distinct_map)
  then have "sorted_wrt (<) (map f (first_k f k xs))"
    using sorted_first_k strict_sorted_iff by blast
  then show ?thesis
    by (simp add: sorted_wrt_map)
qed

lemma distinct_map_filter_id: "distinct (map g xs) \<Longrightarrow> distinct (map g (List.filter P xs))"
  by (induction xs) auto

text \<open>One step of a selection that keeps the \<open>k\<close> smallest elements seen.\<close>

lemma take_insort_less:
  assumes "0 < k" "k \<le> length zs" "f x < f (zs ! (k - 1))"
  shows "take k (insort_key f x zs) = insort_key f x (take (k - 1) zs)"
  using assms
proof (induction zs arbitrary: k)
  case Nil
  then show ?case by simp
next
  case (Cons z zs)
  then obtain j where k: "k = Suc j" by (cases k) auto
  show ?case
  proof (cases j)
    case 0
    with Cons.prems k have "f x \<le> f z" by simp
    with 0 k show ?thesis by simp
  next
    case (Suc i)
    show ?thesis
    proof (cases "f x \<le> f z")
      case True
      with k Suc show ?thesis by simp
    next
      case False
      have "take j (insort_key f x zs) = insort_key f x (take (j - 1) zs)"
        using Cons.prems k Suc by (intro Cons.IH) auto
      with False k Suc show ?thesis by simp
    qed
  qed
qed

lemma take_insort_greater:
  assumes "sorted (map f zs)" "0 < k" "k \<le> length zs" "f (zs ! (k - 1)) < f x"
  shows "take k (insort_key f x zs) = take k zs"
  using assms
proof (induction zs arbitrary: k)
  case Nil
  then show ?case by simp
next
  case (Cons z zs)
  then obtain j where k: "k = Suc j" by (cases k) auto
  have "f z \<le> f ((z # zs) ! j)"
    using Cons.prems k by (cases j) auto
  then have gt: "\<not> f x \<le> f z"
    using Cons.prems k by simp
  show ?case
  proof (cases j)
    case 0
    with gt k show ?thesis by simp
  next
    case (Suc i)
    have "take j (insort_key f x zs) = take j zs"
      using Cons.prems k Suc by (intro Cons.IH) auto
    with gt k show ?thesis by simp
  qed
qed

lemma first_k_Cons_short:
  "length (first_k f k xs) < k \<Longrightarrow> insort_key f x (first_k f k xs) = first_k f k (x # xs)"
  by (cases "length xs < k") auto

lemma first_k_last:
  assumes "length (first_k f k xs) = k" "0 < k"
  shows "last (first_k f k xs) = sort_key f xs ! (k - 1)"
    and "butlast (first_k f k xs) = take (k - 1) (sort_key f xs)"
proof -
  have "first_k f k xs \<noteq> []"
    using assms by (metis length_greater_0_conv)
  then show "last (first_k f k xs) = sort_key f xs ! (k - 1)"
    using assms by (simp add: last_conv_nth del: length_take)
  have "k \<le> length (sort_key f xs)"
    using assms by (simp add: min_def split: if_splits)
  then show "butlast (first_k f k xs) = take (k - 1) (sort_key f xs)"
    by (rule butlast_take)
qed

lemma first_k_Cons_less:
  assumes "length (first_k f k xs) = k" "0 < k" "f x < f (last (first_k f k xs))"
  shows "insort_key f x (butlast (first_k f k xs)) = first_k f k (x # xs)"
proof -
  have "k \<le> length (sort_key f xs)"
    using assms(1) by (simp add: min_def split: if_splits)
  then show ?thesis
    using assms take_insort_less [of k "sort_key f xs" f x] by (simp add: first_k_last [OF assms(1,2)])
qed

lemma first_k_Cons_greater:
  assumes "length (first_k f k xs) = k" "0 < k" "f (last (first_k f k xs)) < f x"
  shows "first_k f k xs = first_k f k (x # xs)"
proof -
  have "k \<le> length (sort_key f xs)"
    using assms(1) by (simp add: min_def split: if_splits)
  then show ?thesis
    using assms take_insort_greater [of f "sort_key f xs" k x] by (simp add: first_k_last [OF assms(1,2)])
qed

section \<open>Maps and sets of the standard library\<close>

text \<open>\<open>BTreeMap\<close>: entries in strictly increasing order of their keys.\<close>

fun bt_insert :: "'k::linorder \<Rightarrow> 'v \<Rightarrow> ('k \<times> 'v) list \<Rightarrow> ('k \<times> 'v) list" where
  "bt_insert k v [] = [(k, v)]"
| "bt_insert k v ((k', v') # m) =
     (if k < k' then (k, v) # (k', v') # m
      else if k = k' then (k, v) # m
      else (k', v') # bt_insert k v m)"

definition bt_wf :: "('k::linorder \<times> 'v) list \<Rightarrow> bool" where
  "bt_wf m \<longleftrightarrow> sorted_wrt (<) (map fst m)"

lemma bt_wf_simps [simp]:
  "bt_wf []"
  "bt_wf ((k, v) # m) \<longleftrightarrow> (\<forall>k' \<in> fst ` set m. k < k') \<and> bt_wf m"
  by (auto simp: bt_wf_def)

lemma bt_wf_distinct: "bt_wf m \<Longrightarrow> distinct (map fst m)"
  unfolding bt_wf_def using strict_sorted_iff by blast

lemma keys_bt_insert [simp]: "fst ` set (bt_insert k v m) = insert k (fst ` set m)"
proof (induction m)
  case Nil
  then show ?case by simp
next
  case (Cons p m)
  then show ?case by (cases p) (auto simp: image_iff)
qed

lemma bt_wf_insert [simp]: "bt_wf m \<Longrightarrow> bt_wf (bt_insert k v m)"
proof (induction m)
  case Nil
  then show ?case by simp
next
  case (Cons p m)
  obtain k' v' where p: "p = (k', v')" by (cases p)
  show ?case
  proof (cases "k < k'")
    case True
    then have "k < fst q" if "q \<in> set m" for q
      using Cons.prems p that by (auto dest: order.strict_trans)
    with True Cons.prems show ?thesis
      unfolding p by auto
  next
    case False
    with Cons p show ?thesis by auto
  qed
qed

lemma map_of_bt_insert: "bt_wf m \<Longrightarrow> map_of (bt_insert k v m) = (map_of m)(k \<mapsto> v)"
proof (induction m)
  case Nil
  then show ?case by simp
next
  case (Cons p m)
  then show ?case by (cases p) (auto simp: fun_eq_iff)
qed

lemma bt_insert_last: "\<forall>k' \<in> fst ` set m. k' < k \<Longrightarrow> bt_insert k v m = m @ [(k, v)]"
  by (induction m) (auto dest: less_not_sym)

text \<open>Inserting the entries of a map in order rebuilds the map.\<close>

lemma bt_insert_rebuild:
  assumes "bt_wf (acc @ m)"
  shows "foldl (\<lambda>b (k, v). bt_insert k v b) acc m = acc @ m"
  using assms
proof (induction m arbitrary: acc)
  case Nil
  then show ?case by simp
next
  case (Cons p m)
  obtain k v where p: "p = (k, v)" by (cases p)
  have "\<forall>k' \<in> fst ` set acc. k' < k"
    using Cons.prems by (auto simp: bt_wf_def sorted_wrt_append p)
  then have "bt_insert k v acc = acc @ [(k, v)]"
    by (rule bt_insert_last)
  with Cons.IH [of "acc @ [p]"] Cons.prems p show ?case by simp
qed

text \<open>\<open>HashSet\<close>: a list without duplicates.\<close>

definition hs_extend :: "'a list \<Rightarrow> 'a list \<Rightarrow> 'a list" where
  "hs_extend s xs = foldl (\<lambda>s x. List.insert x s) s xs"

lemma set_hs_extend [simp]: "set (hs_extend s xs) = set s \<union> set xs"
  unfolding hs_extend_def by (induction xs arbitrary: s) auto

lemma distinct_hs_extend [simp]: "distinct s \<Longrightarrow> distinct (hs_extend s xs)"
  unfolding hs_extend_def by (induction xs arbitrary: s) auto

text \<open>\<open>HashMap\<close>: \<open>AList.update\<close> and \<open>AList.delete\<close> on lists with distinct keys.\<close>

abbreviation hm_wf :: "('k \<times> 'v) list \<Rightarrow> bool" where
  "hm_wf m \<equiv> distinct (map fst m)"

abbreviation hm_insert :: "'k \<Rightarrow> 'v \<Rightarrow> ('k \<times> 'v) list \<Rightarrow> ('k \<times> 'v) list" where
  "hm_insert \<equiv> AList.update"

abbreviation hm_remove :: "'k \<Rightarrow> ('k \<times> 'v) list \<Rightarrow> ('k \<times> 'v) list" where
  "hm_remove \<equiv> AList.delete"

lemma hm_wf_insert [simp]: "hm_wf m \<Longrightarrow> hm_wf (hm_insert k v m)"
  by (rule distinct_update)

lemma hm_wf_remove [simp]: "hm_wf m \<Longrightarrow> hm_wf (hm_remove k m)"
  by (rule distinct_delete)

lemma hm_remove_lookup: "map_of (hm_remove k m) = (map_of m)(k := None)"
  by (rule delete_conv')

lemma list_all_hm_insert: "list_all P m \<Longrightarrow> P (k, v) \<Longrightarrow> list_all P (hm_insert k v m)"
  by (induction m) auto

lemma list_all_hm_remove: "list_all P m \<Longrightarrow> list_all P (hm_remove k m)"
  by (simp add: AList.delete_eq list_all_iff)

lemma hm_insert_fresh: "k \<notin> fst ` set m \<Longrightarrow> hm_insert k v m = m @ [(k, v)]"
  by (induction m) auto

section \<open>Options\<close>

definition is_some_and :: "'a option \<Rightarrow> ('a \<Rightarrow> bool) \<Rightarrow> bool" where
  "is_some_and x P = (case x of None \<Rightarrow> False | Some v \<Rightarrow> P v)"

lemma is_some_and_simps [simp]: "\<not> is_some_and None P" "is_some_and (Some v) P = P v"
  by (simp_all add: is_some_and_def)

end
