(* ===== verification/Floats.thy ===== *)
theory Floats
  imports Prelude
begin

text \<open>
  Rust's \<open>f32\<close> and \<open>f64\<close>, as the standard library defines them: IEEE 754 binary32
  and binary64 values, represented by their bit patterns. Arithmetic is computed
  exactly on integers and rounded once, to nearest with ties to even. An operation
  whose result is not a number returns the quiet NaN with the sign bit clear; Rust
  leaves the payload and the sign of such a NaN open.
\<close>

section \<open>Formats, unpacking and rounding\<close>

type_synonym f32 = u32
type_synonym f64 = u64

datatype fp = FNaN | FInf bool | FFin bool int int

text \<open>
  A format is its precision \<open>p\<close> (with the hidden bit), the width \<open>w\<close> of the
  exponent field and the exponent \<open>q\<close> of the least subnormal number.
\<close>

record fmt =
  precision :: nat
  expbits :: nat
  minexp :: int

definition binary32 :: fmt where
  "binary32 = \<lparr>precision = 24, expbits = 8, minexp = -149\<rparr>"

definition binary64 :: fmt where
  "binary64 = \<lparr>precision = 53, expbits = 11, minexp = -1074\<rparr>"

definition inf_bits :: "fmt \<Rightarrow> int" where
  "inf_bits f = (2 ^ expbits f - 1) * 2 ^ (precision f - 1)"

definition sign_bits :: "fmt \<Rightarrow> int" where
  "sign_bits f = 2 ^ (expbits f + precision f - 1)"

definition nan_bits :: "fmt \<Rightarrow> int" where
  "nan_bits f = inf_bits f + 2 ^ (precision f - 2)"

definition unpack :: "fmt \<Rightarrow> int \<Rightarrow> fp" where
  "unpack f b =
     (let s = sign_bits f \<le> b;
          a = b mod sign_bits f;
          h = 2 ^ (precision f - 1);
          x = a div h;
          m = a mod h
      in if x = 2 ^ expbits f - 1 then (if m = 0 then FInf s else FNaN)
         else if x = 0 then FFin s m (minexp f)
         else FFin s (m + h) (minexp f + x - 1))"

function int_bits :: "int \<Rightarrow> int" where
  "int_bits n = (if n \<le> 0 then 0 else 1 + int_bits (n div 2))"
  by pat_completeness auto
termination
  by (relation "measure nat") auto

declare int_bits.simps [simp del]

text \<open>
  The bits of the value of \<open>m * 2 ^ e\<close>, rounded; \<open>sticky\<close> tells that the exact
  value lies strictly between \<open>m\<close> and \<open>m + 1\<close> units of \<open>2 ^ e\<close>.
\<close>

definition round_mag :: "fmt \<Rightarrow> int \<Rightarrow> int \<Rightarrow> bool \<Rightarrow> int" where
  "round_mag f m e sticky =
     (if m = 0 \<and> \<not> sticky then 0 else
      let q = max (e + int_bits m - int (precision f)) (minexp f);
          n = (if q \<le> e then m * 2 ^ nat (e - q)
               else let k = 2 ^ nat (q - e); h = m div k; r = 2 * (m mod k)
                    in if k < r \<or> (r = k \<and> (sticky \<or> odd h)) then h + 1 else h)
      in min (inf_bits f) ((q - minexp f) * 2 ^ (precision f - 1) + n))"

definition pack :: "fmt \<Rightarrow> bool \<Rightarrow> int \<Rightarrow> int \<Rightarrow> bool \<Rightarrow> int" where
  "pack f s m e sticky = (if s then sign_bits f else 0) + round_mag f m e sticky"

definition pack_inf :: "fmt \<Rightarrow> bool \<Rightarrow> int" where
  "pack_inf f s = (if s then sign_bits f else 0) + inf_bits f"

section \<open>Classification and order\<close>

definition fp_is_nan :: "fmt \<Rightarrow> int \<Rightarrow> bool" where
  "fp_is_nan f b \<longleftrightarrow> inf_bits f < b mod sign_bits f"

definition fp_is_finite :: "fmt \<Rightarrow> int \<Rightarrow> bool" where
  "fp_is_finite f b \<longleftrightarrow> b mod sign_bits f < inf_bits f"

text \<open>The numeric order of values that are not NaN: both zeros have the key \<open>0\<close>.\<close>

definition num_key :: "fmt \<Rightarrow> int \<Rightarrow> int" where
  "num_key f b = (if b < sign_bits f then b else sign_bits f - b)"

text \<open>
  \<open>total_cmp\<close>, the IEEE total order: the bits read as a sign-magnitude integer, with
  the negative zero just below the positive one.
\<close>

definition total_key :: "fmt \<Rightarrow> int \<Rightarrow> int" where
  "total_key f b = (if b < sign_bits f then b else sign_bits f - 1 - b)"

definition fp_eq :: "fmt \<Rightarrow> int \<Rightarrow> int \<Rightarrow> bool" where
  "fp_eq f a b \<longleftrightarrow> \<not> fp_is_nan f a \<and> \<not> fp_is_nan f b \<and> num_key f a = num_key f b"

definition fp_lt :: "fmt \<Rightarrow> int \<Rightarrow> int \<Rightarrow> bool" where
  "fp_lt f a b \<longleftrightarrow> \<not> fp_is_nan f a \<and> \<not> fp_is_nan f b \<and> num_key f a < num_key f b"

definition fp_le :: "fmt \<Rightarrow> int \<Rightarrow> int \<Rightarrow> bool" where
  "fp_le f a b \<longleftrightarrow> \<not> fp_is_nan f a \<and> \<not> fp_is_nan f b \<and> num_key f a \<le> num_key f b"

section \<open>Arithmetic\<close>

definition fp_neg :: "fmt \<Rightarrow> int \<Rightarrow> int" where
  "fp_neg f b = (if sign_bits f \<le> b then b - sign_bits f else b + sign_bits f)"

definition fp_abs :: "fmt \<Rightarrow> int \<Rightarrow> int" where
  "fp_abs f b = b mod sign_bits f"

definition signed :: "bool \<Rightarrow> int \<Rightarrow> int" where
  "signed s m = (if s then - m else m)"

fun fp_add' :: "fmt \<Rightarrow> fp \<Rightarrow> fp \<Rightarrow> int" where
  "fp_add' f FNaN _ = nan_bits f"
| "fp_add' f _ FNaN = nan_bits f"
| "fp_add' f (FInf s) (FInf t) = (if s = t then pack_inf f s else nan_bits f)"
| "fp_add' f (FInf s) _ = pack_inf f s"
| "fp_add' f _ (FInf t) = pack_inf f t"
| "fp_add' f (FFin s m e) (FFin t n d) =
     (let q = min e d;
          x = signed s (m * 2 ^ nat (e - q)) + signed t (n * 2 ^ nat (d - q))
      in if x = 0 then (if s \<and> t then sign_bits f else 0) else pack f (x < 0) \<bar>x\<bar> q False)"

definition fp_add :: "fmt \<Rightarrow> int \<Rightarrow> int \<Rightarrow> int" where
  "fp_add f a b = fp_add' f (unpack f a) (unpack f b)"

definition fp_sub :: "fmt \<Rightarrow> int \<Rightarrow> int \<Rightarrow> int" where
  "fp_sub f a b = fp_add f a (fp_neg f b)"

fun fp_mul' :: "fmt \<Rightarrow> fp \<Rightarrow> fp \<Rightarrow> int" where
  "fp_mul' f FNaN _ = nan_bits f"
| "fp_mul' f _ FNaN = nan_bits f"
| "fp_mul' f (FInf s) (FInf t) = pack_inf f (s \<noteq> t)"
| "fp_mul' f (FInf s) (FFin t n d) = (if n = 0 then nan_bits f else pack_inf f (s \<noteq> t))"
| "fp_mul' f (FFin s m e) (FInf t) = (if m = 0 then nan_bits f else pack_inf f (s \<noteq> t))"
| "fp_mul' f (FFin s m e) (FFin t n d) = pack f (s \<noteq> t) (m * n) (e + d) False"

definition fp_mul :: "fmt \<Rightarrow> int \<Rightarrow> int \<Rightarrow> int" where
  "fp_mul f a b = fp_mul' f (unpack f a) (unpack f b)"

text \<open>
  Division and square root compute at least \<open>p + 2\<close> bits of the result and remember
  in the sticky bit whether anything was cut off.
\<close>

fun fp_div' :: "fmt \<Rightarrow> fp \<Rightarrow> fp \<Rightarrow> int" where
  "fp_div' f FNaN _ = nan_bits f"
| "fp_div' f _ FNaN = nan_bits f"
| "fp_div' f (FInf s) (FInf t) = nan_bits f"
| "fp_div' f (FInf s) (FFin t n d) = pack_inf f (s \<noteq> t)"
| "fp_div' f (FFin s m e) (FInf t) = pack f (s \<noteq> t) 0 0 False"
| "fp_div' f (FFin s m e) (FFin t n d) =
     (if n = 0 then (if m = 0 then nan_bits f else pack_inf f (s \<noteq> t))
      else let k = max 0 (int (precision f) + 2 + int_bits n - int_bits m);
               x = m * 2 ^ nat k
           in pack f (s \<noteq> t) (x div n) (e - d - k) (x mod n \<noteq> 0))"

definition fp_div :: "fmt \<Rightarrow> int \<Rightarrow> int \<Rightarrow> int" where
  "fp_div f a b = fp_div' f (unpack f a) (unpack f b)"

function isqrt :: "int \<Rightarrow> int" where
  "isqrt n = (if n \<le> 0 then 0
     else let r = 2 * isqrt (n div 4) in if (r + 1) * (r + 1) \<le> n then r + 1 else r)"
  by pat_completeness auto
termination
  by (relation "measure nat") auto

declare isqrt.simps [simp del]

fun fp_sqrt' :: "fmt \<Rightarrow> fp \<Rightarrow> int" where
  "fp_sqrt' f FNaN = nan_bits f"
| "fp_sqrt' f (FInf s) = (if s then nan_bits f else pack_inf f False)"
| "fp_sqrt' f (FFin s m e) =
     (if m = 0 then pack f s 0 0 False
      else if s then nan_bits f
      else let k = 2 * int (precision f) + 4 + e mod 2;
               x = m * 2 ^ nat k;
               r = isqrt x
           in pack f False r ((e - k) div 2) (r * r \<noteq> x))"

definition fp_sqrt :: "fmt \<Rightarrow> int \<Rightarrow> int" where
  "fp_sqrt f a = fp_sqrt' f (unpack f a)"

fun fp_pack :: "fmt \<Rightarrow> fp \<Rightarrow> int" where
  "fp_pack f FNaN = nan_bits f"
| "fp_pack f (FInf s) = pack_inf f s"
| "fp_pack f (FFin s m e) = pack f s m e False"

definition fp_convert :: "fmt \<Rightarrow> fmt \<Rightarrow> int \<Rightarrow> int" where
  "fp_convert f g a = fp_pack g (unpack f a)"

definition fp_of_int :: "fmt \<Rightarrow> int \<Rightarrow> int" where
  "fp_of_int f n = pack f (n < 0) \<bar>n\<bar> 0 False"

text \<open>\<open>round\<close> rounds half away from zero; \<open>as i8\<close> truncates and saturates, and maps NaN to 0.\<close>

fun fp_round' :: "fmt \<Rightarrow> fp \<Rightarrow> int" where
  "fp_round' f FNaN = nan_bits f"
| "fp_round' f (FInf s) = pack_inf f s"
| "fp_round' f (FFin s m e) =
     (if 0 \<le> e then pack f s m e False
      else let k = 2 ^ nat (- e) in
        pack f s (m div k + (if k \<le> 2 * (m mod k) then 1 else 0)) 0 False)"

definition fp_round :: "fmt \<Rightarrow> int \<Rightarrow> int" where
  "fp_round f a = fp_round' f (unpack f a)"

fun fp_trunc' :: "fp \<Rightarrow> int \<Rightarrow> int \<Rightarrow> int" where
  "fp_trunc' FNaN lo hi = 0"
| "fp_trunc' (FInf s) lo hi = (if s then lo else hi)"
| "fp_trunc' (FFin s m e) lo hi =
     max lo (min hi (signed s (if 0 \<le> e then m * 2 ^ nat e else m div 2 ^ nat (- e))))"

section \<open>The two types of the source\<close>

definition f32_is_finite :: "f32 \<Rightarrow> bool" where
  "f32_is_finite a = fp_is_finite binary32 (uint a)"

definition f32_is_nan :: "f32 \<Rightarrow> bool" where
  "f32_is_nan a = fp_is_nan binary32 (uint a)"

definition f32_add :: "f32 \<Rightarrow> f32 \<Rightarrow> f32" where
  "f32_add a b = word_of_int (fp_add binary32 (uint a) (uint b))"

definition f32_sub :: "f32 \<Rightarrow> f32 \<Rightarrow> f32" where
  "f32_sub a b = word_of_int (fp_sub binary32 (uint a) (uint b))"

definition f32_mul :: "f32 \<Rightarrow> f32 \<Rightarrow> f32" where
  "f32_mul a b = word_of_int (fp_mul binary32 (uint a) (uint b))"

definition f32_div :: "f32 \<Rightarrow> f32 \<Rightarrow> f32" where
  "f32_div a b = word_of_int (fp_div binary32 (uint a) (uint b))"

definition f32_sqrt :: "f32 \<Rightarrow> f32" where
  "f32_sqrt a = word_of_int (fp_sqrt binary32 (uint a))"

definition f32_neg :: "f32 \<Rightarrow> f32" where
  "f32_neg a = word_of_int (fp_neg binary32 (uint a))"

definition f32_abs :: "f32 \<Rightarrow> f32" where
  "f32_abs a = word_of_int (fp_abs binary32 (uint a))"

definition f32_lt :: "f32 \<Rightarrow> f32 \<Rightarrow> bool" where
  "f32_lt a b = fp_lt binary32 (uint a) (uint b)"

definition f32_le :: "f32 \<Rightarrow> f32 \<Rightarrow> bool" where
  "f32_le a b = fp_le binary32 (uint a) (uint b)"

definition f32_key :: "f32 \<Rightarrow> int" where
  "f32_key a = total_key binary32 (uint a)"

definition f32_total_cmp :: "f32 \<Rightarrow> f32 \<Rightarrow> ordering" where
  "f32_total_cmp a b = cmp_of (f32_key a) (f32_key b)"

definition f32_max :: "f32 \<Rightarrow> f32 \<Rightarrow> f32" where
  "f32_max a b = (if f32_is_nan a then b else if f32_is_nan b then a
     else if f32_lt a b then b else a)"

definition f32_clamp :: "f32 \<Rightarrow> f32 \<Rightarrow> f32 \<Rightarrow> f32" where
  "f32_clamp lo hi a = (if f32_lt a lo then lo else if f32_lt hi a then hi else a)"

definition f32_round :: "f32 \<Rightarrow> f32" where
  "f32_round a = word_of_int (fp_round binary32 (uint a))"

definition f32_as_i8 :: "f32 \<Rightarrow> int" where
  "f32_as_i8 a = fp_trunc' (unpack binary32 (uint a)) (-128) 127"

definition f32_of_int :: "int \<Rightarrow> f32" where
  "f32_of_int n = word_of_int (fp_of_int binary32 n)"

definition f32_as_f64 :: "f32 \<Rightarrow> f64" where
  "f32_as_f64 a = word_of_int (fp_convert binary32 binary64 (uint a))"

definition f64_as_f32 :: "f64 \<Rightarrow> f32" where
  "f64_as_f32 a = word_of_int (fp_convert binary64 binary32 (uint a))"

definition f64_is_finite :: "f64 \<Rightarrow> bool" where
  "f64_is_finite a = fp_is_finite binary64 (uint a)"

definition f64_is_nan :: "f64 \<Rightarrow> bool" where
  "f64_is_nan a = fp_is_nan binary64 (uint a)"

definition f64_add :: "f64 \<Rightarrow> f64 \<Rightarrow> f64" where
  "f64_add a b = word_of_int (fp_add binary64 (uint a) (uint b))"

definition f64_mul :: "f64 \<Rightarrow> f64 \<Rightarrow> f64" where
  "f64_mul a b = word_of_int (fp_mul binary64 (uint a) (uint b))"

definition f64_div :: "f64 \<Rightarrow> f64 \<Rightarrow> f64" where
  "f64_div a b = word_of_int (fp_div binary64 (uint a) (uint b))"

definition f64_sqrt :: "f64 \<Rightarrow> f64" where
  "f64_sqrt a = word_of_int (fp_sqrt binary64 (uint a))"

definition f64_eq :: "f64 \<Rightarrow> f64 \<Rightarrow> bool" where
  "f64_eq a b = fp_eq binary64 (uint a) (uint b)"

definition f64_lt :: "f64 \<Rightarrow> f64 \<Rightarrow> bool" where
  "f64_lt a b = fp_lt binary64 (uint a) (uint b)"

definition f64_le :: "f64 \<Rightarrow> f64 \<Rightarrow> bool" where
  "f64_le a b = fp_le binary64 (uint a) (uint b)"

definition f64_key :: "f64 \<Rightarrow> int" where
  "f64_key a = total_key binary64 (uint a)"

definition f64_total_cmp :: "f64 \<Rightarrow> f64 \<Rightarrow> ordering" where
  "f64_total_cmp a b = cmp_of (f64_key a) (f64_key b)"

definition f64_of_int :: "int \<Rightarrow> f64" where
  "f64_of_int n = word_of_int (fp_of_int binary64 n)"

definition f64_one :: f64 where
  "f64_one = 0x3FF0000000000000"

definition f64_recip :: "f64 \<Rightarrow> f64" where
  "f64_recip a = f64_div f64_one a"

definition f32_zero :: f32 where "f32_zero = 0"

definition f32_neg_zero :: f32 where "f32_neg_zero = 0x80000000"

definition f64_zero :: f64 where "f64_zero = 0"

definition f64_neg_zero :: f64 where "f64_neg_zero = 0x8000000000000000"

text \<open>\<open>iter().sum()\<close>: a left fold from the neutral element \<open>-0.0\<close>.\<close>

definition f32_sum :: "f32 list \<Rightarrow> f32" where
  "f32_sum xs = foldl f32_add f32_neg_zero xs"

definition f64_sum :: "f64 list \<Rightarrow> f64" where
  "f64_sum xs = foldl f64_add f64_neg_zero xs"

text \<open>The four bytes of an \<open>f32\<close> in memory on a little-endian target.\<close>

fun f32s_of_bytes :: "bytes \<Rightarrow> f32 list" where
  "f32s_of_bytes (a # b # c # d # bs) = le_u32 [a, b, c, d] # f32s_of_bytes bs"
| "f32s_of_bytes _ = []"

definition f32s_le :: "f32 list \<Rightarrow> bytes" where
  "f32s_le xs = concat (map u32_le xs)"

lemma length_f32s_le [simp]: "length (f32s_le xs) = 4 * length xs"
  by (induction xs) (auto simp: f32s_le_def)

lemma f32s_of_bytes_append:
  "length xs = 4 \<Longrightarrow> f32s_of_bytes (xs @ ys) = le_u32 xs # f32s_of_bytes ys"
  by (auto simp: numeral_eq_Suc length_Suc_conv)

lemma f32s_of_bytes_le [simp, roundtrip]: "f32s_of_bytes (f32s_le xs) = xs"
  by (induction xs) (simp_all add: f32s_le_def f32s_of_bytes_append)

section \<open>Facts about the orders\<close>

lemma uint_f32_bounds: "0 \<le> uint (a :: f32)" "uint a < 4294967296"
  using uint_bounded [of a] by auto

lemma uint_f64_bounds: "0 \<le> uint (a :: f64)" "uint a < 18446744073709551616"
  using uint_bounded [of a] by auto

text \<open>\<open>total_cmp\<close> tells any two bit patterns apart.\<close>

lemma total_key_inj:
  "0 \<le> x \<Longrightarrow> 0 \<le> y \<Longrightarrow> total_key f x = total_key f y \<Longrightarrow> x = y"
  by (auto simp: total_key_def split: if_splits)

lemma f32_key_inj: "f32_key a = f32_key b \<longleftrightarrow> a = b"
  using total_key_inj [of "uint a" "uint b" binary32] uint_f32_bounds
  by (auto simp: f32_key_def word_uint_eq_iff)

lemma f64_key_inj: "f64_key a = f64_key b \<longleftrightarrow> a = b"
  using total_key_inj [of "uint a" "uint b" binary64] uint_f64_bounds
  by (auto simp: f64_key_def word_uint_eq_iff)

end
