(* ===== verification/Errors.thy ===== *)
theory Errors
  imports Prelude
begin

text \<open>
  The crate's error type (\<open>src/error.rs\<close>) and the UTF-8 check that every decoder of
  the program applies to the strings it reads.
\<close>

section \<open>The error type\<close>

datatype error =
    InvalidDimension nat nat
  | InvalidVector string
  | InvalidConfig string
  | InvalidConfiguration string
  | InvalidQuery string
  | Io string
  | CorruptStorage string
  | Concurrency string
  | NotFound string
  | AlreadyExists string
  | Unauthorized
  | ResourceExhausted string
  | SequenceOverflow

type_synonym 'a result = "error + 'a"

text \<open>The decimal digits of a number, as \<open>format!("{n}")\<close> writes them.\<close>

function decimal :: "nat \<Rightarrow> string" where
  "decimal n = (if n < 10 then [char_of (48 + n)] else decimal (n div 10) @ [char_of (48 + n mod 10)])"
  by pat_completeness auto
termination
  by (relation "measure id") auto

declare decimal.simps [simp del]

fun error_to_string :: "error \<Rightarrow> string" where
  "error_to_string (InvalidDimension expected actual) =
     ''invalid vector dimension: expected '' @ decimal expected @ '', got '' @ decimal actual"
| "error_to_string (InvalidVector message) = ''invalid vector: '' @ message"
| "error_to_string (InvalidConfig message) = ''invalid collection config: '' @ message"
| "error_to_string (InvalidConfiguration message) = ''invalid configuration: '' @ message"
| "error_to_string (InvalidQuery message) = ''invalid query: '' @ message"
| "error_to_string (Io message) = ''storage I/O error: '' @ message"
| "error_to_string (CorruptStorage message) = ''corrupt storage: '' @ message"
| "error_to_string (Concurrency message) = ''concurrency error: '' @ message"
| "error_to_string (NotFound message) = ''not found: '' @ message"
| "error_to_string (AlreadyExists message) = ''already exists: '' @ message"
| "error_to_string Unauthorized = ''unauthorized''"
| "error_to_string (ResourceExhausted message) = ''resource exhausted: '' @ message"
| "error_to_string SequenceOverflow = ''collection sequence overflow''"

section \<open>Strings and bytes\<close>

definition byte_of_char :: "char \<Rightarrow> u8" where
  "byte_of_char c = of_nat (of_char c)"

definition char_of_byte :: "u8 \<Rightarrow> char" where
  "char_of_byte b = char_of (unat b)"

definition as_bytes :: "string \<Rightarrow> bytes" where
  "as_bytes s = map byte_of_char s"

lemma char_of_byte_of_char [simp]: "char_of_byte (byte_of_char c) = c"
proof -
  have "of_char c < (256 :: nat)"
    by simp
  then show ?thesis
    by (simp add: byte_of_char_def char_of_byte_def unat_of_nat)
qed

lemma byte_of_char_of_byte [simp]: "byte_of_char (char_of_byte b) = b"
proof -
  have "unat b < 2 ^ LENGTH(8)"
    by (rule unsigned_less)
  then have "(of_char (char_of (unat b)) :: nat) = unat b"
    by (simp add: of_char_of)
  then show ?thesis
    by (simp add: byte_of_char_def char_of_byte_def)
qed

lemma length_as_bytes [simp]: "length (as_bytes s) = length s"
  by (simp add: as_bytes_def)

lemma map_char_of_as_bytes [simp]: "map char_of_byte (as_bytes s) = s"
  by (simp add: as_bytes_def comp_def)

text \<open>
  \<open>String::from_utf8\<close>: the well-formed sequences of the Unicode standard's table 3-7,
  which exclude overlong forms, surrogates and code points above U+10FFFF.
\<close>

definition utf8_tail :: "u8 \<Rightarrow> bool" where
  "utf8_tail b \<longleftrightarrow> 0x80 \<le> b \<and> b \<le> 0xBF"

fun utf8_valid :: "bytes \<Rightarrow> bool" where
  "utf8_valid [] = True"
| "utf8_valid (a # bs) =
     (if a \<le> 0x7F then utf8_valid bs
      else if 0xC2 \<le> a \<and> a \<le> 0xDF then
        (case bs of b # cs \<Rightarrow> utf8_tail b \<and> utf8_valid cs | _ \<Rightarrow> False)
      else if 0xE0 \<le> a \<and> a \<le> 0xEF then
        (case bs of b # c # cs \<Rightarrow>
           (if a = 0xE0 then 0xA0 \<le> b \<and> b \<le> 0xBF
            else if a = 0xED then 0x80 \<le> b \<and> b \<le> 0x9F else utf8_tail b)
           \<and> utf8_tail c \<and> utf8_valid cs
         | _ \<Rightarrow> False)
      else if 0xF0 \<le> a \<and> a \<le> 0xF4 then
        (case bs of b # c # d # cs \<Rightarrow>
           (if a = 0xF0 then 0x90 \<le> b \<and> b \<le> 0xBF
            else if a = 0xF4 then 0x80 \<le> b \<and> b \<le> 0x8F else utf8_tail b)
           \<and> utf8_tail c \<and> utf8_tail d \<and> utf8_valid cs
         | _ \<Rightarrow> False)
      else False)"

definition from_utf8 :: "bytes \<Rightarrow> string option" where
  "from_utf8 bs = (if utf8_valid bs then Some (map char_of_byte bs) else None)"

text \<open>The strings Rust's \<open>String\<close> can hold.\<close>

definition is_string :: "string \<Rightarrow> bool" where
  "is_string s \<longleftrightarrow> utf8_valid (as_bytes s)"

lemma from_utf8_as_bytes: "is_string s \<Longrightarrow> from_utf8 (as_bytes s) = Some s"
  by (simp add: from_utf8_def is_string_def)

lemma from_utf8_Some: "from_utf8 bs = Some s \<longleftrightarrow> utf8_valid bs \<and> as_bytes s = bs"
  by (auto simp: from_utf8_def as_bytes_def comp_def)

lemma is_string_ascii: "\<forall>c \<in> set s. of_char c < (128 :: nat) \<Longrightarrow> is_string s"
proof (induction s)
  case Nil
  then show ?case by (simp add: is_string_def as_bytes_def)
next
  case (Cons c s)
  then have "byte_of_char c \<le> 0x7F"
    by (simp add: byte_of_char_def word_le_nat_alt unat_of_nat)
  with Cons show ?case
    by (simp add: is_string_def as_bytes_def)
qed

end
