(* ===== verification/Metric.thy ===== *)
theory Metric
  imports Floats Errors
begin

text \<open>
  Distance metrics (\<open>src/metric.rs\<close>): the validation and normalisation of a vector and
  the score of a pair of vectors, in the four-lane form of the source.
\<close>

section \<open>The model\<close>

datatype metric = Cosine | DotProduct | Euclidean

definition squared_norm :: "f32 list \<Rightarrow> f64" where
  "squared_norm v = f64_sum (map (\<lambda>x. f64_mul (f32_as_f64 x) (f32_as_f64 x)) v)"

definition prepare :: "metric \<Rightarrow> f32 list \<Rightarrow> f32 list result" where
  "prepare m v =
     (if list_ex (\<lambda>x. \<not> f32_is_finite x) v
      then Inl (InvalidVector ''components must be finite'')
      else if m = Cosine then
        (let n = squared_norm v in
         if f64_eq n f64_zero \<or> \<not> f64_is_finite n
         then Inl (InvalidVector ''cosine similarity requires a finite, non-zero norm'')
         else let inverse_norm = f64_as_f32 (f64_recip (f64_sqrt n))
              in Inr (map (\<lambda>x. f32_mul x inverse_norm) v))
      else Inr v)"

text \<open>\<open>chunks_exact(n)\<close> and its \<open>remainder()\<close>.\<close>

function chunks_exact :: "nat \<Rightarrow> 'a list \<Rightarrow> 'a list list" where
  "chunks_exact n xs =
     (if n = 0 \<or> length xs < n then [] else take n xs # chunks_exact n (drop n xs))"
  by pat_completeness auto
termination
  by (relation "measure (\<lambda>(n, xs). length xs)") auto

declare chunks_exact.simps [simp del]

definition chunks_remainder :: "nat \<Rightarrow> 'a list \<Rightarrow> 'a list" where
  "chunks_remainder n xs = drop (length xs div n * n) xs"

type_synonym lanes = "f32 \<times> f32 \<times> f32 \<times> f32"

definition lane_sum :: "lanes \<Rightarrow> f32" where
  "lane_sum s = (case s of (s0, s1, s2, s3) \<Rightarrow> f32_sum [s0, s1, s2, s3])"

definition dot_lanes :: "lanes \<Rightarrow> f32 list \<times> f32 list \<Rightarrow> lanes" where
  "dot_lanes s c = (case s of (s0, s1, s2, s3) \<Rightarrow> case c of (l, r) \<Rightarrow>
     (f32_add s0 (f32_mul (l ! 0) (r ! 0)), f32_add s1 (f32_mul (l ! 1) (r ! 1)),
      f32_add s2 (f32_mul (l ! 2) (r ! 2)), f32_add s3 (f32_mul (l ! 3) (r ! 3))))"

definition dot_product :: "f32 list \<Rightarrow> f32 list \<Rightarrow> f32" where
  "dot_product left right =
     f32_add
       (lane_sum (foldl dot_lanes (f32_zero, f32_zero, f32_zero, f32_zero)
          (zip (chunks_exact 4 left) (chunks_exact 4 right))))
       (f32_sum (map2 f32_mul (chunks_remainder 4 left) (chunks_remainder 4 right)))"

definition square_delta :: "f32 \<Rightarrow> f32 \<Rightarrow> f32" where
  "square_delta l r = (let d = f32_sub l r in f32_mul d d)"

definition distance_lanes :: "lanes \<Rightarrow> f32 list \<times> f32 list \<Rightarrow> lanes" where
  "distance_lanes s c = (case s of (s0, s1, s2, s3) \<Rightarrow> case c of (l, r) \<Rightarrow>
     (f32_add s0 (square_delta (l ! 0) (r ! 0)), f32_add s1 (square_delta (l ! 1) (r ! 1)),
      f32_add s2 (square_delta (l ! 2) (r ! 2)), f32_add s3 (square_delta (l ! 3) (r ! 3))))"

definition squared_distance :: "f32 list \<Rightarrow> f32 list \<Rightarrow> f32" where
  "squared_distance left right =
     f32_add
       (lane_sum (foldl distance_lanes (f32_zero, f32_zero, f32_zero, f32_zero)
          (zip (chunks_exact 4 left) (chunks_exact 4 right))))
       (f32_sum (map2 square_delta (chunks_remainder 4 left) (chunks_remainder 4 right)))"

definition score :: "metric \<Rightarrow> f32 list \<Rightarrow> f32 list \<Rightarrow> f32" where
  "score m query candidate =
     (case m of Euclidean \<Rightarrow> f32_neg (squared_distance query candidate)
      | _ \<Rightarrow> dot_product query candidate)"

section \<open>Preparation\<close>

lemma prepare_length: "prepare m v = Inr w \<Longrightarrow> length w = length v"
  by (auto simp: prepare_def Let_def split: if_splits)

lemma prepare_finite: "prepare m v = Inr w \<Longrightarrow> list_all f32_is_finite v"
  by (auto simp: prepare_def list_ex_iff list_all_iff split: if_splits)

lemma prepare_plain: "m \<noteq> Cosine \<Longrightarrow> prepare m v = Inr w \<longleftrightarrow> w = v \<and> list_all f32_is_finite v"
  by (auto simp: prepare_def list_ex_iff list_all_iff)

lemma prepare_idem: "m \<noteq> Cosine \<Longrightarrow> prepare m v = Inr w \<Longrightarrow> prepare m w = Inr w"
  by (simp add: prepare_plain)

end
