(* ===== verification/Filters.thy ===== *)
theory Filters
  imports Floats Errors
begin

text \<open>
  Metadata values and filters (\<open>src/filter.rs\<close>): the reference semantics of a filter. The source's constructor
  \<open>Not\<close> is written \<open>Neg\<close>.
\<close>

type_synonym i64 = "64 word"

datatype meta_value =
    Keyword string
  | Integer i64
  | Float f64
  | Boolean bool

type_synonym metadata = "(string \<times> meta_value) list"

datatype filter_expr =
    MatchAll
  | Eq string meta_value
  | Range string "f64 option" "f64 option"
  | And "filter_expr list"
  | Or "filter_expr list"
  | Neg filter_expr

text \<open>The derived \<open>PartialEq\<close>: floats compare numerically, so no NaN equals itself.\<close>

fun value_eq :: "meta_value \<Rightarrow> meta_value \<Rightarrow> bool" where
  "value_eq (Keyword a) (Keyword b) = (a = b)"
| "value_eq (Integer a) (Integer b) = (a = b)"
| "value_eq (Float a) (Float b) = f64_eq a b"
| "value_eq (Boolean a) (Boolean b) = (a = b)"
| "value_eq _ _ = False"

fun numeric_value :: "meta_value \<Rightarrow> f64 option" where
  "numeric_value (Integer a) = Some (f64_of_int (sint a))"
| "numeric_value (Float a) = (if f64_is_finite a then Some a else None)"
| "numeric_value _ = None"

definition in_range :: "f64 option \<Rightarrow> f64 option \<Rightarrow> f64 \<Rightarrow> bool" where
  "in_range gte lt x \<longleftrightarrow>
     (case gte of None \<Rightarrow> True | Some lower \<Rightarrow> f64_le lower x) \<and>
     (case lt of None \<Rightarrow> True | Some upper \<Rightarrow> f64_lt x upper)"

fun matches :: "filter_expr \<Rightarrow> metadata \<Rightarrow> bool" where
  "matches MatchAll md = True"
| "matches (Eq field v) md =
     (case map_of md field of None \<Rightarrow> False | Some w \<Rightarrow> value_eq w v)"
| "matches (Range field gte lt) md =
     (case map_of md field of None \<Rightarrow> False
      | Some w \<Rightarrow> (case numeric_value w of None \<Rightarrow> False | Some x \<Rightarrow> in_range gte lt x))"
| "matches (And fs) md = list_all (\<lambda>f. matches f md) fs"
| "matches (Or fs) md = list_ex (\<lambda>f. matches f md) fs"
| "matches (Neg f) md = (\<not> matches f md)"

end
