(* ===== verification/Collection.thy ===== *)
theory Collection
  imports Metric Filters
begin

text \<open>
  The exact-search collection (\<open>src/collection.rs\<close>): its points, the atomic batch
  operations on them, the bounded-heap selection behind every exact search, and the
  snapshot operations the persistent and the replicated engines call.
\<close>

section \<open>Data\<close>

record collection_config =
  dimension :: nat
  config_metric :: metric

record upsert_point =
  up_id :: string
  up_vector :: "f32 list"
  up_metadata :: metadata

text \<open>
  \<open>PointVector\<close>: owned components, or a window of a segment file mapped into memory,
  given by the file's bytes, the window's offset and its length in components.
\<close>

datatype point_vector = Owned "f32 list" | Mapped bytes nat nat

fun as_slice :: "point_vector \<Rightarrow> f32 list" where
  "as_slice (Owned v) = v"
| "as_slice (Mapped mapping offset len) = f32s_of_bytes (take (len * 4) (drop offset mapping))"

fun is_memory_mapped :: "point_vector \<Rightarrow> bool" where
  "is_memory_mapped (Owned v) = False"
| "is_memory_mapped (Mapped mapping offset len) = True"

definition mapped :: "bytes \<Rightarrow> nat \<Rightarrow> nat \<Rightarrow> point_vector result" where
  "mapped mapping offset len =
     rbind (ok_or (checked_mul_usize len 4) (CorruptStorage ''mapped vector length overflows''))
       (\<lambda>byte_len.
     rbind (ok_or (checked_add_usize offset byte_len)
              (CorruptStorage ''mapped vector offset overflows'')) (\<lambda>last.
     if offset mod 4 \<noteq> 0 \<or> last > length mapping
     then Inl (CorruptStorage ''mapped vector is unaligned or outside its segment'')
     else Inr (Mapped mapping offset len)))"

record point =
  p_id :: string
  p_vector :: "f32 list"
  p_metadata :: metadata
  p_sequence :: u64

text \<open>
  \<open>StoredPoint\<close>. Its \<open>public_view\<close> is a once-initialised cache of
  \<open>to_owned_point\<close>, a pure function of the other fields, and is left out.
\<close>

record stored_point =
  sp_id :: string
  sp_vector :: point_vector
  sp_metadata :: metadata
  sp_sequence :: u64

definition to_owned_point :: "stored_point \<Rightarrow> point" where
  "to_owned_point p = \<lparr>p_id = sp_id p, p_vector = as_slice (sp_vector p),
     p_metadata = sp_metadata p, p_sequence = sp_sequence p\<rparr>"

definition stored_of_point :: "point \<Rightarrow> stored_point" where
  "stored_of_point p = \<lparr>sp_id = p_id p, sp_vector = Owned (p_vector p),
     sp_metadata = p_metadata p, sp_sequence = p_sequence p\<rparr>"

record search_hit =
  hit_id :: string
  hit_score :: f32
  hit_metadata :: metadata
  hit_sequence :: u64

record collection =
  config :: collection_config
  points :: "(string \<times> stored_point) list"
  sequence :: u64

section \<open>Operations\<close>

definition collection_new :: "collection_config \<Rightarrow> collection result" where
  "collection_new cfg =
     (if dimension cfg = 0 then Inl (InvalidConfig ''dimension must be greater than zero'')
      else Inr \<lparr>config = cfg, points = [], sequence = 0\<rparr>)"

definition collection_len :: "collection \<Rightarrow> nat" where
  "collection_len c = length (points c)"

definition next_sequence :: "collection \<Rightarrow> u64 result" where
  "next_sequence c = ok_or (checked_add_u64 (sequence c) 1) SequenceOverflow"

definition prepare_point :: "collection_config \<Rightarrow> u64 \<Rightarrow> upsert_point \<Rightarrow> stored_point result" where
  "prepare_point cfg seq p =
     (if length (up_vector p) \<noteq> dimension cfg
      then Inl (InvalidDimension (dimension cfg) (length (up_vector p)))
      else if up_id p = [] then Inl (InvalidQuery ''point ID must not be empty'')
      else rbind (prepare (config_metric cfg) (up_vector p)) (\<lambda>v.
        Inr \<lparr>sp_id = up_id p, sp_vector = Owned v, sp_metadata = up_metadata p,
             sp_sequence = seq\<rparr>))"

definition prepare_upsert ::
    "collection \<Rightarrow> upsert_point list \<Rightarrow> u64 \<Rightarrow> stored_point list result" where
  "prepare_upsert c ps seq =
     (if ps = [] then Inl (InvalidQuery ''upsert batch must not be empty'')
      else try_map (prepare_point (config c) seq) ps)"

definition apply_prepared_upsert :: "collection \<Rightarrow> stored_point list \<Rightarrow> u64 \<Rightarrow> collection" where
  "apply_prepared_upsert c ps seq =
     c\<lparr>points := foldl (\<lambda>m p. hm_insert (sp_id p) p m) (points c) ps, sequence := seq\<rparr>"

definition apply_delete_at :: "collection \<Rightarrow> string list \<Rightarrow> u64 \<Rightarrow> collection" where
  "apply_delete_at c ids seq =
     c\<lparr>points := foldl (\<lambda>m i. hm_remove i m) (points c) ids, sequence := seq\<rparr>"

definition collection_upsert :: "collection \<Rightarrow> upsert_point list \<Rightarrow> (u64 \<times> collection) result" where
  "collection_upsert c ps =
     rbind (next_sequence c) (\<lambda>seq.
     rbind (prepare_upsert c ps seq) (\<lambda>prepared.
     Inr (seq, apply_prepared_upsert c prepared seq)))"

definition collection_delete :: "collection \<Rightarrow> string list \<Rightarrow> (u64 \<times> collection) result" where
  "collection_delete c ids =
     rbind (next_sequence c) (\<lambda>seq. Inr (seq, apply_delete_at c ids seq))"

definition get_stored :: "collection \<Rightarrow> string \<Rightarrow> stored_point option" where
  "get_stored c i = map_of (points c) i"

definition collection_get :: "collection \<Rightarrow> string \<Rightarrow> point option" where
  "collection_get c i = map_option to_owned_point (map_of (points c) i)"

text \<open>\<open>RankedPoint\<close> and its order: the better score first, then the smaller ID.\<close>

record ranked_point =
  rp_point :: stored_point
  rp_score :: f32

definition ranked_cmp :: "ranked_point \<Rightarrow> ranked_point \<Rightarrow> ordering" where
  "ranked_cmp a b =
     then_with (f32_total_cmp (rp_score b) (rp_score a))
       (cmp_of (sp_id (rp_point a)) (sp_id (rp_point b)))"

definition rank :: "metric \<Rightarrow> f32 list \<Rightarrow> stored_point \<Rightarrow> ranked_point" where
  "rank m query p = \<lparr>rp_point = p, rp_score = score m query (as_slice (sp_vector p))\<rparr>"

definition hit_of_ranked :: "ranked_point \<Rightarrow> search_hit" where
  "hit_of_ranked r = \<lparr>hit_id = sp_id (rp_point r), hit_score = rp_score r,
     hit_metadata = sp_metadata (rp_point r), hit_sequence = sp_sequence (rp_point r)\<rparr>"

definition top_k_step :: "nat \<Rightarrow> ranked_point list \<Rightarrow> ranked_point \<Rightarrow> ranked_point list" where
  "top_k_step k heap ranked =
     (if length heap < k then heap_push ranked_cmp ranked heap
      else if (case heap_peek heap of None \<Rightarrow> False | Some worst \<Rightarrow> ranked_cmp ranked worst = Less)
      then heap_push ranked_cmp ranked (heap_pop heap)
      else heap)"

definition top_k :: "collection \<Rightarrow> f32 list \<Rightarrow> nat \<Rightarrow> stored_point list \<Rightarrow> search_hit list" where
  "top_k c query k ps =
     map hit_of_ranked
       (sort_by ranked_cmp
          (foldl (top_k_step k) [] (map (rank (config_metric (config c)) query) ps)))"

definition filter_matches :: "filter_expr option \<Rightarrow> stored_point \<Rightarrow> bool" where
  "filter_matches f p = (case f of None \<Rightarrow> True | Some g \<Rightarrow> matches g (sp_metadata p))"

definition check_query :: "collection \<Rightarrow> f32 list \<Rightarrow> nat \<Rightarrow> f32 list result" where
  "check_query c query k =
     (if k = 0 then Inl (InvalidQuery ''k must be greater than zero'')
      else if length query \<noteq> dimension (config c)
      then Inl (InvalidDimension (dimension (config c)) (length query))
      else prepare (config_metric (config c)) query)"

definition collection_search ::
    "collection \<Rightarrow> f32 list \<Rightarrow> nat \<Rightarrow> filter_expr option \<Rightarrow> search_hit list result" where
  "collection_search c query k f =
     rbind (check_query c query k) (\<lambda>q.
     Inr (top_k c q k (List.filter (filter_matches f) (map snd (points c)))))"

definition search_ids ::
    "collection \<Rightarrow> f32 list \<Rightarrow> nat \<Rightarrow> string list \<Rightarrow> filter_expr option \<Rightarrow> search_hit list result" where
  "search_ids c query k ids f =
     rbind (check_query c query k) (\<lambda>q.
     Inr (top_k c q k
       (List.filter (filter_matches f) (List.map_filter (\<lambda>i. map_of (points c) i) ids))))"

definition snapshot_stored_points :: "collection \<Rightarrow> stored_point list" where
  "snapshot_stored_points c =
     sort_by (\<lambda>a b. cmp_of (sp_id a) (sp_id b)) (map snd (points c))"

definition snapshot_points :: "collection \<Rightarrow> point list" where
  "snapshot_points c =
     sort_by (\<lambda>a b. cmp_of (p_id a) (p_id b)) (map (to_owned_point \<circ> snd) (points c))"

definition vector_storage_stats :: "collection \<Rightarrow> nat \<times> nat \<times> nat" where
  "vector_storage_stats c =
     foldl (\<lambda>(mapped, owned, owned_bytes) p.
       if is_memory_mapped (sp_vector p) then (mapped + 1, owned, owned_bytes)
       else (mapped, owned + 1, owned_bytes + length (as_slice (sp_vector p)) * 4))
     (0, 0, 0) (map snd (points c))"

definition replace_persisted_points :: "collection \<Rightarrow> stored_point list \<Rightarrow> collection" where
  "replace_persisted_points c ps =
     c\<lparr>points := foldl (\<lambda>m p.
         case map_of m (sp_id p) of
           Some current \<Rightarrow>
             if sp_sequence current = sp_sequence p then hm_insert (sp_id p) p m else m
         | None \<Rightarrow> m)
       (points c) ps\<rparr>"

text \<open>
  \<open>restore_stored_snapshot\<close> works in place: it may fail half way, with the points
  inserted so far, so it returns the collection next to the outcome.
\<close>

fun restore_insert ::
    "(string \<times> stored_point) list \<Rightarrow> stored_point list \<Rightarrow>
     (string \<times> stored_point) list \<times> bool" where
  "restore_insert m [] = (m, True)"
| "restore_insert m (p # ps) =
     (if map_of m (sp_id p) \<noteq> None then (hm_insert (sp_id p) p m, False)
      else restore_insert (hm_insert (sp_id p) p m) ps)"

definition restore_stored_snapshot ::
    "collection \<Rightarrow> stored_point list \<Rightarrow> u64 \<Rightarrow> collection \<times> unit result" where
  "restore_stored_snapshot c ps seq =
     (if list_ex (\<lambda>p. sp_sequence p > seq) ps
      then (c, Inl (CorruptStorage ''point sequence is newer than its segment''))
      else (case restore_insert [] ps of (m, unique) \<Rightarrow>
        if unique then (c\<lparr>points := m, sequence := seq\<rparr>, Inr ())
        else (c\<lparr>points := m\<rparr>,
              Inl (CorruptStorage ''segment contains duplicate point IDs''))))"

definition restore_snapshot :: "collection \<Rightarrow> point list \<Rightarrow> u64 \<Rightarrow> collection \<times> unit result" where
  "restore_snapshot c ps seq = restore_stored_snapshot c (map stored_of_point ps) seq"

section \<open>The bounded heap selects the best\<close>

definition ranked_key :: "ranked_point \<Rightarrow> int \<times> string" where
  "ranked_key r = (- f32_key (rp_score r), sp_id (rp_point r))"

interpretation ranked: keyed_cmp ranked_cmp ranked_key
  by unfold_locales
    (auto simp: ranked_cmp_def ranked_key_def f32_total_cmp_def cmp_of_def then_with_def)

lemma top_k_step_first_k:
  assumes "0 < k" "distinct (r # rs)" "inj_on ranked_key (set (r # rs))"
  shows "top_k_step k (first_k ranked_key k rs) r = first_k ranked_key k (r # rs)"
proof (cases "length (first_k ranked_key k rs) < k")
  case True
  then show ?thesis
    unfolding top_k_step_def ranked.heap_push_insort by (simp only: first_k_Cons_short if_True)
next
  case False
  define h where "h = first_k ranked_key k rs"
  have len: "length h = k"
    using False by (simp add: h_def)
  have ne: "h \<noteq> []"
    using len assms(1) by auto
  have "last h \<in> set rs"
    using ne by (metis h_def in_set_takeD last_in_set set_sort)
  then have neq: "ranked_key (last h) \<noteq> ranked_key r"
    using assms(2,3) by (metis distinct.simps(2) inj_on_def list.set_intros(1,2))
  show ?thesis
  proof (cases "ranked_cmp r (last h) = Less")
    case True
    then have "ranked_key r < ranked_key (last h)"
      by (simp add: ranked.cmp_Less)
    then have "insort_key ranked_key r (butlast h) = first_k ranked_key k (r # rs)"
      using len assms(1) unfolding h_def by (intro first_k_Cons_less) auto
    then show ?thesis
      using True len ne unfolding top_k_step_def h_def [symmetric]
      by (simp add: heap_peek_def heap_pop_def ranked.heap_push_insort)
  next
    case False
    then have "ranked_key (last h) < ranked_key r"
      using neq by (simp add: ranked.cmp_Less)
    then have "h = first_k ranked_key k (r # rs)"
      using len assms(1) unfolding h_def by (intro first_k_Cons_greater) auto
    then show ?thesis
      using False len ne unfolding top_k_step_def h_def [symmetric]
      by (simp add: heap_peek_def)
  qed
qed

lemma top_k_loop:
  assumes "0 < k" "distinct (rev rs @ us)" "inj_on ranked_key (set (rev rs @ us))"
  shows "foldl (top_k_step k) (first_k ranked_key k us) rs = first_k ranked_key k (rev rs @ us)"
  using assms
proof (induction rs arbitrary: us)
  case Nil
  then show ?case by simp
next
  case (Cons r rs)
  have "inj_on ranked_key (set (r # us))"
    using Cons.prems(3) by (rule inj_on_subset) auto
  then have "top_k_step k (first_k ranked_key k us) r = first_k ranked_key k (r # us)"
    using Cons.prems(1,2) by (intro top_k_step_first_k) auto
  then show ?case
    using Cons.IH [of "r # us"] Cons.prems by simp
qed

lemma top_k_first_k:
  assumes "0 < k" "distinct (map sp_id ps)"
  shows "top_k c query k ps =
    map hit_of_ranked (first_k ranked_key k (map (rank (config_metric (config c)) query) ps))"
proof -
  let ?rs = "map (rank (config_metric (config c)) query) ps"
  have inj: "inj_on ranked_key (set ?rs)"
    using assms(2) by (auto simp: inj_on_def ranked_key_def rank_def distinct_map)
  have dist: "distinct ?rs"
    using assms(2) by (auto simp: distinct_map inj_on_def rank_def)
  have "foldl (top_k_step k) [] ?rs = first_k ranked_key k (rev ?rs)"
    using top_k_loop [OF assms(1), of ?rs "[]"] inj dist by simp
  also have "\<dots> = first_k ranked_key k ?rs"
    by (rule first_k_perm) (use inj dist in auto)
  finally have "foldl (top_k_step k) [] ?rs = first_k ranked_key k ?rs" .
  moreover have "sort_key ranked_key (first_k ranked_key k ?rs) = first_k ranked_key k ?rs"
    by (intro sort_key_id_if_sorted sorted_first_k)
  ultimately show ?thesis
    unfolding top_k_def by (simp only: ranked.sort_by_sort_key)
qed

section \<open>Exact search\<close>

definition hit_key :: "search_hit \<Rightarrow> int \<times> string" where
  "hit_key h = (- f32_key (hit_score h), hit_id h)"

definition point_hit :: "metric \<Rightarrow> f32 list \<Rightarrow> stored_point \<Rightarrow> search_hit" where
  "point_hit m query p = hit_of_ranked (rank m query p)"

lemma hit_key_ranked: "hit_key (hit_of_ranked r) = ranked_key r"
  by (simp add: hit_key_def ranked_key_def hit_of_ranked_def)

lemma hit_id_point_hit [simp]: "hit_id (point_hit m q p) = sp_id p"
  by (simp add: point_hit_def hit_of_ranked_def rank_def)

lemma top_k_hits:
  assumes "0 < k" "distinct (map sp_id ps)"
  shows "top_k c q k ps = first_k hit_key k (map (point_hit (config_metric (config c)) q) ps)"
proof -
  have "point_hit m q = (\<lambda>p. hit_of_ranked (rank m q p))" for m
    by (simp add: fun_eq_iff point_hit_def)
  then show ?thesis
    using map_sort_key [of hit_of_ranked hit_key] assms
    by (simp add: top_k_first_k take_map [symmetric] hit_key_ranked comp_def)
qed

lemma inj_on_hit_key: "distinct (map hit_id hs) \<Longrightarrow> inj_on hit_key (set hs)"
  by (auto simp: inj_on_def hit_key_def distinct_map)

lemma hit_id_point_hits: "map hit_id (map (point_hit m q) ps) = map sp_id ps"
  by (simp add: comp_def)

text \<open>
  The invariant of a collection: a positive dimension, one entry per ID, kept under
  its own ID, and every stored point of the configured dimension, with a non-empty ID,
  a well-formed metadata map and a sequence number the collection has reached.
\<close>

definition stored_ok :: "collection_config \<Rightarrow> u64 \<Rightarrow> stored_point \<Rightarrow> bool" where
  "stored_ok cfg seq p \<longleftrightarrow> sp_id p \<noteq> [] \<and> length (as_slice (sp_vector p)) = dimension cfg \<and>
     bt_wf (sp_metadata p) \<and> sp_sequence p \<le> seq"

definition collection_ok :: "collection \<Rightarrow> bool" where
  "collection_ok c \<longleftrightarrow> 0 < dimension (config c) \<and> hm_wf (points c) \<and>
     list_all (\<lambda>(i, p). i = sp_id p \<and> stored_ok (config c) (sequence c) p) (points c)"

lemma collection_ok_ids:
  assumes "collection_ok c"
  shows "map sp_id (map snd (points c)) = map fst (points c)"
  using assms by (induction "points c") (auto simp: collection_ok_def list_all_iff)

lemma collection_ok_distinct:
  assumes "collection_ok c"
  shows "distinct (map sp_id (map snd (points c)))"
  unfolding collection_ok_ids [OF assms] using assms by (simp add: collection_ok_def)

definition candidate_hits :: "collection \<Rightarrow> f32 list \<Rightarrow> filter_expr option \<Rightarrow> search_hit list" where
  "candidate_hits c q f = map (point_hit (config_metric (config c)) q)
     (List.filter (filter_matches f) (map snd (points c)))"

lemma candidate_hits_distinct:
  "collection_ok c \<Longrightarrow> distinct (map hit_id (candidate_hits c q f))"
  unfolding candidate_hits_def hit_id_point_hits
  by (intro distinct_map_filter_id collection_ok_distinct)

lemma check_query_Inr:
  "check_query c query k = Inr q \<longleftrightarrow>
     0 < k \<and> length query = dimension (config c) \<and> prepare (config_metric (config c)) query = Inr q"
  by (auto simp: check_query_def)

lemma check_query_cong: "config c' = config c \<Longrightarrow> check_query c' query k = check_query c query k"
  by (simp add: check_query_def)

lemma collection_search_first_k:
  assumes "collection_ok c" "check_query c query k = Inr q"
  shows "collection_search c query k f = Inr (first_k hit_key k (candidate_hits c q f))"
proof -
  have "0 < k"
    using assms(2) by (simp add: check_query_Inr)
  then show ?thesis
    using distinct_map_filter_id [OF collection_ok_distinct [OF assms(1)]]
    by (simp add: collection_search_def assms(2) top_k_hits candidate_hits_def)
qed

lemma collection_search_Inr:
  assumes "collection_ok c" "collection_search c query k f = Inr hits"
  obtains q where "check_query c query k = Inr q"
    "hits = first_k hit_key k (candidate_hits c q f)"
  using assms collection_search_first_k [OF assms(1)]
  by (auto simp: collection_search_def rbind_eq_Inr)

section \<open>Writes\<close>

lemma map_of_hm_inserts:
  "map_of (foldl (\<lambda>m p. hm_insert (sp_id p) p m) m ps) =
     map_of m ++ map_of (rev (map (\<lambda>p. (sp_id p, p)) ps))"
proof (induction ps arbitrary: m)
  case Nil
  then show ?case by simp
next
  case (Cons p ps)
  have "map_of m ++ (map_of [(sp_id p, p)] ++ g) = (map_of m)(sp_id p \<mapsto> p) ++ g" for g
    by (auto simp: map_add_def fun_eq_iff split: option.splits)
  then show ?case
    using Cons by (simp add: update_conv' fun_upd_def map_add_assoc [symmetric] del: map_add_assoc)
qed

lemma map_of_hm_removes:
  "map_of (foldl (\<lambda>m i. hm_remove i m) m ids) i = (if i \<in> set ids then None else map_of m i)"
  by (induction ids arbitrary: m) (auto simp: delete_conv')

lemma get_upserted:
  "get_stored (apply_prepared_upsert c ps seq) =
     get_stored c ++ map_of (rev (map (\<lambda>p. (sp_id p, p)) ps))"
  by (auto simp: fun_eq_iff get_stored_def [abs_def] apply_prepared_upsert_def map_of_hm_inserts)

lemma get_deleted:
  "get_stored (apply_delete_at c ids seq) i = (if i \<in> set ids then None else get_stored c i)"
  by (simp add: get_stored_def apply_delete_at_def map_of_hm_removes)

lemma stored_ok_mono: "stored_ok cfg seq p \<Longrightarrow> seq \<le> seq' \<Longrightarrow> stored_ok cfg seq' p"
  by (auto simp: stored_ok_def)

lemma entries_mono:
  "list_all (\<lambda>(i, p). i = sp_id p \<and> stored_ok cfg seq p) m \<Longrightarrow> seq \<le> seq' \<Longrightarrow>
   list_all (\<lambda>(i, p). i = sp_id p \<and> stored_ok cfg seq' p) m"
  by (auto simp: list_all_iff intro: stored_ok_mono)

lemma collection_ok_upsert:
  assumes "collection_ok c" "sequence c \<le> seq" "list_all (stored_ok (config c) seq) ps"
  shows "collection_ok (apply_prepared_upsert c ps seq)"
proof -
  let ?P = "\<lambda>(i, p). i = sp_id p \<and> stored_ok (config c) seq p"
  have "hm_wf m \<Longrightarrow> list_all ?P m \<Longrightarrow>
    hm_wf (foldl (\<lambda>m p. hm_insert (sp_id p) p m) m ps) \<and>
    list_all ?P (foldl (\<lambda>m p. hm_insert (sp_id p) p m) m ps)" for m
    using assms(3)
    by (induction ps arbitrary: m) (auto simp: hm_wf_insert list_all_hm_insert)
  moreover have "list_all ?P (points c)"
    using assms(1,2) by (auto simp: collection_ok_def intro: entries_mono)
  ultimately show ?thesis
    using assms(1) by (simp add: collection_ok_def apply_prepared_upsert_def)
qed

lemma collection_ok_delete:
  assumes "collection_ok c" "sequence c \<le> seq"
  shows "collection_ok (apply_delete_at c ids seq)"
proof -
  let ?P = "\<lambda>(i, p). i = sp_id p \<and> stored_ok (config c) seq p"
  have "hm_wf m \<Longrightarrow> list_all ?P m \<Longrightarrow>
    hm_wf (foldl (\<lambda>m i. hm_remove i m) m ids) \<and> list_all ?P (foldl (\<lambda>m i. hm_remove i m) m ids)" for m
    by (induction ids arbitrary: m) (auto simp: hm_wf_remove list_all_hm_remove)
  moreover have "list_all ?P (points c)"
    using assms by (auto simp: collection_ok_def intro: entries_mono)
  ultimately show ?thesis
    using assms(1) by (simp add: collection_ok_def apply_delete_at_def)
qed

lemma prepare_point_Inr:
  "prepare_point cfg seq p = Inr sp \<longleftrightarrow>
     length (up_vector p) = dimension cfg \<and> up_id p \<noteq> [] \<and>
     (\<exists>v. prepare (config_metric cfg) (up_vector p) = Inr v \<and>
       sp = \<lparr>sp_id = up_id p, sp_vector = Owned v, sp_metadata = up_metadata p, sp_sequence = seq\<rparr>)"
  by (auto simp: prepare_point_def rbind_eq_Inr)

lemma prepare_point_ok:
  assumes "prepare_point cfg seq p = Inr sp" "bt_wf (up_metadata p)"
  shows "stored_ok cfg seq sp"
  using assms prepare_length by (auto simp: prepare_point_Inr stored_ok_def)

lemma prepare_upsert_ok:
  assumes "prepare_upsert c ps seq = Inr sps" "list_all (\<lambda>p. bt_wf (up_metadata p)) ps"
  shows "list_all (stored_ok (config c) seq) sps"
proof -
  have "list_all2 (\<lambda>p sp. prepare_point (config c) seq p = Inr sp) ps sps"
    using assms(1) by (auto simp: prepare_upsert_def try_map_eq_Inr split: if_splits)
  then show ?thesis
    using assms(2) by (induction rule: list_all2_induct) (auto intro: prepare_point_ok)
qed

lemma next_sequence_Inr: "next_sequence c = Inr seq \<longleftrightarrow> unat seq = unat (sequence c) + 1"
proof -
  have "seq = sequence c + 1" if eq: "unat seq = unat (sequence c) + 1"
  proof -
    have "unat (sequence c) + 1 < 18446744073709551616"
      using unat_u64_less [of seq] eq by simp
    then show ?thesis
      using eq by (simp add: word_unat_eq_iff unat_word_ariths)
  qed
  then show ?thesis
    by (auto simp: next_sequence_def ok_or_eq_Inr checked_add_u64_one)
qed

lemma next_sequence_less: "next_sequence c = Inr seq \<Longrightarrow> sequence c < seq"
  by (simp add: next_sequence_Inr word_less_nat_alt)

section \<open>Snapshots\<close>

definition by_id :: "stored_point list \<Rightarrow> (string \<times> stored_point) list" where
  "by_id ps = map (\<lambda>p. (sp_id p, p)) ps"

lemma fst_by_id [simp]: "map fst (by_id ps) = map sp_id ps"
  by (simp add: by_id_def comp_def)

lemma restore_insert_distinct:
  "distinct (map fst m @ map sp_id ps) \<Longrightarrow> restore_insert m ps = (m @ by_id ps, True)"
proof (induction ps arbitrary: m)
  case Nil
  then show ?case by (simp add: by_id_def)
next
  case (Cons p ps)
  then have "map_of m (sp_id p) = None" "sp_id p \<notin> fst ` set m"
    by (auto simp: map_of_eq_None_iff)
  then show ?case
    using Cons.IH [of "m @ [(sp_id p, p)]"] Cons.prems
    by (simp add: hm_insert_fresh by_id_def)
qed

lemma restore_insert_duplicate:
  "distinct (map fst m) \<Longrightarrow> \<not> distinct (map fst m @ map sp_id ps) \<Longrightarrow> \<not> snd (restore_insert m ps)"
proof (induction ps arbitrary: m)
  case Nil
  then show ?case by simp
next
  case (Cons p ps)
  show ?case
  proof (cases "sp_id p \<in> fst ` set m")
    case True
    then show ?thesis by (simp add: map_of_eq_None_iff)
  next
    case False
    then have "\<not> snd (restore_insert (m @ [(sp_id p, p)]) ps)"
      using Cons.prems by (intro Cons.IH) auto
    with False show ?thesis
      by (simp add: map_of_eq_None_iff hm_insert_fresh)
  qed
qed

lemma restore_stored_snapshot_ok:
  assumes "list_all (\<lambda>p. sp_sequence p \<le> seq) ps" "distinct (map sp_id ps)"
  shows "restore_stored_snapshot c ps seq = (c\<lparr>points := by_id ps, sequence := seq\<rparr>, Inr ())"
  using assms restore_insert_distinct [of "[]" ps]
  by (auto simp: restore_stored_snapshot_def list_ex_iff list_all_iff not_less)

lemma restore_stored_snapshot_Inr:
  "snd (restore_stored_snapshot c ps seq) = Inr () \<longleftrightarrow>
     list_all (\<lambda>p. sp_sequence p \<le> seq) ps \<and> distinct (map sp_id ps)"
proof (cases "distinct (map sp_id ps)")
  case True
  then show ?thesis
    using restore_insert_distinct [of "[]" ps]
    by (auto simp: restore_stored_snapshot_def list_ex_iff list_all_iff not_less [symmetric])
next
  case False
  then show ?thesis
    using restore_insert_duplicate [of "[]" ps]
    by (auto simp: restore_stored_snapshot_def split: prod.splits)
qed

lemma collection_ok_by_id:
  assumes "0 < dimension cfg" "list_all (stored_ok cfg seq) ps" "distinct (map sp_id ps)"
  shows "collection_ok \<lparr>config = cfg, points = by_id ps, sequence = seq\<rparr>"
  using assms by (auto simp: collection_ok_def list_all_iff by_id_def comp_def)

interpretation stored_id: keyed_cmp "\<lambda>a b. cmp_of (sp_id a) (sp_id b)" sp_id
  by unfold_locales simp

interpretation point_id: keyed_cmp "\<lambda>a b. cmp_of (p_id a) (p_id b)" p_id
  by unfold_locales simp

lemma snapshot_stored_points_sorted: "sorted (map sp_id (snapshot_stored_points c))"
  by (simp add: snapshot_stored_points_def stored_id.sort_by_sort_key)

lemma mset_snapshot_stored_points [simp]:
  "mset (snapshot_stored_points c) = mset (map snd (points c))"
  by (simp add: snapshot_stored_points_def stored_id.sort_by_sort_key)

lemma set_snapshot_stored_points [simp]:
  "set (snapshot_stored_points c) = snd ` set (points c)"
  by (simp add: snapshot_stored_points_def stored_id.sort_by_sort_key)

lemma distinct_snapshot_ids:
  assumes "collection_ok c"
  shows "distinct (map sp_id (snapshot_stored_points c))"
proof -
  have "mset (map sp_id (snapshot_stored_points c)) = mset (map sp_id (map snd (points c)))"
    by (simp only: mset_map mset_snapshot_stored_points)
  then show ?thesis
    using collection_ok_distinct [OF assms] mset_eq_imp_distinct_iff by blast
qed

lemma points_by_id: "collection_ok c \<Longrightarrow> points c = by_id (map snd (points c))"
  unfolding by_id_def map_map comp_def
  by (rule sym, rule map_idI) (auto simp: collection_ok_def list_all_iff)

lemma snapshot_points_stored:
  "collection_ok c \<Longrightarrow> snapshot_points c = map to_owned_point (snapshot_stored_points c)"
  using map_sort_key [of to_owned_point p_id "map snd (points c)"]
  by (simp add: snapshot_points_def snapshot_stored_points_def point_id.sort_by_sort_key
      stored_id.sort_by_sort_key to_owned_point_def comp_def)

lemma get_stored_restored:
  assumes "collection_ok c0" "config c = config c0"
  shows "get_stored (c\<lparr>points := by_id (snapshot_stored_points c0), sequence := seq\<rparr>) i = get_stored c0 i"
proof -
  have "set (by_id (snapshot_stored_points c0)) = set (by_id (map snd (points c0)))"
    by (simp add: by_id_def image_image)
  then have "set (by_id (snapshot_stored_points c0)) = set (points c0)"
    using points_by_id [OF assms(1)] by simp
  moreover have "distinct (map fst (by_id (snapshot_stored_points c0)))"
    using distinct_snapshot_ids [OF assms(1)] by simp
  moreover have "distinct (map fst (points c0))"
    using assms(1) by (simp add: collection_ok_def)
  ultimately show ?thesis
    using map_of_inject_set [of "by_id (snapshot_stored_points c0)" "points c0"]
    by (simp add: get_stored_def)
qed

text \<open>Replacing persisted points by equal ones changes nothing a reader sees.\<close>

definition same_point :: "collection \<Rightarrow> stored_point \<Rightarrow> bool" where
  "same_point c p \<longleftrightarrow> (case get_stored c (sp_id p) of None \<Rightarrow> True
     | Some cur \<Rightarrow> sp_sequence cur = sp_sequence p \<longrightarrow> to_owned_point p = to_owned_point cur)"

lemma replace_step_view:
  fixes m :: "(string \<times> stored_point) list"
  assumes "\<forall>cur. map_of m (sp_id p) = Some cur \<and> sp_sequence cur = sp_sequence p \<longrightarrow>
    to_owned_point p = to_owned_point cur"
  defines "m' \<equiv> (case map_of m (sp_id p) of
      Some current \<Rightarrow> if sp_sequence current = sp_sequence p then hm_insert (sp_id p) p m else m
    | None \<Rightarrow> m)"
  shows "map_option to_owned_point (map_of m' i) = map_option to_owned_point (map_of m i)"
  using assms by (auto simp: update_conv' split: option.splits)

lemma replace_persisted_view:
  assumes "list_all (same_point c) ps"
  shows "collection_get (replace_persisted_points c ps) i = collection_get c i"
proof -
  let ?step = "\<lambda>m p. case map_of m (sp_id p) of
      Some current \<Rightarrow> if sp_sequence current = sp_sequence p then hm_insert (sp_id p) p m else m
    | None \<Rightarrow> m"
  have "(\<forall>j. map_option to_owned_point (map_of m j) = collection_get c j) \<Longrightarrow>
    map_option to_owned_point (map_of (foldl ?step m ps) i) = collection_get c i" for m
    using assms
  proof (induction ps arbitrary: m)
    case Nil
    then show ?case by simp
  next
    case (Cons p ps)
    have "to_owned_point p = to_owned_point cur"
      if cur: "map_of m (sp_id p) = Some cur" "sp_sequence cur = sp_sequence p" for cur
    proof -
      have *: "collection_get c (sp_id p) = Some (to_owned_point cur)"
        using Cons.prems(1) cur(1) by (metis option.simps(9))
      then obtain cur' where cur': "get_stored c (sp_id p) = Some cur'"
        "to_owned_point cur' = to_owned_point cur"
        by (auto simp: collection_get_def get_stored_def)
      then have "sp_sequence cur' = sp_sequence p"
        using cur(2) by (simp add: to_owned_point_def)
      then show ?thesis
        using Cons.prems(2) cur' by (simp add: same_point_def)
    qed
    then have "map_option to_owned_point (map_of (?step m p) j) = collection_get c j" for j
      using replace_step_view [of m p j] Cons.prems(1) by simp
    then show ?case
      using Cons.IH [of "?step m p"] Cons.prems(2) by simp
  qed
  then show ?thesis
    by (simp add: replace_persisted_points_def collection_get_def)
qed

section \<open>Correctness\<close>

text \<open>
  C1: a search over a well-formed collection returns exactly the best \<open>k\<close> matching
  points. The result has \<open>min k n\<close> hits for \<open>n\<close> matching points, in strictly
  decreasing score with ties in increasing ID, every hit is a matching point with its
  own score, and every matching point left out ranks after every hit.
\<close>

theorem collection_search_exact:
  assumes "collection_ok c" "check_query c query k = Inr q"
  shows "\<exists>hits. collection_search c query k f = Inr hits \<and>
    (let M = {p \<in> snd ` set (points c). filter_matches f p};
         hit = point_hit (config_metric (config c)) q in
     length hits = min k (card M) \<and>
     sorted_wrt (\<lambda>a b. hit_key a < hit_key b) hits \<and>
     set hits \<subseteq> hit ` M \<and>
     (\<forall>p\<in>M. hit p \<notin> set hits \<longrightarrow> (\<forall>h\<in>set hits. hit_key h < hit_key (hit p))))"
proof -
  let ?ps = "List.filter (filter_matches f) (map snd (points c))"
  let ?hit = "point_hit (config_metric (config c)) q"
  let ?cand = "candidate_hits c q f"
  have ids: "distinct (map hit_id ?cand)"
    by (rule candidate_hits_distinct [OF assms(1)])
  then have dist: "distinct ?cand" and inj: "inj_on hit_key (set ?cand)"
    by (auto simp: distinct_map inj_on_hit_key)
  have cand: "?cand = map ?hit ?ps"
    by (simp add: candidate_hits_def)
  have set_ps: "set ?ps = {p \<in> snd ` set (points c). filter_matches f p}"
    by auto
  have "distinct ?ps"
    using dist cand by (simp add: distinct_map)
  then have card: "card (set ?ps) = length ?ps"
    by (rule distinct_card)
  show ?thesis
    unfolding Let_def set_ps [symmetric] card collection_search_first_k [OF assms]
  proof (intro exI conjI ballI impI)
    show "length (first_k hit_key k ?cand) = min k (length ?ps)"
      by (simp add: cand min.commute)
    show "sorted_wrt (\<lambda>a b. hit_key a < hit_key b) (first_k hit_key k ?cand)"
      using dist inj by (rule first_k_strict)
    show "set (first_k hit_key k ?cand) \<subseteq> ?hit ` set ?ps"
      using cand by (auto dest: in_set_takeD)
    show "hit_key h < hit_key (?hit p)"
      if "p \<in> set ?ps" "?hit p \<notin> set (first_k hit_key k ?cand)"
        "h \<in> set (first_k hit_key k ?cand)" for p h
      using that cand by (intro first_k_best [OF dist inj]) auto
  qed (rule refl)
qed

text \<open>
  C2: the unspecified iteration order of the point map does not show: two collections
  that hold the same entries in any order answer every search alike.
\<close>

theorem collection_search_order:
  assumes "collection_ok c" "mset (points c') = mset (points c)" "config c' = config c"
  shows "collection_search c' query k f = collection_search c query k f"
proof (cases "check_query c query k")
  case (Inl e)
  then show ?thesis
    using check_query_cong [OF assms(3)] by (simp add: collection_search_def)
next
  case (Inr q)
  let ?ps = "\<lambda>c. List.filter (filter_matches f) (map snd (points c))"
  have k: "0 < k" and q: "check_query c' query k = Inr q"
    using Inr assms(3) by (auto simp: check_query_Inr)
  have mset: "mset (?ps c') = mset (?ps c)"
    using assms(2) by simp
  have dist: "distinct (map sp_id (?ps c))"
    by (intro distinct_map_filter_id collection_ok_distinct assms(1))
  then have dist': "distinct (map sp_id (?ps c'))"
    using mset by (metis mset_eq_imp_distinct_iff mset_map)
  have "first_k hit_key k (candidate_hits c' q f) = first_k hit_key k (candidate_hits c q f)"
  proof (rule first_k_perm)
    show "mset (candidate_hits c' q f) = mset (candidate_hits c q f)"
      using assms(3) mset by (simp add: candidate_hits_def)
    have ids: "distinct (map hit_id (candidate_hits c' q f))"
      unfolding candidate_hits_def hit_id_point_hits by (rule dist')
    then show "distinct (candidate_hits c' q f)" "inj_on hit_key (set (candidate_hits c' q f))"
      by (auto simp: distinct_map inj_on_hit_key)
  qed
  then show ?thesis
    using k q Inr dist dist' by (simp add: collection_search_def top_k_hits candidate_hits_def)
qed

text \<open>
  C3: an upsert is all or nothing, and takes effect at the next sequence number. When
  it succeeds, every point of the batch was prepared, the last one given for an ID is
  the one stored, all other IDs keep their point, and the collection stays well formed.
\<close>

theorem collection_upsert_atomic:
  assumes "collection_ok c" "list_all (\<lambda>p. bt_wf (up_metadata p)) ps"
    and "collection_upsert c ps = Inr (seq, c')"
  shows "unat seq = unat (sequence c) + 1 \<and> sequence c' = seq \<and> config c' = config c \<and>
    collection_ok c' \<and>
    (\<exists>sps. list_all2 (\<lambda>p sp. prepare_point (config c) seq p = Inr sp) ps sps \<and>
      get_stored c' = get_stored c ++ map_of (rev (by_id sps)))"
proof -
  obtain sps where seq: "next_sequence c = Inr seq" and sps: "prepare_upsert c ps seq = Inr sps"
    and c': "c' = apply_prepared_upsert c sps seq"
    using assms(3) by (auto simp: collection_upsert_def rbind_eq_Inr)
  have "collection_ok c'"
    unfolding c' using assms(1,2) next_sequence_less [OF seq] prepare_upsert_ok [OF sps]
    by (intro collection_ok_upsert) auto
  moreover have "list_all2 (\<lambda>p sp. prepare_point (config c) seq p = Inr sp) ps sps"
    using sps by (auto simp: prepare_upsert_def try_map_eq_Inr split: if_splits)
  moreover have "get_stored c' = get_stored c ++ map_of (rev (by_id sps))"
    unfolding c' get_upserted by_id_def ..
  ultimately show ?thesis
    using seq by (auto simp: next_sequence_Inr c' apply_prepared_upsert_def)
qed

text \<open>
  C4: a delete takes effect at the next sequence number, removes exactly the listed
  IDs, ignores the ones that are absent, and keeps the collection well formed.
\<close>

theorem collection_delete_exact:
  assumes "collection_ok c" "collection_delete c ids = Inr (seq, c')"
  shows "unat seq = unat (sequence c) + 1 \<and> sequence c' = seq \<and> config c' = config c \<and>
    collection_ok c' \<and> get_stored c' = get_stored c |` (- set ids)"
proof -
  have seq: "next_sequence c = Inr seq" and c': "c' = apply_delete_at c ids seq"
    using assms(2) by (auto simp: collection_delete_def rbind_eq_Inr)
  have "collection_ok c'"
    unfolding c' using assms(1) next_sequence_less [OF seq] by (intro collection_ok_delete) auto
  moreover have "get_stored c' = get_stored c |` (- set ids)"
    by (auto simp: c' get_deleted restrict_map_def fun_eq_iff)
  ultimately show ?thesis
    using seq by (auto simp: next_sequence_Inr c' apply_delete_at_def)
qed

text \<open>
  C5: restoring the snapshot of a well-formed collection into a collection of the same
  configuration reproduces every stored point and the sequence number, and the result
  is well formed.
\<close>

theorem snapshot_restore:
  assumes "collection_ok c" "config d = config c"
  shows "\<exists>d'. restore_stored_snapshot d (snapshot_stored_points c) (sequence c) = (d', Inr ()) \<and>
    get_stored d' = get_stored c \<and> sequence d' = sequence c \<and> config d' = config c \<and>
    collection_ok d'"
proof -
  let ?ps = "snapshot_stored_points c"
  let ?d = "d\<lparr>points := by_id ?ps, sequence := sequence c\<rparr>"
  have ok: "list_all (stored_ok (config c) (sequence c)) ?ps"
    using assms(1) by (auto simp: collection_ok_def list_all_iff)
  then have "list_all (\<lambda>p. sp_sequence p \<le> sequence c) ?ps"
    by (auto simp: list_all_iff stored_ok_def)
  then have "restore_stored_snapshot d ?ps (sequence c) = (?d, Inr ())"
    by (intro restore_stored_snapshot_ok distinct_snapshot_ids [OF assms(1)])
  moreover have "collection_ok ?d"
    using ok distinct_snapshot_ids [OF assms(1)] assms
    by (auto simp: collection_ok_def list_all_iff by_id_def comp_def)
  ultimately show ?thesis
    using get_stored_restored [OF assms] assms(2) by (auto simp: fun_eq_iff)
qed

definition demo_collection :: collection where
  "demo_collection = \<lparr>config = \<lparr>dimension = 1, config_metric = DotProduct\<rparr>,
     points = [(''a'', \<lparr>sp_id = ''a'', sp_vector = Owned [0x3f800000], sp_metadata = [], sp_sequence = 1\<rparr>),
               (''b'', \<lparr>sp_id = ''b'', sp_vector = Owned [0x40000000], sp_metadata = [], sp_sequence = 2\<rparr>)],
     sequence = 2\<rparr>"

lemma demo_collection_ok: "collection_ok demo_collection"
  by code_simp

theorem collection_search_exact_witness:
  "check_query demo_collection [0x3f800000] 1 = Inr [0x3f800000] \<and>
   (\<exists>hits. collection_search demo_collection [0x3f800000] 1 None = Inr hits \<and> length hits = 1)"
proof -
  have q: "check_query demo_collection [0x3f800000] 1 = Inr [0x3f800000]"
    by code_simp
  have "{p \<in> snd ` set (points demo_collection). filter_matches None p} =
      snd ` set (points demo_collection)"
    by (auto simp: filter_matches_def)
  then have "card {p \<in> snd ` set (points demo_collection). filter_matches None p} = 2"
    by (simp add: demo_collection_def)
  then show ?thesis
    using q collection_search_exact [OF demo_collection_ok q, of None] by (auto simp: Let_def)
qed

theorem collection_search_order_witness:
  "collection_search (demo_collection\<lparr>points := rev (points demo_collection)\<rparr>) [0x3f800000] 2 None =
   collection_search demo_collection [0x3f800000] 2 None"
  by (rule collection_search_order [OF demo_collection_ok]) simp_all

theorem collection_upsert_atomic_witness:
  "\<exists>seq c'. collection_upsert demo_collection
     [\<lparr>up_id = ''a'', up_vector = [0x40400000], up_metadata = []\<rparr>] = Inr (seq, c') \<and>
     unat seq = 3 \<and> collection_ok c'"
proof -
  let ?ps = "[\<lparr>up_id = ''a'', up_vector = [0x40400000], up_metadata = []\<rparr>]"
  have "is_ok (collection_upsert demo_collection ?ps)"
    by code_simp
  then obtain seq c' where up: "collection_upsert demo_collection ?ps = Inr (seq, c')"
    by (auto simp: is_ok_def split: sum.splits)
  have "list_all (\<lambda>p. bt_wf (up_metadata p)) ?ps"
    by code_simp
  from collection_upsert_atomic [OF demo_collection_ok this up]
  have "unat seq = unat (sequence demo_collection) + 1 \<and> collection_ok c'" by blast
  then show ?thesis
    using up by (auto simp: demo_collection_def)
qed

theorem collection_delete_exact_witness:
  "\<exists>seq c'. collection_delete demo_collection [''a'', ''z''] = Inr (seq, c') \<and>
     get_stored c' ''a'' = None \<and> get_stored c' ''b'' = get_stored demo_collection ''b''"
proof -
  have "is_ok (collection_delete demo_collection [''a'', ''z''])"
    by code_simp
  then obtain seq c' where del: "collection_delete demo_collection [''a'', ''z''] = Inr (seq, c')"
    by (auto simp: is_ok_def split: sum.splits)
  from collection_delete_exact [OF demo_collection_ok this]
  have "get_stored c' = get_stored demo_collection |` (- set [''a'', ''z''])" by blast
  then show ?thesis
    using del by (auto simp: restrict_map_def)
qed

theorem snapshot_restore_witness:
  "\<exists>d'. restore_stored_snapshot (demo_collection\<lparr>points := [], sequence := 0\<rparr>)
     (snapshot_stored_points demo_collection) (sequence demo_collection) = (d', Inr ()) \<and>
     get_stored d' = get_stored demo_collection"
  using snapshot_restore [OF demo_collection_ok, of "demo_collection\<lparr>points := [], sequence := 0\<rparr>"]
  by auto

end
