(* ===== verification/MetadataIndex.thy ===== *)
theory MetadataIndex
  imports Collection
begin

text \<open>
  The metadata index of a segment (\<open>src/metadata_index.rs\<close>): postings per field and
  value, ordered postings per numeric field, and the evaluation of a filter on them.
\<close>

section \<open>Data\<close>

datatype scalar_key =
    KeywordKey string
  | IntegerKey i64
  | FloatKey u64
  | BooleanKey bool

definition canonical_zero :: "f64 \<Rightarrow> f64" where
  "canonical_zero v = (if f64_eq v f64_zero then f64_zero else v)"

fun from_value :: "meta_value \<Rightarrow> scalar_key option" where
  "from_value (Keyword v) = Some (KeywordKey v)"
| "from_value (Integer v) = Some (IntegerKey v)"
| "from_value (Float v) = (if f64_is_nan v then None else Some (FloatKey (canonical_zero v)))"
| "from_value (Boolean v) = Some (BooleanKey v)"

text \<open>\<open>OrderedF64\<close>, ordered by \<open>total_cmp\<close>.\<close>

datatype ordered_f64 = OrderedF64 (ordered_bits: f64)

definition ordered_new :: "f64 \<Rightarrow> ordered_f64" where
  "ordered_new v = OrderedF64 (canonical_zero v)"

instantiation ordered_f64 :: linorder
begin

definition less_eq_ordered_f64 :: "ordered_f64 \<Rightarrow> ordered_f64 \<Rightarrow> bool" where
  "less_eq_ordered_f64 a b \<longleftrightarrow> f64_key (ordered_bits a) \<le> f64_key (ordered_bits b)"

definition less_ordered_f64 :: "ordered_f64 \<Rightarrow> ordered_f64 \<Rightarrow> bool" where
  "less_ordered_f64 a b \<longleftrightarrow> f64_key (ordered_bits a) < f64_key (ordered_bits b)"

instance
  by intro_classes
    (auto simp: less_eq_ordered_f64_def less_ordered_f64_def f64_key_inj ordered_f64.expand)

end

record metadata_index =
  all_ids :: "string list"
  equality :: "(string \<times> (scalar_key \<times> string list) list) list"
  numeric :: "(string \<times> (ordered_f64 \<times> string list) list) list"

section \<open>Operations\<close>

text \<open>\<open>entry(k).or_default()\<close> on a \<open>HashMap\<close> and on a \<open>BTreeMap\<close>, then a change of the value.\<close>

definition or_default :: "'v list option \<Rightarrow> 'v list" where
  "or_default x = (case x of None \<Rightarrow> [] | Some v \<Rightarrow> v)"

definition hm_entry :: "'k \<Rightarrow> ('v list \<Rightarrow> 'v list) \<Rightarrow> ('k \<times> 'v list) list \<Rightarrow> ('k \<times> 'v list) list" where
  "hm_entry k g m = hm_insert k (g (or_default (map_of m k))) m"

definition bt_entry ::
    "'k::linorder \<Rightarrow> ('v list \<Rightarrow> 'v list) \<Rightarrow> ('k \<times> 'v list) list \<Rightarrow> ('k \<times> 'v list) list" where
  "bt_entry k g m = bt_insert k (g (or_default (map_of m k))) m"

definition index_equality :: "string \<Rightarrow> metadata_index \<Rightarrow> string \<times> meta_value \<Rightarrow> metadata_index" where
  "index_equality i ix fv = (case from_value (snd fv) of None \<Rightarrow> ix
     | Some key \<Rightarrow> ix\<lparr>equality := hm_entry (fst fv) (hm_entry key (List.insert i)) (equality ix)\<rparr>)"

definition index_numeric :: "string \<Rightarrow> metadata_index \<Rightarrow> string \<times> meta_value \<Rightarrow> metadata_index" where
  "index_numeric i ix fv = (case numeric_value (snd fv) of None \<Rightarrow> ix
     | Some v \<Rightarrow>
         ix\<lparr>numeric := hm_entry (fst fv) (bt_entry (ordered_new v) (List.insert i)) (numeric ix)\<rparr>)"

definition index_fields :: "string \<Rightarrow> metadata_index \<Rightarrow> metadata \<Rightarrow> metadata_index" where
  "index_fields i ix md = foldl (\<lambda>ix fv. index_numeric i (index_equality i ix fv) fv) ix md"

definition index_point :: "metadata_index \<Rightarrow> string \<times> metadata \<Rightarrow> metadata_index" where
  "index_point ix p =
     index_fields (fst p) (ix\<lparr>all_ids := List.insert (fst p) (all_ids ix)\<rparr>) (snd p)"

text \<open>\<open>MetadataIndex::build\<close> on the IDs and metadata of the records.\<close>

definition index_build :: "(string \<times> metadata) list \<Rightarrow> metadata_index" where
  "index_build ps = foldl index_point \<lparr>all_ids = [], equality = [], numeric = []\<rparr> ps"

definition index_range :: "metadata_index \<Rightarrow> string \<Rightarrow> f64 option \<Rightarrow> f64 option \<Rightarrow> string list" where
  "index_range ix field gte lt =
     (if is_some_and gte f64_is_nan \<or> is_some_and lt f64_is_nan then []
      else if is_some_and gte (\<lambda>lower. is_some_and lt (\<lambda>upper. f64_le upper lower)) then []
      else (case map_of (numeric ix) field of None \<Rightarrow> []
        | Some vs \<Rightarrow> hs_extend [] (concat (map snd (List.filter (\<lambda>(k, ids).
            (case gte of None \<Rightarrow> True | Some lower \<Rightarrow> ordered_new lower \<le> k) \<and>
            (case lt of None \<Rightarrow> True | Some upper \<Rightarrow> k < ordered_new upper)) vs)))))"

fun retain_all :: "string list \<Rightarrow> string list list \<Rightarrow> string list" where
  "retain_all candidates [] = candidates"
| "retain_all candidates (n # ns) =
     (let kept = List.filter (\<lambda>i. i \<in> set n) candidates
      in if kept = [] then [] else retain_all kept ns)"

fun candidates :: "metadata_index \<Rightarrow> filter_expr \<Rightarrow> string list" where
  "candidates ix MatchAll = all_ids ix"
| "candidates ix (Eq field v) =
     (case from_value v of None \<Rightarrow> []
      | Some key \<Rightarrow> (case map_of (equality ix) field of None \<Rightarrow> []
          | Some m \<Rightarrow> or_default (map_of m key)))"
| "candidates ix (Range field gte lt) = index_range ix field gte lt"
| "candidates ix (And fs) =
     (case map (candidates ix) fs of [] \<Rightarrow> all_ids ix | c # cs \<Rightarrow> retain_all c cs)"
| "candidates ix (Or fs) = foldl hs_extend [] (map (candidates ix) fs)"
| "candidates ix (Neg f) = List.filter (\<lambda>i. i \<notin> set (candidates ix f)) (all_ids ix)"

section \<open>The postings\<close>

definition eq_ids :: "metadata_index \<Rightarrow> string \<Rightarrow> scalar_key \<Rightarrow> string set" where
  "eq_ids ix field k = set (or_default (map_of (or_default (map_of (equality ix) field)) k))"

definition num_ids :: "metadata_index \<Rightarrow> string \<Rightarrow> ordered_f64 \<Rightarrow> string set" where
  "num_ids ix field k = set (or_default (map_of (or_default (map_of (numeric ix) field)) k))"

definition numeric_wf :: "metadata_index \<Rightarrow> bool" where
  "numeric_wf ix \<longleftrightarrow> (\<forall>field. bt_wf (or_default (map_of (numeric ix) field)))"

definition equality_wf :: "metadata_index \<Rightarrow> bool" where
  "equality_wf ix \<longleftrightarrow>
     (\<forall>field k. distinct (or_default (map_of (or_default (map_of (equality ix) field)) k)))"

lemma or_default_simps [simp]: "or_default None = []" "or_default (Some v) = v"
  by (simp_all add: or_default_def)

lemma map_of_hm_entry: "map_of (hm_entry k g m) = (map_of m)(k \<mapsto> g (or_default (map_of m k)))"
  by (simp add: hm_entry_def update_conv')

lemma map_of_bt_entry:
  "bt_wf m \<Longrightarrow> map_of (bt_entry k g m) = (map_of m)(k \<mapsto> g (or_default (map_of m k)))"
  by (simp add: bt_entry_def map_of_bt_insert)

lemma bt_wf_entry: "bt_wf m \<Longrightarrow> bt_wf (bt_entry k g m)"
  by (simp add: bt_entry_def)

lemma index_equality_view:
  "eq_ids (index_equality i ix fv) f k =
     eq_ids ix f k \<union> {j. j = i \<and> f = fst fv \<and> from_value (snd fv) = Some k}"
  "num_ids (index_equality i ix fv) = num_ids ix"
  "numeric_wf (index_equality i ix fv) = numeric_wf ix"
  "equality_wf ix \<Longrightarrow> equality_wf (index_equality i ix fv)"
  "all_ids (index_equality i ix fv) = all_ids ix"
  by (auto simp: index_equality_def eq_ids_def num_ids_def numeric_wf_def equality_wf_def map_of_hm_entry
      fun_eq_iff split: option.splits)

lemma index_numeric_view:
  assumes "numeric_wf ix"
  shows "num_ids (index_numeric i ix fv) f k =
      num_ids ix f k \<union> {j. j = i \<and> f = fst fv \<and> map_option ordered_new (numeric_value (snd fv)) = Some k}"
    "eq_ids (index_numeric i ix fv) = eq_ids ix"
    "numeric_wf (index_numeric i ix fv)"
    "equality_wf (index_numeric i ix fv) = equality_wf ix"
    "all_ids (index_numeric i ix fv) = all_ids ix"
  using assms
  by (auto simp: index_numeric_def eq_ids_def num_ids_def numeric_wf_def equality_wf_def map_of_hm_entry
      map_of_bt_entry bt_wf_entry fun_eq_iff split: option.splits)

definition has_key :: "string \<Rightarrow> scalar_key \<Rightarrow> metadata \<Rightarrow> bool" where
  "has_key f k md \<longleftrightarrow> (\<exists>v. (f, v) \<in> set md \<and> from_value v = Some k)"

definition has_number :: "string \<Rightarrow> ordered_f64 \<Rightarrow> metadata \<Rightarrow> bool" where
  "has_number f n md \<longleftrightarrow> (\<exists>v. (f, v) \<in> set md \<and> map_option ordered_new (numeric_value v) = Some n)"

lemma index_fields_view:
  assumes "numeric_wf ix"
  shows "numeric_wf (index_fields i ix md) \<and>
    (equality_wf ix \<longrightarrow> equality_wf (index_fields i ix md)) \<and> all_ids (index_fields i ix md) = all_ids ix \<and>
    (\<forall>f k. eq_ids (index_fields i ix md) f k = eq_ids ix f k \<union> (if has_key f k md then {i} else {})) \<and>
    (\<forall>f n. num_ids (index_fields i ix md) f n = num_ids ix f n \<union> (if has_number f n md then {i} else {}))"
  using assms
proof (induction md arbitrary: ix)
  case Nil
  then show ?case by (simp add: index_fields_def has_key_def has_number_def)
next
  case (Cons fv md)
  let ?ix = "index_numeric i (index_equality i ix fv) fv"
  have wf: "numeric_wf (index_equality i ix fv)"
    using Cons.prems by (simp add: index_equality_view)
  note view = index_numeric_view [OF wf, of i fv]
  have fields: "index_fields i ix (fv # md) = index_fields i ?ix md"
    by (simp add: index_fields_def)
  have key: "has_key f k (fv # md) \<longleftrightarrow> f = fst fv \<and> from_value (snd fv) = Some k \<or> has_key f k md" for f k
    by (cases fv) (auto simp: has_key_def)
  have number: "has_number f n (fv # md) \<longleftrightarrow>
      f = fst fv \<and> map_option ordered_new (numeric_value (snd fv)) = Some n \<or> has_number f n md" for f n
    by (cases fv) (auto simp: has_number_def)
  show ?case
    unfolding fields key number using Cons.IH [OF view(3)]
    by (auto simp: view index_equality_view)
qed

definition index_view :: "metadata_index \<Rightarrow> (string \<times> metadata) set \<Rightarrow> bool" where
  "index_view ix P \<longleftrightarrow> numeric_wf ix \<and> equality_wf ix \<and> distinct (all_ids ix) \<and> set (all_ids ix) = fst ` P \<and>
     (\<forall>f k. eq_ids ix f k = fst ` {p \<in> P. has_key f k (snd p)}) \<and>
     (\<forall>f n. num_ids ix f n = fst ` {p \<in> P. has_number f n (snd p)})"

lemma index_point_view:
  assumes "index_view ix P"
  shows "index_view (index_point ix p) (insert p P)"
proof -
  let ?ix = "ix\<lparr>all_ids := List.insert (fst p) (all_ids ix)\<rparr>"
  have wf: "numeric_wf ?ix"
    using assms by (simp add: index_view_def numeric_wf_def)
  have "equality_wf ?ix"
    using assms by (simp add: index_view_def equality_wf_def)
  moreover have same: "eq_ids ?ix = eq_ids ix" "num_ids ?ix = num_ids ix"
    by (auto simp: fun_eq_iff eq_ids_def num_ids_def)
  have image: "fst ` {q \<in> insert p P. R q} = fst ` {q \<in> P. R q} \<union> (if R p then {fst p} else {})" for R
    by auto
  note view = index_fields_view [OF wf, of "fst p" "snd p", unfolded same]
  ultimately show ?thesis
    using assms view unfolding index_view_def index_point_def image by simp
qed

lemma index_build_view: "index_view (index_build ps) (set ps)"
proof -
  have "index_view (foldl index_point ix ps) (P \<union> set ps)" if "index_view ix P" for ix P
    using that
  proof (induction ps arbitrary: ix P)
    case Nil
    then show ?case by simp
  next
    case (Cons p ps)
    then show ?case
      using Cons.IH [OF index_point_view [OF Cons.prems, of p]] by simp
  qed
  moreover have "index_view \<lparr>all_ids = [], equality = [], numeric = []\<rparr> {}"
    by (simp add: index_view_def numeric_wf_def equality_wf_def eq_ids_def num_ids_def)
  ultimately show ?thesis
    unfolding index_build_def by (metis sup_bot.left_neutral)
qed

section \<open>Values and keys\<close>

lemma uint_f64_zero [simp]: "uint f64_zero = 0"
  by (simp add: f64_zero_def)

lemma f64_eq_zero: "f64_eq v f64_zero \<longleftrightarrow> uint v = 0 \<or> uint v = 9223372036854775808"
  using uint_f64_bounds [of v]
  by (auto simp: f64_eq_def fp_eq_def fp_is_nan_def num_key_def inf_bits_def sign_bits_def
      binary64_def)

text \<open>On values with one zero the numeric order is the total order.\<close>

lemma canonical_zero_key:
  "f64_key (canonical_zero v) = (if 9223372036854775808 < uint v then 9223372036854775807 - uint v
     else if uint v = 9223372036854775808 then 0 else uint v)"
  using uint_f64_bounds [of v]
  by (auto simp: canonical_zero_def f64_eq_zero f64_key_def total_key_def sign_bits_def binary64_def)

lemma num_key_binary64:
  "num_key binary64 b = (if b < 9223372036854775808 then b else 9223372036854775808 - b)"
  by (simp add: num_key_def sign_bits_def binary64_def)

lemma canonical_zero_num_key:
  "f64_key (canonical_zero a) \<le> f64_key (canonical_zero b) \<longleftrightarrow>
     num_key binary64 (uint a) \<le> num_key binary64 (uint b)"
proof -
  have "(if c < x then d - x else if x = c then 0 else x) \<le>
      (if c < y then d - y else if y = c then 0 else y) \<longleftrightarrow>
      (if x < c then x else c - x) \<le> (if y < c then y else c - y)"
    if "0 \<le> x" "0 \<le> y" "c = d + 1" for x y c d :: int
    using that by auto
  from this [of "uint a" "uint b" 9223372036854775808 9223372036854775807] show ?thesis
    unfolding canonical_zero_key num_key_binary64 by (simp split del: if_split)
qed

lemma canonical_zero_num_key_eq:
  "canonical_zero a = canonical_zero b \<longleftrightarrow> num_key binary64 (uint a) = num_key binary64 (uint b)"
  using canonical_zero_num_key [of a b] canonical_zero_num_key [of b a] f64_key_inj
  by (metis order_antisym order_refl)

lemma f64_le_canonical:
  assumes "\<not> f64_is_nan a" "\<not> f64_is_nan b"
  shows "f64_le a b \<longleftrightarrow> ordered_new a \<le> ordered_new b"
  using assms canonical_zero_num_key [of a b]
  by (simp add: f64_le_def fp_le_def f64_is_nan_def ordered_new_def less_eq_ordered_f64_def)

lemma f64_lt_canonical:
  assumes "\<not> f64_is_nan a" "\<not> f64_is_nan b"
  shows "f64_lt a b \<longleftrightarrow> ordered_new a < ordered_new b"
  using assms canonical_zero_num_key [of b a]
  by (auto simp: f64_lt_def fp_lt_def f64_is_nan_def ordered_new_def less_ordered_f64_def)

lemma f64_eq_canonical:
  assumes "\<not> f64_is_nan a" "\<not> f64_is_nan b"
  shows "f64_eq a b \<longleftrightarrow> canonical_zero a = canonical_zero b"
  using assms canonical_zero_num_key_eq [of a b]
  by (simp add: f64_eq_def fp_eq_def f64_is_nan_def)

lemma f64_cmp_nan:
  "f64_is_nan a \<Longrightarrow> \<not> f64_eq a b \<and> \<not> f64_eq b a \<and> \<not> f64_le a b \<and> \<not> f64_le b a \<and> \<not> f64_lt a b \<and> \<not> f64_lt b a"
  by (auto simp: f64_is_nan_def f64_eq_def fp_eq_def f64_le_def fp_le_def f64_lt_def fp_lt_def)

lemma value_eq_key: "value_eq w v \<longleftrightarrow> (\<exists>k. from_value w = Some k \<and> from_value v = Some k)"
  by (cases w; cases v) (auto simp: f64_eq_canonical f64_cmp_nan)

lemma round_mag_bounds:
  assumes "0 \<le> m"
  shows "0 \<le> round_mag f m e st" "round_mag f m e st \<le> inf_bits f"
proof -
  have inf: "0 \<le> inf_bits f"
    by (simp add: inf_bits_def)
  then show "0 \<le> round_mag f m e st"
    using assms by (auto simp: round_mag_def Let_def pos_imp_zdiv_nonneg_iff intro!: add_nonneg_nonneg)
  show "round_mag f m e st \<le> inf_bits f"
    using inf by (simp add: round_mag_def Let_def)
qed

lemma f64_of_int_not_nan: "\<not> f64_is_nan (f64_of_int n)"
proof -
  define r where "r = round_mag binary64 \<bar>n\<bar> 0 False"
  have r: "0 \<le> r" "r \<le> 9218868437227405312"
    using round_mag_bounds [of "\<bar>n\<bar>" binary64 0 False]
    by (simp_all add: r_def inf_bits_def binary64_def)
  have "fp_of_int binary64 n = (if n < 0 then 9223372036854775808 else 0) + r"
    by (simp add: fp_of_int_def pack_def r_def sign_bits_def binary64_def)
  moreover have "uint (word_of_int b :: f64) = b" if "0 \<le> b" "b < 18446744073709551616" for b
    using that by (simp add: uint_word_of_int)
  from this [of "(if n < 0 then 9223372036854775808 else 0) + r"]
  have "uint (word_of_int ((if n < 0 then 9223372036854775808 else 0) + r) :: f64) =
      (if n < 0 then 9223372036854775808 else 0) + r"
    using r by (simp split: if_splits)
  moreover have "((if n < 0 then 9223372036854775808 else 0) + r) mod 9223372036854775808 = r"
    using r by (auto simp: mod_add_left_eq)
  ultimately show ?thesis
    using r by (simp add: f64_is_nan_def f64_of_int_def fp_is_nan_def inf_bits_def sign_bits_def
        binary64_def split del: if_split)
qed

lemma numeric_value_not_nan: "numeric_value v = Some x \<Longrightarrow> \<not> f64_is_nan x"
proof (cases v)
  case (Integer a)
  then show "numeric_value v = Some x \<Longrightarrow> \<not> f64_is_nan x"
    by (auto simp: f64_of_int_not_nan)
qed (auto simp: f64_is_finite_def f64_is_nan_def fp_is_finite_def fp_is_nan_def split: if_splits)

section \<open>Candidates\<close>

lemma index_range_view:
  assumes "index_view ix P"
  shows "set (index_range ix field gte lt) =
    fst ` {p \<in> P. \<exists>w x. (field, w) \<in> set (snd p) \<and> numeric_value w = Some x \<and> in_range gte lt x}"
    (is "_ = fst ` {p \<in> P. ?R p}")
proof (cases "(is_some_and gte f64_is_nan \<or> is_some_and lt f64_is_nan) \<or>
    is_some_and gte (\<lambda>lower. is_some_and lt (\<lambda>upper. f64_le upper lower))")
  case True
  then have "\<not> in_range gte lt x" for x
  proof (cases gte; cases lt)
    fix lower upper
    assume some: "gte = Some lower" "lt = Some upper"
    show ?thesis
    proof
      assume "in_range gte lt x"
      then have "f64_le lower x" "f64_lt x upper"
        using some by (auto simp: in_range_def)
      then show False
        using True some by (auto simp: f64_le_def f64_lt_def fp_le_def fp_lt_def f64_is_nan_def)
    qed
  qed (use True in \<open>auto simp: in_range_def f64_cmp_nan split: option.splits\<close>)
  then have "?R p \<longleftrightarrow> False" for p by blast
  moreover have "index_range ix field gte lt = []"
    using True by (auto simp: index_range_def)
  ultimately show ?thesis by simp
next
  case False
  let ?vs = "or_default (map_of (numeric ix) field)"
  define inside where "inside k \<longleftrightarrow>
    (case gte of None \<Rightarrow> True | Some lower \<Rightarrow> ordered_new lower \<le> k) \<and>
    (case lt of None \<Rightarrow> True | Some upper \<Rightarrow> k < ordered_new upper)" for k
  have "index_range ix field gte lt =
      hs_extend [] (concat (map snd (List.filter (\<lambda>(k, ids). inside k) ?vs)))"
    using False by (auto simp: index_range_def inside_def hs_extend_def split: option.splits)
  then have "set (index_range ix field gte lt) = {i. \<exists>k ids. (k, ids) \<in> set ?vs \<and> i \<in> set ids \<and> inside k}"
    by auto blast
  also have "\<dots> = {i. \<exists>k. i \<in> num_ids ix field k \<and> inside k}"
  proof -
    have "bt_wf ?vs"
      using assms by (simp add: index_view_def numeric_wf_def)
    then have entry: "(k, ids) \<in> set ?vs \<longleftrightarrow> map_of ?vs k = Some ids" for k ids
      by (simp add: bt_wf_distinct)
    have "i \<in> num_ids ix field k \<longleftrightarrow> (\<exists>ids. (k, ids) \<in> set ?vs \<and> i \<in> set ids)" for i k
      unfolding num_ids_def entry by (cases "map_of ?vs k") auto
    then show ?thesis by blast
  qed
  also have "\<dots> = fst ` {p \<in> P. \<exists>k. has_number field k (snd p) \<and> inside k}"
    using assms by (auto simp: index_view_def)
  also have "\<dots> = fst ` {p \<in> P. ?R p}"
  proof -
    have "inside (ordered_new x) \<longleftrightarrow> in_range gte lt x" if "\<not> f64_is_nan x" for x
      using False that by (auto simp: inside_def in_range_def f64_le_canonical f64_lt_canonical
          split: option.splits)
    then have "(\<exists>k. has_number field k (snd p) \<and> inside k) \<longleftrightarrow> ?R p" for p
      by (auto simp: has_number_def dest: numeric_value_not_nan)
    then show ?thesis by simp
  qed
  finally show ?thesis .
qed

lemma retain_all_filter:
  "retain_all cs ns = List.filter (\<lambda>i. \<forall>n \<in> set ns. i \<in> set n) cs"
proof (induction ns arbitrary: cs)
  case Nil
  then show ?case by simp
next
  case (Cons n ns)
  have split: "List.filter (\<lambda>i. \<forall>m \<in> set (n # ns). i \<in> set m) cs =
      List.filter (\<lambda>i. \<forall>m \<in> set ns. i \<in> set m) (List.filter (\<lambda>i. i \<in> set n) cs)"
    by (auto intro: filter_cong)
  show ?case
    unfolding split using Cons.IH by (simp add: Let_def del: filter_filter)
qed

lemma set_foldl_hs_extend: "set (foldl hs_extend s xs) = set s \<union> \<Union> (set ` set xs)"
  by (induction xs arbitrary: s) auto

lemma distinct_foldl_hs_extend: "distinct s \<Longrightarrow> distinct (foldl hs_extend s xs)"
  by (induction xs arbitrary: s) auto

lemma candidates_distinct: "index_view ix P \<Longrightarrow> distinct (candidates ix f)"
proof (induction ix f rule: candidates.induct)
  case (2 ix field v)
  then have "distinct (or_default (map_of (or_default (map_of (equality ix) field)) k))" for k
    by (simp add: index_view_def equality_wf_def)
  then show ?case
    by (cases "map_of (equality ix) field") (auto split: option.splits)
next
  case (3 ix field gte lt)
  then show ?case by (simp add: index_range_def split: option.splits)
next
  case (4 ix fs)
  then show ?case
    by (cases fs) (auto simp: index_view_def retain_all_filter)
qed (auto simp: index_view_def distinct_foldl_hs_extend)

lemma candidates_view:
  assumes "index_view ix P" "inj_on fst P" "\<forall>p \<in> P. distinct (map fst (snd p))"
  shows "set (candidates ix f) = fst ` {p \<in> P. matches f (snd p)}"
  using assms
proof (induction ix f rule: candidates.induct)
  case (1 ix)
  then show ?case by (simp add: index_view_def)
next
  case (2 ix field v)
  have "set (candidates ix (Eq field v)) = (case from_value v of None \<Rightarrow> {} | Some k \<Rightarrow> eq_ids ix field k)"
    by (cases "map_of (equality ix) field") (simp_all add: eq_ids_def split: option.splits)
  moreover have "matches (Eq field v) (snd p) \<longleftrightarrow> (\<exists>k. has_key field k (snd p) \<and> from_value v = Some k)"
    if "p \<in> P" for p
  proof -
    have "(field, w) \<in> set (snd p) \<longleftrightarrow> map_of (snd p) field = Some w" for w
      using 2(3) that by simp
    then show ?thesis
      unfolding has_key_def by (cases "map_of (snd p) field") (auto simp: value_eq_key)
  qed
  ultimately show ?case
    using 2(1) by (cases "from_value v") (auto simp: index_view_def)
next
  case (3 ix field gte lt)
  have "matches (Range field gte lt) (snd p) \<longleftrightarrow>
      (\<exists>w x. (field, w) \<in> set (snd p) \<and> numeric_value w = Some x \<and> in_range gte lt x)" if "p \<in> P" for p
  proof -
    have "(field, w) \<in> set (snd p) \<longleftrightarrow> map_of (snd p) field = Some w" for w
      using 3(3) that by simp
    then show ?thesis
      by (cases "map_of (snd p) field") (auto split: option.splits)
  qed
  then have "{p \<in> P. matches (Range field gte lt) (snd p)} = {p \<in> P. \<exists>w x. (field, w) \<in> set (snd p) \<and>
      numeric_value w = Some x \<and> in_range gte lt x}"
    by blast
  then show ?case
    unfolding candidates.simps index_range_view [OF 3(1)] by simp
next
  case (4 ix fs)
  have *: "i \<in> set (candidates ix f) \<longleftrightarrow> (\<exists>p \<in> P. i = fst p \<and> matches f (snd p))" if "f \<in> set fs" for i f
    using 4 that by auto
  show ?case
  proof (cases fs)
    case Nil
    then show ?thesis using 4(2) by (simp add: index_view_def)
  next
    case (Cons g gs)
    then have "i \<in> set (candidates ix (And fs)) \<longleftrightarrow>
        (\<forall>f \<in> set fs. \<exists>p \<in> P. i = fst p \<and> matches f (snd p))" for i
      using * by (auto simp: retain_all_filter)
    also have "\<dots> i \<longleftrightarrow> (\<exists>p \<in> P. i = fst p \<and> (\<forall>f \<in> set fs. matches f (snd p)))" for i
    proof
      assume all: "\<forall>f \<in> set fs. \<exists>p \<in> P. i = fst p \<and> matches f (snd p)"
      then obtain p where p: "p \<in> P" "i = fst p"
        using Cons by auto
      moreover have "matches f (snd p)" if "f \<in> set fs" for f
        using all p that 4(3) by (metis inj_on_def)
      ultimately show "\<exists>p \<in> P. i = fst p \<and> (\<forall>f \<in> set fs. matches f (snd p))" by blast
    qed blast
    finally show ?thesis by (auto simp: list_all_iff)
  qed
next
  case (5 ix fs)
  then show ?case by (auto simp: set_foldl_hs_extend list_ex_iff)
next
  case (6 ix f)
  then show ?case by (auto simp: index_view_def inj_on_def)
qed

lemma candidates_build:
  assumes "distinct (map fst ps)" "list_all (\<lambda>p. bt_wf (snd p)) ps"
  shows "set (candidates (index_build ps) f) = fst ` {p \<in> set ps. matches f (snd p)} \<and>
    distinct (candidates (index_build ps) f)"
proof -
  have "inj_on fst (set ps)"
    using assms(1) by (simp add: distinct_map)
  moreover have "\<forall>p \<in> set ps. distinct (map fst (snd p))"
    using assms(2) by (auto simp: list_all_iff intro: bt_wf_distinct)
  ultimately show ?thesis
    using candidates_view [OF index_build_view] candidates_distinct [OF index_build_view] by blast
qed

text \<open>
  C6: a filter evaluated on the index selects exactly the records whose metadata match
  it, each once: the postings, the ordered numeric ranges, the early exit of
  conjunctions, both zeros and the NaN values agree with the reference evaluation of
  the filter on each record.
\<close>

theorem candidates_match:
  assumes "distinct (map fst ps)" "list_all (\<lambda>p. bt_wf (snd p)) ps"
  shows "set (candidates (index_build ps) f) = fst ` {p \<in> set ps. matches f (snd p)} \<and>
    distinct (candidates (index_build ps) f)"
  by (rule candidates_build [OF assms])

theorem candidates_match_witness:
  "\<exists>ps f. distinct (map fst ps) \<and> list_all (\<lambda>p. bt_wf (snd p)) ps \<and> length ps = 2 \<and>
    set (candidates (index_build ps) f) = {''a''}"
proof -
  let ?ps = "[(''a'', [(''x'', Float f64_neg_zero)]), (''b'', [(''x'', Integer 7)])]"
  let ?f = "And [Range ''x'' (Some f64_zero) None, Neg (Eq ''x'' (Integer 7))]"
  have ps: "distinct (map fst ?ps)" "list_all (\<lambda>p. bt_wf (snd p)) ?ps"
    by simp_all
  have "matches ?f [(''x'', Float f64_neg_zero)]" "\<not> matches ?f [(''x'', Integer 7)]"
    by code_simp+
  then have "{p \<in> set ?ps. matches ?f (snd p)} = {(''a'', [(''x'', Float f64_neg_zero)])}"
    by (auto simp del: matches.simps)
  then have "set (candidates (index_build ?ps) ?f) = {''a''}"
    using candidates_match [OF ps, of ?f] by (simp del: matches.simps candidates.simps)
  then show ?thesis
    using ps by (intro exI [of _ ?ps] exI [of _ ?f]) simp
qed

end
