(* ===== verification/Codec.thy ===== *)
theory Codec
  imports MetadataIndex
begin

text \<open>
  The byte formats shared by the write-ahead log and the segments (the encoders and
  the \<open>Decoder\<close> of \<open>src/persistence.rs\<close>): the checksum, counts, strings and metadata
  values. An encoder returns the bytes it appends; a decoder is a function on the
  \<open>Decoder\<close> state that fails or returns the value with the advanced state.
\<close>

section \<open>The checksum\<close>

definition crc_step :: "u32 \<Rightarrow> u32" where
  "crc_step crc = drop_bit 1 crc XOR (0x82f63b78 AND (0 - (crc AND 1)))"

definition crc_byte :: "u32 \<Rightarrow> u8 \<Rightarrow> u32" where
  "crc_byte crc b = (crc_step ^^ 8) (crc XOR ucast b)"

definition crc32c_update :: "u32 \<Rightarrow> bytes \<Rightarrow> u32" where
  "crc32c_update crc bs = foldl crc_byte crc bs"

definition crc32c :: "bytes \<Rightarrow> u32" where
  "crc32c bs = NOT (crc32c_update (NOT 0) bs)"

text \<open>\<open>Crc32cWriter\<close> over a sink that accepts everything it is given.\<close>

record crc_writer =
  w_inner :: bytes
  w_crc :: u32
  w_position :: nat

definition writer_new :: "bytes \<Rightarrow> crc_writer" where
  "writer_new inner = \<lparr>w_inner = inner, w_crc = NOT 0, w_position = 0\<rparr>"

definition writer_write :: "crc_writer \<Rightarrow> bytes \<Rightarrow> crc_writer" where
  "writer_write w bs = w\<lparr>w_inner := w_inner w @ bs, w_crc := crc32c_update (w_crc w) bs,
     w_position := saturating_add (w_position w) (length bs)\<rparr>"

definition writer_finish :: "crc_writer \<Rightarrow> bytes \<times> u32" where
  "writer_finish w = (w_inner w, NOT (w_crc w))"

section \<open>Encoders\<close>

definition max_items :: nat where
  "max_items = 1000000"

definition max_frame_bytes :: nat where
  "max_frame_bytes = 256 * 1024 * 1024"

definition put_count :: "nat \<Rightarrow> bytes result" where
  "put_count n = (if n < 2 ^ 32 then Inr (u32_le (of_nat n))
     else Inl (InvalidQuery ''batch is too large''))"

definition put_string :: "string \<Rightarrow> bytes result" where
  "put_string v = rbind (put_count (length v)) (\<lambda>n. Inr (n @ as_bytes v))"

fun encode_value :: "meta_value \<Rightarrow> bytes result" where
  "encode_value (Keyword v) = rbind (put_string v) (\<lambda>s. Inr (1 # s))"
| "encode_value (Integer v) = Inr (2 # u64_le v)"
| "encode_value (Float v) =
     (if f64_is_finite v then Inr (3 # u64_le v)
      else Inl (InvalidQuery ''metadata floats must be finite''))"
| "encode_value (Boolean v) = Inr [4, if v then 1 else 0]"

text \<open>A loop that appends the encodings of the elements of a sequence.\<close>

definition put_all :: "('a \<Rightarrow> bytes result) \<Rightarrow> 'a list \<Rightarrow> bytes result" where
  "put_all enc xs = rbind (try_map enc xs) (\<lambda>bs. Inr (concat bs))"

section \<open>The decoder\<close>

record decoder =
  d_bytes :: bytes
  d_position :: nat

type_synonym 'a decode = "decoder \<Rightarrow> ('a \<times> decoder) result"

definition decoder_new :: "bytes \<Rightarrow> decoder" where
  "decoder_new bs = \<lparr>d_bytes = bs, d_position = 0\<rparr>"

definition dbind :: "'a decode \<Rightarrow> ('a \<Rightarrow> 'b decode) \<Rightarrow> 'b decode" where
  "dbind p f d = rbind (p d) (\<lambda>(x, d'). f x d')"

definition dreturn :: "'a \<Rightarrow> 'a decode" where
  "dreturn x d = Inr (x, d)"

definition dfail :: "error \<Rightarrow> 'a decode" where
  "dfail e d = Inl e"

definition decoder_take :: "nat \<Rightarrow> bytes decode" where
  "decoder_take len d =
     rbind (ok_or (checked_add_usize (d_position d) len) (CorruptStorage ''WAL length overflow''))
       (\<lambda>stop. if stop \<le> length (d_bytes d)
         then Inr (take len (drop (d_position d) (d_bytes d)), d\<lparr>d_position := stop\<rparr>)
         else Inl (CorruptStorage ''truncated WAL payload''))"

definition decoder_byte :: "u8 decode" where
  "decoder_byte = dbind (decoder_take 1) (\<lambda>bs. dreturn (hd bs))"

definition decoder_u32 :: "u32 decode" where
  "decoder_u32 = dbind (decoder_take 4) (\<lambda>bs. dreturn (le_u32 bs))"

definition decoder_u64 :: "u64 decode" where
  "decoder_u64 = dbind (decoder_take 8) (\<lambda>bs. dreturn (le_u64 bs))"

definition decoder_f32 :: "f32 decode" where
  "decoder_f32 = dbind (decoder_take 4) (\<lambda>bs.
     if f32_is_finite (le_u32 bs) then dreturn (le_u32 bs)
     else dfail (CorruptStorage ''non-finite vector component''))"

definition decoder_count :: "nat decode" where
  "decoder_count = dbind decoder_u32 (\<lambda>c.
     if unat c > max_items then dfail (CorruptStorage ''WAL item count exceeds limit'')
     else dreturn (unat c))"

definition decoder_string :: "string decode" where
  "decoder_string = dbind decoder_count (\<lambda>len.
     dbind (decoder_take len) (\<lambda>bs.
     case from_utf8 bs of None \<Rightarrow> dfail (CorruptStorage ''WAL contains invalid UTF-8'')
     | Some s \<Rightarrow> dreturn s))"

definition decoder_value :: "meta_value decode" where
  "decoder_value = dbind decoder_byte (\<lambda>tag.
     if tag = 1 then dbind decoder_string (\<lambda>s. dreturn (Keyword s))
     else if tag = 2 then dbind (decoder_take 8) (\<lambda>bs. dreturn (Integer (le_u64 bs)))
     else if tag = 3 then dbind (decoder_take 8) (\<lambda>bs.
       if f64_is_finite (le_u64 bs) then dreturn (Float (le_u64 bs))
       else dfail (CorruptStorage ''non-finite metadata float''))
     else if tag = 4 then dbind decoder_byte (\<lambda>b.
       if b = 0 then dreturn (Boolean False)
       else if b = 1 then dreturn (Boolean True)
       else dfail (CorruptStorage ''invalid boolean encoding''))
     else dfail (CorruptStorage (''unknown metadata value tag '' @ decimal (unat tag))))"

definition decoder_finish :: "decoder \<Rightarrow> unit result" where
  "decoder_finish d = (if d_position d = length (d_bytes d) then Inr ()
     else Inl (CorruptStorage ''trailing bytes in WAL payload''))"

text \<open>The loop \<open>for _ in 0..count { items.push(item()?) }\<close>.\<close>

primrec decode_n :: "nat \<Rightarrow> 'a decode \<Rightarrow> 'a list decode" where
  "decode_n 0 p = dreturn []"
| "decode_n (Suc n) p = dbind p (\<lambda>x. dbind (decode_n n p) (\<lambda>xs. dreturn (x # xs)))"

section \<open>The collection metadata file\<close>

definition meta_magic :: bytes where
  "meta_magic = as_bytes ''FVMT''"

definition format_version :: u8 where
  "format_version = 1"

fun metric_tag :: "metric \<Rightarrow> u8" where
  "metric_tag Cosine = 1"
| "metric_tag DotProduct = 2"
| "metric_tag Euclidean = 3"

definition parse_metric :: "u8 \<Rightarrow> metric result" where
  "parse_metric tag =
     (if tag = 1 then Inr Cosine else if tag = 2 then Inr DotProduct else if tag = 3 then Inr Euclidean
      else Inl (CorruptStorage (''unknown metric tag '' @ decimal (unat tag))))"

definition encode_metadata :: "collection_config \<Rightarrow> bytes" where
  "encode_metadata cfg =
     (let bs = meta_magic @ [format_version, metric_tag (config_metric cfg)] @
        u64_le (of_nat (dimension cfg))
      in bs @ u32_le (crc32c bs))"

definition decode_metadata :: "bytes \<Rightarrow> collection_config result" where
  "decode_metadata bs =
     (if length bs \<noteq> 18 \<or> take 4 bs \<noteq> meta_magic \<or> bs ! 4 \<noteq> format_version
      then Inl (CorruptStorage ''invalid collection metadata header'')
      else if crc32c (take 14 bs) \<noteq> le_u32 (drop 14 bs)
      then Inl (CorruptStorage ''collection metadata checksum mismatch'')
      else rbind (parse_metric (bs ! 5)) (\<lambda>m.
        let dim = unat (le_u64 (take 8 (drop 6 bs))) in
        if dim = 0 then Inl (CorruptStorage ''collection dimension must be non-zero'')
        else Inr \<lparr>dimension = dim, config_metric = m\<rparr>))"

section \<open>The checksum detects damage\<close>

lemma crc32c_update_append: "crc32c_update c (xs @ ys) = crc32c_update (crc32c_update c xs) ys"
  by (simp add: crc32c_update_def)

lemma crc_step_bit:
  "bit (crc_step c) n \<longleftrightarrow> n < 32 \<and> (bit c (Suc n) \<noteq> (bit (0x82f63b78 :: u32) n \<and> bit c 0))"
proof -
  have "0 - (c AND 1) = (if bit c 0 then - 1 else 0)"
    by (simp add: and_one_eq bit_0 mod2_eq_if)
  then show ?thesis
    by (auto simp: crc_step_def bit_simps bit_0 dest: bit_imp_le_length)
qed

lemma crc_step_inj: "crc_step a = crc_step b \<Longrightarrow> a = b"
proof -
  assume eq: "crc_step a = crc_step b"
  have top: "\<not> bit c 32" "bit (0x82f63b78 :: u32) 31" for c :: u32
    by (auto dest: bit_imp_le_length simp: bit_numeral_rec)
  have "bit (crc_step c) 31 \<longleftrightarrow> bit c 0" for c
    using top by (simp add: crc_step_bit)
  then have low: "bit a 0 \<longleftrightarrow> bit b 0"
    using eq by metis
  have "bit a (Suc n) \<longleftrightarrow> bit b (Suc n)" if "n < 32" for n
    using crc_step_bit [of a n] crc_step_bit [of b n] that eq low by auto
  then have "bit a n \<longleftrightarrow> bit b n" if "n < 32" for n
    using that low by (cases n) auto
  then show "a = b"
    by (intro bit_word_eqI) simp
qed

lemma crc_steps_inj: "(crc_step ^^ n) a = (crc_step ^^ n) b \<longleftrightarrow> a = b"
  by (induction n) (auto dest: crc_step_inj)

lemma xor_word_cancel: "(a :: 'a::len word) XOR c = b XOR c \<longleftrightarrow> a = b"
  by (metis xor.assoc xor.right_neutral xor_self_eq)

lemma ucast_u8_inj: "(ucast (x :: u8) :: u32) = ucast y \<longleftrightarrow> x = y"
proof
  assume eq: "(ucast x :: u32) = ucast y"
  have "bit (ucast z :: u32) n \<longleftrightarrow> bit z n" if "n < 8" for z :: u8 and n
    using that by (simp add: bit_simps)
  then have "bit x n \<longleftrightarrow> bit y n" if "n < 8" for n
    using eq that by metis
  then show "x = y"
    by (intro bit_word_eqI) simp
qed simp

lemma crc_byte_state: "crc_byte a x = crc_byte b x \<longleftrightarrow> a = b"
  by (simp add: crc_byte_def crc_steps_inj xor_word_cancel)

lemma crc_byte_data: "crc_byte a x = crc_byte a y \<longleftrightarrow> x = y"
  by (simp add: crc_byte_def crc_steps_inj xor.commute [of a] xor_word_cancel ucast_u8_inj)

lemma crc_update_state: "crc32c_update a xs = crc32c_update b xs \<longleftrightarrow> a = b"
  unfolding crc32c_update_def by (induction xs arbitrary: a b) (auto simp: crc_byte_state)

lemma writer_invariant:
  "writer_finish (foldl writer_write (writer_new []) bss) = (concat bss, crc32c (concat bss))"
proof -
  have "w_inner (foldl writer_write w bss) = w_inner w @ concat bss \<and>
      w_crc (foldl writer_write w bss) = crc32c_update (w_crc w) (concat bss)" for w
    by (induction bss arbitrary: w)
      (auto simp: writer_write_def crc32c_update_append crc32c_update_def)
  then show ?thesis
    by (simp add: writer_finish_def writer_new_def crc32c_def crc32c_update_def)
qed

section \<open>Decoding what was encoded\<close>

text \<open>
  A decoder reads \<open>xs\<close> as \<open>v\<close>: wherever \<open>xs\<close> stands next in the input, it succeeds with
  \<open>v\<close> and stops right behind it.
\<close>

definition at_bytes :: "decoder \<Rightarrow> bytes \<Rightarrow> bool" where
  "at_bytes d xs \<longleftrightarrow> d_position d \<le> length (d_bytes d) \<and> length (d_bytes d) \<le> usize_max \<and>
     prefix xs (drop (d_position d) (d_bytes d))"

definition decodes :: "'a decode \<Rightarrow> bytes \<Rightarrow> 'a \<Rightarrow> bool" where
  "decodes p xs v \<longleftrightarrow> (\<forall>d. at_bytes d xs \<longrightarrow>
     p d = Inr (v, d\<lparr>d_position := d_position d + length xs\<rparr>))"

lemma at_bytes_append:
  "at_bytes d (xs @ ys) \<longleftrightarrow> at_bytes d xs \<and> at_bytes (d\<lparr>d_position := d_position d + length xs\<rparr>) ys"
proof -
  have "prefix (xs @ ys) zs \<longleftrightarrow> prefix xs zs \<and> prefix ys (drop (length xs) zs)" for zs :: bytes
    by (auto simp: prefix_def)
  moreover have "prefix xs (drop (d_position d) (d_bytes d)) \<Longrightarrow> d_position d \<le> length (d_bytes d) \<Longrightarrow>
      d_position d + length xs \<le> length (d_bytes d)"
    using prefix_length_le by fastforce
  ultimately show ?thesis
    by (auto simp: at_bytes_def add.commute)
qed

lemma decodes_dreturn [roundtrip]: "decodes (dreturn v) [] v"
  by (simp add: decodes_def dreturn_def)

lemma decodes_dbind:
  assumes "decodes p xs x" "decodes (f x) ys y"
  shows "decodes (dbind p f) (xs @ ys) y"
  using assms by (auto simp: decodes_def dbind_def at_bytes_append add.assoc)

lemma decodes_map:
  assumes "decodes p xs x" "f x = dreturn y"
  shows "decodes (dbind p f) xs y"
  using decodes_dbind [OF assms(1), of f "[]" y] assms(2) decodes_dreturn [of y] by simp

lemma decodes_take [roundtrip]: "length xs = n \<Longrightarrow> decodes (decoder_take n) xs xs"
proof -
  assume n: "length xs = n"
  have "d_position d + length xs \<le> length (d_bytes d)" if "at_bytes d xs" for d
    using at_bytes_append [of d xs "[]"] that by (auto simp: at_bytes_def)
  moreover have "take (length xs) (drop (d_position d) (d_bytes d)) = xs" if "at_bytes d xs" for d
    using that by (auto simp: at_bytes_def prefix_def)
  moreover have "length (d_bytes d) \<le> usize_max" if "at_bytes d xs" for d
    using that by (simp add: at_bytes_def)
  ultimately show ?thesis
    using n unfolding decodes_def decoder_take_def checked_add_usize_def
    by (auto dest: order_trans)
qed

lemma decodes_byte [roundtrip]: "decodes decoder_byte [b] b"
  unfolding decoder_byte_def by (rule decodes_map [OF decodes_take]) simp_all

lemma decodes_u32 [roundtrip]: "decodes decoder_u32 (u32_le w) w"
  unfolding decoder_u32_def by (rule decodes_map [OF decodes_take]) simp_all

lemma decodes_u64 [roundtrip]: "decodes decoder_u64 (u64_le w) w"
  unfolding decoder_u64_def by (rule decodes_map [OF decodes_take]) simp_all

lemma decodes_f32 [roundtrip]: "f32_is_finite w \<Longrightarrow> decodes decoder_f32 (u32_le w) w"
  unfolding decoder_f32_def by (rule decodes_map [OF decodes_take]) simp_all

lemma unat_count: "n \<le> max_items \<Longrightarrow> unat (of_nat n :: u32) = n"
  by (simp add: max_items_def unat_of_nat)

lemma decodes_count [roundtrip]: "n \<le> max_items \<Longrightarrow> decodes decoder_count (u32_le (of_nat n)) n"
  unfolding decoder_count_def by (rule decodes_map [OF decodes_u32]) (simp add: unat_count)

lemma decodes_n:
  assumes "list_all2 (decodes p) xss vs"
  shows "decodes (decode_n (length vs) p) (concat xss) vs"
  using assms
proof (induction rule: list_all2_induct)
  case Nil
  then show ?case by (simp add: decodes_dreturn)
next
  case (Cons xs xss v vs)
  have "decodes (dbind (decode_n (length vs) p) (\<lambda>vs. dreturn (v # vs))) (concat xss) (v # vs)"
    by (rule decodes_map [OF Cons.IH]) simp
  then show ?case
    using decodes_dbind [OF Cons.hyps(1)] by simp
qed

text \<open>
  A codec: an encoder and the decoder that reads the output for \<open>x\<close> back as \<open>val x\<close>, on
  the values that satisfy \<open>ok\<close>. Sequences of such values then round-trip too, with and
  without their count in front.
\<close>

locale codec =
  fixes enc :: "'a \<Rightarrow> bytes result"
    and dec :: "'b decode"
    and ok :: "'a \<Rightarrow> bool"
    and val :: "'a \<Rightarrow> 'b"
  assumes round_trip: "enc x = Inr bs \<Longrightarrow> ok x \<Longrightarrow> decodes dec bs (val x)"
begin

lemma list_round_trip:
  assumes "put_all enc xs = Inr bs" "list_all ok xs"
  shows "decodes (decode_n (length xs) dec) bs (map val xs)"
proof -
  obtain bss where bss: "list_all2 (\<lambda>x b. enc x = Inr b) xs bss" "bs = concat bss"
    using assms(1) by (auto simp: put_all_def rbind_eq_Inr try_map_eq_Inr)
  have "list_all2 (decodes dec) bss (map val xs)"
    using bss(1) assms(2)
    by (auto simp: list_all2_conv_all_nth list_all_length intro: round_trip)
  from decodes_n [OF this] show ?thesis
    unfolding bss(2) by simp
qed

lemma counted_round_trip:
  assumes "put_count (length xs) = Inr n" "put_all enc xs = Inr bs"
    and "list_all ok xs" "length xs \<le> max_items"
  shows "decodes (dbind decoder_count (\<lambda>n. decode_n n dec)) (n @ bs) (map val xs)"
proof -
  have "n = u32_le (of_nat (length xs))"
    using assms(1) by (auto simp: put_count_def split: if_splits)
  then show ?thesis
    using decodes_dbind [OF decodes_count [OF assms(4)], of "\<lambda>n. decode_n n dec" bs "map val xs"]
      list_round_trip [OF assms(2,3)] by simp
qed

end

definition string_ok :: "string \<Rightarrow> bool" where
  "string_ok s \<longleftrightarrow> is_string s \<and> length s \<le> max_items"

fun value_ok :: "meta_value \<Rightarrow> bool" where
  "value_ok (Keyword s) = string_ok s"
| "value_ok _ = True"

lemma put_string_Inr:
  "put_string s = Inr bs \<longleftrightarrow> length s < 2 ^ 32 \<and> bs = u32_le (of_nat (length s)) @ as_bytes s"
  by (auto simp: put_string_def put_count_def)

interpretation string_codec: codec put_string decoder_string string_ok "\<lambda>x. x"
proof
  fix s bs
  assume enc: "put_string s = Inr bs" and ok: "string_ok s"
  have "decodes (dbind (decoder_take (length s)) (\<lambda>bs. case from_utf8 bs of
      None \<Rightarrow> dfail (CorruptStorage ''WAL contains invalid UTF-8'') | Some s \<Rightarrow> dreturn s)) (as_bytes s) s"
    using ok by (intro decodes_map [OF decodes_take]) (simp_all add: from_utf8_as_bytes string_ok_def)
  then show "decodes decoder_string bs s"
    using enc ok unfolding decoder_string_def put_string_Inr string_ok_def
    by (auto intro: decodes_dbind decodes_count)
qed

lemma decodes_tag:
  assumes "decodes (f t) xs v"
  shows "decodes (dbind decoder_byte f) (t # xs) v"
  using decodes_dbind [OF decodes_byte, of f t xs v] assms by simp

interpretation value_codec: codec encode_value decoder_value value_ok "\<lambda>x. x"
proof
  fix v bs
  assume enc: "encode_value v = Inr bs" and ok: "value_ok v"
  show "decodes decoder_value bs v"
  proof (cases v)
    case (Keyword s)
    then obtain b where b: "put_string s = Inr b" "bs = 1 # b"
      using enc by (auto simp: rbind_eq_Inr)
    then have "decodes decoder_string b s"
      using ok Keyword by (intro string_codec.round_trip) auto
    then have "decodes (dbind decoder_string (\<lambda>s. dreturn (meta_value.Keyword s))) b v"
      using Keyword by (auto intro: decodes_map)
    then show ?thesis
      unfolding decoder_value_def b(2) by (intro decodes_tag) simp
  next
    case (Integer i)
    then have "decodes (dbind (decoder_take 8) (\<lambda>bs. dreturn (meta_value.Integer (le_u64 bs)))) (u64_le i) v"
      by (intro decodes_map [OF decodes_take]) simp_all
    then show ?thesis
      using enc Integer unfolding decoder_value_def by (auto intro!: decodes_tag)
  next
    case (Float x)
    then have "f64_is_finite x" "bs = 3 # u64_le x"
      using enc by (auto split: if_splits)
    then show ?thesis
      using Float unfolding decoder_value_def
      by (auto intro!: decodes_tag decodes_map [OF decodes_take])
  next
    case (Boolean b)
    then show ?thesis
      using enc unfolding decoder_value_def
      by (auto intro!: decodes_tag decodes_map [OF decodes_byte])
  qed
qed

interpretation f32_codec: codec "\<lambda>v. Inr (u32_le v)" decoder_f32 f32_is_finite "\<lambda>x. x"
  by unfold_locales (auto intro: decodes_f32)

text \<open>A decoder run from a position of a whole input, and from its start.\<close>

lemma decodes_at:
  assumes "decodes p xs v" "d_bytes d = pre @ xs @ post" "d_position d = length pre"
    and "length (d_bytes d) \<le> usize_max"
  shows "p d = Inr (v, d\<lparr>d_position := length pre + length xs\<rparr>)"
proof -
  have "at_bytes d xs"
    using assms(2-4) by (auto simp: at_bytes_def prefix_def)
  then show ?thesis
    using assms(1,3) by (simp add: decodes_def)
qed

section \<open>The metadata file round-trips and detects damage\<close>

lemma length_meta_magic [simp]: "length meta_magic = 4"
  by (simp add: meta_magic_def)

lemma parse_metric_tag [simp]: "parse_metric (metric_tag m) = Inr m"
  by (cases m) (simp_all add: parse_metric_def)

lemma length_encode_metadata [simp]: "length (encode_metadata cfg) = 18"
  by (simp add: encode_metadata_def Let_def)

lemma encode_metadata_metric: "encode_metadata cfg ! 5 = metric_tag (config_metric cfg)"
  by (simp add: encode_metadata_def Let_def nth_append)

lemma decode_encode_metadata:
  defines "dim \<equiv> \<lambda>cfg. unat (of_nat (dimension cfg) :: u64)"
  shows "decode_metadata (encode_metadata cfg) =
    (if dim cfg = 0 then Inl (CorruptStorage ''collection dimension must be non-zero'')
     else Inr \<lparr>dimension = dim cfg, config_metric = config_metric cfg\<rparr>)"
proof -
  define head where "head = meta_magic @ [format_version, metric_tag (config_metric cfg)] @
    u64_le (of_nat (dimension cfg))"
  have enc: "encode_metadata cfg = head @ u32_le (crc32c head)"
    by (simp add: encode_metadata_def head_def Let_def)
  have len: "length head = 14"
    by (simp add: head_def)
  have "take 4 (encode_metadata cfg) = meta_magic" "encode_metadata cfg ! 4 = format_version"
    "encode_metadata cfg ! 5 = metric_tag (config_metric cfg)"
    by (simp_all add: enc head_def nth_append)
  moreover have "take 14 (encode_metadata cfg) = head" "drop 14 (encode_metadata cfg) = u32_le (crc32c head)"
    using len by (simp_all add: enc)
  moreover have "take 8 (drop 6 (encode_metadata cfg)) = u64_le (of_nat (dimension cfg))"
    by (simp add: enc head_def)
  ultimately show ?thesis
    by (simp add: decode_metadata_def Let_def dim_def)
qed

lemma decode_own_metadata:
  assumes "0 < dimension cfg" "dimension cfg < 2 ^ 64"
  shows "decode_metadata (encode_metadata cfg) = Inr cfg"
  using assms by (simp add: decode_encode_metadata unat_of_nat)

text \<open>
  C10: the metadata file written for a collection is read back as the same
  configuration.
\<close>

theorem metadata_round_trip:
  assumes "0 < dimension cfg" "dimension cfg < 2 ^ 64"
  shows "decode_metadata (encode_metadata cfg) = Inr cfg"
  using assms by (rule decode_own_metadata)

lemma crc32c_one_byte:
  assumes "length xs = length ys" "i < length xs" "xs ! i \<noteq> ys ! i"
    and "\<And>j. j < length xs \<Longrightarrow> j \<noteq> i \<Longrightarrow> xs ! j = ys ! j"
  shows "crc32c xs \<noteq> crc32c ys"
proof -
  have "take i xs = take i ys" "drop (Suc i) xs = drop (Suc i) ys"
    using assms by (auto intro!: nth_equalityI)
  moreover have "xs = take i xs @ [xs ! i] @ drop (Suc i) xs" "ys = take i ys @ [ys ! i] @ drop (Suc i) ys"
    using assms(1,2) by (simp_all add: id_take_nth_drop)
  ultimately obtain us vs where xs: "xs = us @ [xs ! i] @ vs" and ys: "ys = us @ [ys ! i] @ vs"
    by metis
  have "crc32c_update (NOT 0) (us @ [x] @ vs) = crc32c_update (crc_byte (crc32c_update (NOT 0) us) x) vs" for x
    by (simp add: crc32c_update_def)
  then have "crc32c_update (NOT 0) (us @ [xs ! i] @ vs) \<noteq> crc32c_update (NOT 0) (us @ [ys ! i] @ vs)"
    using assms(3) by (simp only: crc_update_state crc_byte_data simp_thms)
  then have "crc32c_update (NOT 0) xs \<noteq> crc32c_update (NOT 0) ys"
    by (subst xs, subst ys)
  then show ?thesis
    by (simp only: crc32c_def bit.compl_eq_compl_iff simp_thms)
qed

lemma encode_metadata_crc:
  "crc32c (take 14 (encode_metadata cfg)) = le_u32 (drop 14 (encode_metadata cfg))"
proof -
  have "crc32c (take 14 (head @ u32_le (crc32c head))) = le_u32 (drop 14 (head @ u32_le (crc32c head)))"
    if "length head = 14" for head
    using that by simp
  then show ?thesis
    by (simp add: encode_metadata_def Let_def)
qed

lemma decode_metadata_crc:
  "crc32c (take 14 bs) \<noteq> le_u32 (drop 14 bs) \<Longrightarrow> \<exists>msg. decode_metadata bs = Inl (CorruptStorage msg)"
  by (simp add: decode_metadata_def)

text \<open>Bytes followed by their checksum: any change of one byte breaks the equation.\<close>

lemma crc_trailer_damage:
  assumes crc: "crc32c (take n bs) = le_u32 (drop n bs)" and len: "length bs = n + 4"
    and i: "i < length bs" "b \<noteq> bs ! i"
  shows "crc32c (take n (bs[i := b])) \<noteq> le_u32 (drop n (bs[i := b]))"
proof (cases "i < n")
  case True
  have "crc32c (take n (bs[i := b])) \<noteq> crc32c (take n bs)"
  proof (rule crc32c_one_byte)
    show "i < length (take n (bs[i := b]))" "take n (bs[i := b]) ! i \<noteq> take n bs ! i"
      using True i len by simp_all
  qed (use len in simp_all)
  then show ?thesis
    using True crc by (simp add: drop_update_cancel)
next
  case False
  have "take n (bs[i := b]) = take n bs"
    using False by simp
  moreover have "drop n (bs[i := b]) \<noteq> drop n bs"
  proof
    assume "drop n (bs[i := b]) = drop n bs"
    then have "drop n (bs[i := b]) ! (i - n) = drop n bs ! (i - n)" by simp
    then show False using False i by simp
  qed
  then have "le_u32 (drop n (bs[i := b])) \<noteq> le_u32 (drop n bs)"
    using u32_le_u32 [of "drop n (bs[i := b])"] u32_le_u32 [of "drop n bs"] len by fastforce
  ultimately show ?thesis
    using crc by simp
qed

text \<open>
  C11: damage to one byte of the metadata file, wherever it is, never yields a
  configuration: the file is refused.
\<close>

theorem metadata_damage_detected:
  assumes "i < 18" "b \<noteq> encode_metadata cfg ! i"
  shows "\<exists>msg. decode_metadata ((encode_metadata cfg)[i := b]) = Inl (CorruptStorage msg)"
  by (rule decode_metadata_crc, rule crc_trailer_damage) (use assms encode_metadata_crc in simp_all)

theorem metadata_round_trip_witness:
  "decode_metadata (encode_metadata \<lparr>dimension = 3, config_metric = Cosine\<rparr>) =
     Inr \<lparr>dimension = 3, config_metric = Cosine\<rparr>"
  by (rule metadata_round_trip) simp_all

theorem metadata_damage_detected_witness:
  "\<exists>msg. decode_metadata ((encode_metadata \<lparr>dimension = 3, config_metric = Cosine\<rparr>)[5 := 2]) =
     Inl (CorruptStorage msg)"
  by (rule metadata_damage_detected) (simp_all add: encode_metadata_metric)

end
