(* ===== verification/Wal.thy ===== *)
theory Wal
  imports Codec
begin

text \<open>
  The write-ahead log of \<open>src/persistence.rs\<close>: the payloads of the two operations, the
  frames around them, what an append leaves in the file, and the recovery that
  replays a log and cuts off a torn suffix.
\<close>

section \<open>Payloads\<close>

definition encode_field :: "string \<times> meta_value \<Rightarrow> bytes result" where
  "encode_field kv = rbind (put_string (fst kv)) (\<lambda>k. rbind (encode_value (snd kv)) (\<lambda>v. Inr (k @ v)))"

definition encode_point :: "stored_point \<Rightarrow> bytes result" where
  "encode_point p =
     rbind (put_string (sp_id p)) (\<lambda>i.
     rbind (put_count (length (as_slice (sp_vector p)))) (\<lambda>n.
     rbind (put_count (length (sp_metadata p))) (\<lambda>m.
     rbind (put_all encode_field (sp_metadata p)) (\<lambda>fs.
     Inr (i @ n @ f32s_le (as_slice (sp_vector p)) @ m @ fs)))))"

definition encode_upsert :: "u64 \<Rightarrow> stored_point list \<Rightarrow> bytes result" where
  "encode_upsert seq ps =
     rbind (put_count (length ps)) (\<lambda>n.
     rbind (put_all encode_point ps) (\<lambda>bs.
     Inr ([1] @ u64_le seq @ n @ bs)))"

definition encode_delete :: "u64 \<Rightarrow> string list \<Rightarrow> bytes result" where
  "encode_delete seq ids =
     rbind (put_count (length ids)) (\<lambda>n.
     rbind (put_all put_string ids) (\<lambda>bs.
     Inr ([2] @ u64_le seq @ n @ bs)))"

definition decoder_field :: "(string \<times> meta_value) decode" where
  "decoder_field = dbind decoder_string (\<lambda>k. dbind decoder_value (\<lambda>v. dreturn (k, v)))"

definition decoder_metadata :: "metadata decode" where
  "decoder_metadata = dbind decoder_count (\<lambda>n. dbind (decode_n n decoder_field) (\<lambda>kvs.
     dreturn (foldl (\<lambda>m (k, v). bt_insert k v m) [] kvs)))"

definition decoder_point :: "nat \<Rightarrow> upsert_point decode" where
  "decoder_point dim = dbind decoder_string (\<lambda>i. dbind decoder_count (\<lambda>n.
     if n \<noteq> dim then dfail (CorruptStorage (''stored vector dimension '' @ decimal n @
       '' differs from collection dimension '' @ decimal dim))
     else dbind (decode_n n decoder_f32) (\<lambda>v. dbind decoder_metadata (\<lambda>m.
       dreturn \<lparr>up_id = i, up_vector = v, up_metadata = m\<rparr>))))"

definition apply_payload :: "collection \<Rightarrow> bytes \<Rightarrow> (string list \<times> collection) result" where
  "apply_payload c payload =
     rbind (decoder_byte (decoder_new payload)) (\<lambda>(operation, d).
     rbind (decoder_u64 d) (\<lambda>(seq, d).
     if seq \<le> sequence c then Inr ([], c)
     else rbind (ok_or (checked_add_u64 (sequence c) 1) SequenceOverflow) (\<lambda>expected.
     if seq \<noteq> expected then Inl (CorruptStorage (''non-consecutive WAL sequence: expected '' @
       decimal (unat expected) @ '', got '' @ decimal (unat seq)))
     else if operation = 1 then
       rbind (decoder_count d) (\<lambda>(n, d).
       rbind (decode_n n (decoder_point (dimension (config c))) d) (\<lambda>(ps, d).
       rbind (decoder_finish d) (\<lambda>_.
       rbind (prepare_upsert c ps seq) (\<lambda>prepared.
       Inr (map up_id ps, apply_prepared_upsert c prepared seq)))))
     else if operation = 2 then
       rbind (decoder_count d) (\<lambda>(n, d).
       if n = 0 then Inl (CorruptStorage ''empty delete WAL record'')
       else rbind (decode_n n decoder_string d) (\<lambda>(ids, d).
       rbind (decoder_finish d) (\<lambda>_.
       Inr (ids, apply_delete_at c ids seq))))
     else Inl (CorruptStorage (''unknown WAL operation '' @ decimal (unat operation))))))"

section \<open>Frames\<close>

definition wal_magic :: bytes where
  "wal_magic = as_bytes ''FVWL''"

definition frame :: "bytes \<Rightarrow> bytes" where
  "frame payload = wal_magic @ u32_le (of_nat (length payload)) @ payload @ u32_le (crc32c payload)"

text \<open>
  What the file system did with the writes of one append: everything reached the file
  and the sync, or an error after \<open>n\<close> bytes, and then whether cutting the file back
  worked.
\<close>

datatype append_io = Appended | AppendFailed nat bool string

definition append_frame :: "bytes \<Rightarrow> bytes \<Rightarrow> append_io \<Rightarrow> bytes \<times> unit result" where
  "append_frame wal payload io =
     (if \<not> length payload < 2 ^ 32 then (wal, Inl (InvalidQuery ''WAL record is too large''))
      else (case io of Appended \<Rightarrow> (wal @ frame payload, Inr ())
        | AppendFailed n truncated msg \<Rightarrow>
            (if truncated then wal else wal @ take n (frame payload), Inl (Io msg))))"

section \<open>Recovery\<close>

datatype read_state = Complete | Eof | Truncated

text \<open>The outcome, the bytes read and the new position, on a file that reads without errors.\<close>

definition read_exact_or_eof :: "bytes \<Rightarrow> nat \<Rightarrow> nat \<Rightarrow> read_state \<times> bytes \<times> nat" where
  "read_exact_or_eof file pos len =
     (let got = take len (drop pos file) in
      (if length got = len then Complete else if got = [] then Eof else Truncated,
       got, pos + length got))"

function recover_loop ::
    "bytes \<Rightarrow> nat \<Rightarrow> nat \<Rightarrow> collection \<Rightarrow> string list \<Rightarrow> (bytes \<times> collection \<times> string list) result" where
  "recover_loop wal pos valid_length c dirty =
     (case read_exact_or_eof wal pos 8 of
        (Eof, _, _) \<Rightarrow> Inr (wal, c, dirty)
      | (Truncated, _, _) \<Rightarrow> Inr (take valid_length wal, c, dirty)
      | (Complete, header, pos1) \<Rightarrow>
          if take 4 header \<noteq> wal_magic
          then Inl (CorruptStorage (''invalid WAL magic at byte '' @ decimal pos))
          else let len = unat (le_u32 (drop 4 header)) in
          if len > max_frame_bytes
          then Inl (CorruptStorage (''WAL frame at byte '' @ decimal pos @ '' exceeds the size limit''))
          else (case read_exact_or_eof wal pos1 (len + 4) of
            (Complete, fr, pos2) \<Rightarrow>
              if crc32c (take len fr) \<noteq> le_u32 (drop len fr)
              then Inl (CorruptStorage (''WAL checksum mismatch at byte '' @ decimal pos))
              else (case apply_payload c (take len fr) of Inl e \<Rightarrow> Inl e
                | Inr (ids, c') \<Rightarrow> recover_loop wal pos2 pos2 c' (hs_extend dirty ids))
          | _ \<Rightarrow> Inr (take valid_length wal, c, dirty)))"
  by pat_completeness auto
termination
  by (relation "measure (\<lambda>(wal, pos, _). length wal - pos)")
    (auto simp: read_exact_or_eof_def Let_def split: if_splits)

declare recover_loop.simps [simp del]

definition recover :: "bytes \<Rightarrow> collection \<Rightarrow> (bytes \<times> collection \<times> string list) result" where
  "recover wal c = recover_loop wal 0 0 c []"

section \<open>Payloads are read back\<close>

definition field_ok :: "string \<times> meta_value \<Rightarrow> bool" where
  "field_ok kv \<longleftrightarrow> string_ok (fst kv) \<and> value_ok (snd kv)"

interpretation field_codec: codec encode_field decoder_field field_ok "\<lambda>x. x"
proof
  fix kv bs
  assume enc: "encode_field kv = Inr bs" and ok: "field_ok kv"
  obtain ks vs where ks: "put_string (fst kv) = Inr ks" and vs: "encode_value (snd kv) = Inr vs"
    and bs: "bs = ks @ vs"
    using enc by (auto simp: encode_field_def rbind_eq_Inr)
  have "decodes (dbind decoder_value (\<lambda>v. dreturn (fst kv, v))) vs kv"
    using value_codec.round_trip [OF vs] ok by (auto simp: field_ok_def intro: decodes_map)
  then show "decodes decoder_field bs kv"
    using string_codec.round_trip [OF ks] ok unfolding decoder_field_def bs
    by (auto simp: field_ok_def intro: decodes_dbind)
qed

lemma decodes_metadata:
  assumes "put_count (length md) = Inr n" "put_all encode_field md = Inr fs"
    and "list_all field_ok md" "length md \<le> max_items" "bt_wf md"
  shows "decodes decoder_metadata (n @ fs) md"
proof -
  have n: "n = u32_le (of_nat (length md))"
    using assms(1) by (auto simp: put_count_def split: if_splits)
  have "foldl (\<lambda>m (k, v). bt_insert k v m) [] md = md"
    using bt_insert_rebuild [of "[]" md] assms(5) by simp
  then have "decodes (dbind (decode_n (length md) decoder_field) (\<lambda>kvs.
      dreturn (foldl (\<lambda>m (k, v). bt_insert k v m) [] kvs))) fs md"
    using field_codec.list_round_trip [OF assms(2,3)] by (intro decodes_map) auto
  then show ?thesis
    unfolding decoder_metadata_def n by (rule decodes_dbind [OF decodes_count [OF assms(4)]])
qed

definition upsert_of :: "stored_point \<Rightarrow> upsert_point" where
  "upsert_of p = \<lparr>up_id = sp_id p, up_vector = as_slice (sp_vector p), up_metadata = sp_metadata p\<rparr>"

text \<open>The points whose records the decoder accepts: finite, and within its item limit.\<close>

definition point_ok :: "nat \<Rightarrow> stored_point \<Rightarrow> bool" where
  "point_ok dim p \<longleftrightarrow> string_ok (sp_id p) \<and> length (as_slice (sp_vector p)) = dim \<and> dim \<le> max_items \<and>
     list_all f32_is_finite (as_slice (sp_vector p)) \<and>
     bt_wf (sp_metadata p) \<and> list_all field_ok (sp_metadata p) \<and> length (sp_metadata p) \<le> max_items"

lemma put_all_f32s: "put_all (\<lambda>v. Inr (u32_le v)) vs = Inr (f32s_le vs)"
proof -
  have "try_map (\<lambda>v. Inr (u32_le v) :: bytes result) vs = Inr (map u32_le vs)"
    by (induction vs) simp_all
  then show ?thesis
    by (simp add: put_all_def f32s_le_def)
qed

interpretation point_codec: codec encode_point "decoder_point dim" "point_ok dim" upsert_of
  for dim
proof
  fix p bs
  assume enc: "encode_point p = Inr bs" and ok: "point_ok dim p"
  let ?v = "as_slice (sp_vector p)"
  obtain i n m fs where i: "put_string (sp_id p) = Inr i" and n: "put_count (length ?v) = Inr n"
    and m: "put_count (length (sp_metadata p)) = Inr m"
    and fs: "put_all encode_field (sp_metadata p) = Inr fs"
    and bs: "bs = i @ n @ f32s_le ?v @ m @ fs"
    using enc by (auto simp: encode_point_def rbind_eq_Inr)
  have n': "n = u32_le (of_nat dim)" and dim: "length ?v = dim" "dim \<le> max_items"
    using n ok by (auto simp: put_count_def point_ok_def split: if_splits)
  have "decodes decoder_metadata (m @ fs) (sp_metadata p)"
    using ok by (intro decodes_metadata [OF m fs]) (auto simp: point_ok_def)
  then have md: "decodes (dbind decoder_metadata (\<lambda>m.
      dreturn \<lparr>up_id = sp_id p, up_vector = ?v, up_metadata = m\<rparr>)) (m @ fs) (upsert_of p)"
    by (rule decodes_map) (simp add: upsert_of_def)
  have fin: "list_all f32_is_finite ?v" and id_ok: "string_ok (sp_id p)"
    using ok by (simp_all add: point_ok_def)
  have "decodes (decode_n (length ?v) decoder_f32) (f32s_le ?v) ?v"
    using f32_codec.list_round_trip [OF put_all_f32s fin] by simp
  then have "decodes (dbind (decode_n dim decoder_f32) (\<lambda>v. dbind decoder_metadata (\<lambda>m.
      dreturn \<lparr>up_id = sp_id p, up_vector = v, up_metadata = m\<rparr>))) (f32s_le ?v @ m @ fs) (upsert_of p)"
    unfolding dim(1) by (rule decodes_dbind) (rule md)
  then have "decodes (dbind decoder_count (\<lambda>n.
     if n \<noteq> dim then dfail (CorruptStorage (''stored vector dimension '' @ decimal n @
       '' differs from collection dimension '' @ decimal dim))
     else dbind (decode_n n decoder_f32) (\<lambda>v. dbind decoder_metadata (\<lambda>m.
       dreturn \<lparr>up_id = sp_id p, up_vector = v, up_metadata = m\<rparr>)))) (n @ f32s_le ?v @ m @ fs) (upsert_of p)"
    unfolding n' by (intro decodes_dbind [OF decodes_count [OF dim(2)]]) simp
  then show "decodes (decoder_point dim) bs (upsert_of p)"
    unfolding decoder_point_def bs
    by (rule decodes_dbind [OF string_codec.round_trip [OF i id_ok]])
qed

lemma finish_at_end: "decoder_finish (d\<lparr>d_position := length (d_bytes d)\<rparr>) = Inr ()"
  by (simp add: decoder_finish_def)

text \<open>The common prefix of both payloads: the operation, the sequence number, the count.\<close>

lemma payload_head:
  assumes "payload = [t] @ u64_le seq @ u32_le (of_nat k) @ items" "length payload \<le> usize_max"
    and "k \<le> max_items" "decodes (decode_n k p) items vs"
  defines "d \<equiv> decoder_new payload"
  shows "decoder_byte d = Inr (t, d\<lparr>d_position := Suc 0\<rparr>)"
    "decoder_u64 (d\<lparr>d_position := Suc 0\<rparr>) = Inr (seq, d\<lparr>d_position := 9\<rparr>)"
    "decoder_count (d\<lparr>d_position := 9\<rparr>) = Inr (k, d\<lparr>d_position := 13\<rparr>)"
    "decode_n k p (d\<lparr>d_position := 13\<rparr>) = Inr (vs, d\<lparr>d_position := length payload\<rparr>)"
    "d_bytes d = payload"
proof -
  show "decoder_byte d = Inr (t, d\<lparr>d_position := Suc 0\<rparr>)"
    using decodes_at [OF decodes_byte, of d "[]" t] assms(1,2) by (simp add: d_def decoder_new_def)
  show "decoder_u64 (d\<lparr>d_position := Suc 0\<rparr>) = Inr (seq, d\<lparr>d_position := 9\<rparr>)"
    using decodes_at [OF decodes_u64, of "d\<lparr>d_position := Suc 0\<rparr>" "[t]" seq] assms(1,2)
    by (simp add: d_def decoder_new_def)
  show "decoder_count (d\<lparr>d_position := 9\<rparr>) = Inr (k, d\<lparr>d_position := 13\<rparr>)"
    using decodes_at [OF decodes_count [OF assms(3)], of "d\<lparr>d_position := 9\<rparr>" "[t] @ u64_le seq"] assms(1,2)
    by (simp add: d_def decoder_new_def)
  show "decode_n k p (d\<lparr>d_position := 13\<rparr>) = Inr (vs, d\<lparr>d_position := length payload\<rparr>)"
    using decodes_at [OF assms(4), of "d\<lparr>d_position := 13\<rparr>" "[t] @ u64_le seq @ u32_le (of_nat k)" "[]"]
      assms(1,2) by (simp add: d_def decoder_new_def)
qed (simp add: d_def decoder_new_def)

lemma put_count_items:
  assumes "put_count k = Inr n" shows "n = u32_le (of_nat k)"
  using assms by (auto simp: put_count_def split: if_splits)

lemma apply_upsert_payload:
  assumes enc: "encode_upsert seq ps = Inr payload" and len: "length payload \<le> usize_max"
    and seq: "next_sequence c = Inr seq"
    and ok: "list_all (point_ok (dimension (config c))) ps" "length ps \<le> max_items"
  shows "apply_payload c payload =
    rbind (prepare_upsert c (map upsert_of ps) seq) (\<lambda>prepared.
      Inr (map sp_id ps, apply_prepared_upsert c prepared seq))"
proof -
  obtain n bs where n: "put_count (length ps) = Inr n" and bs: "put_all encode_point ps = Inr bs"
    and payload: "payload = [1] @ u64_le seq @ n @ bs"
    using enc by (auto simp: encode_upsert_def rbind_eq_Inr)
  have "payload = [1] @ u64_le seq @ u32_le (of_nat (length ps)) @ bs"
    using payload put_count_items [OF n] by simp
  note head = payload_head [OF this len ok(2) point_codec.list_round_trip [OF bs ok(1)]]
  have "\<not> seq \<le> sequence c" "checked_add_u64 (sequence c) 1 = Some seq"
    using next_sequence_less [OF seq] seq by (auto simp: next_sequence_def ok_or_eq_Inr)
  then show ?thesis
    using finish_at_end [of "decoder_new payload"]
    by (simp add: apply_payload_def head upsert_of_def comp_def)
qed

lemma apply_delete_payload:
  assumes enc: "encode_delete seq ids = Inr payload" and len: "length payload \<le> usize_max"
    and seq: "next_sequence c = Inr seq"
    and ok: "list_all string_ok ids" "length ids \<le> max_items" "ids \<noteq> []"
  shows "apply_payload c payload = Inr (ids, apply_delete_at c ids seq)"
proof -
  obtain n bs where n: "put_count (length ids) = Inr n" and bs: "put_all put_string ids = Inr bs"
    and payload: "payload = [2] @ u64_le seq @ n @ bs"
    using enc by (auto simp: encode_delete_def rbind_eq_Inr)
  have "payload = [2] @ u64_le seq @ u32_le (of_nat (length ids)) @ bs"
    using payload put_count_items [OF n] by simp
  note head = payload_head [OF this len ok(2) string_codec.list_round_trip [OF bs ok(1)]]
  have "\<not> seq \<le> sequence c" "checked_add_u64 (sequence c) 1 = Some seq"
    using next_sequence_less [OF seq] seq by (auto simp: next_sequence_def ok_or_eq_Inr)
  then show ?thesis
    using finish_at_end [of "decoder_new payload"] ok(3)
    by (simp add: apply_payload_def head)
qed

section \<open>Logs are recovered\<close>

text \<open>The effect of a list of payloads on a collection, without files and frames.\<close>

fun replay :: "collection \<Rightarrow> string list \<Rightarrow> bytes list \<Rightarrow> (collection \<times> string list) result" where
  "replay c dirty [] = Inr (c, dirty)"
| "replay c dirty (p # ps) = rbind (apply_payload c p) (\<lambda>(ids, c'). replay c' (hs_extend dirty ids) ps)"

definition log_of :: "bytes list \<Rightarrow> bytes" where
  "log_of ps = concat (map frame ps)"

definition frame_ok :: "bytes \<Rightarrow> bool" where
  "frame_ok p \<longleftrightarrow> length p \<le> max_frame_bytes"

lemma length_wal_magic [simp]: "length wal_magic = 4"
  by (simp add: wal_magic_def)

lemma length_frame [simp]: "length (frame p) = length p + 12"
  by (simp add: frame_def)

lemma unat_frame_length: "length p \<le> max_frame_bytes \<Longrightarrow> unat (of_nat (length p) :: u32) = length p"
  by (simp add: max_frame_bytes_def unat_of_nat)

lemma read_complete:
  assumes "drop pos wal = xs @ rest" "length xs = n"
  shows "read_exact_or_eof wal pos n = (Complete, xs, pos + n)"
  using assms by (simp add: read_exact_or_eof_def Let_def)

lemma drop_more: "drop pos wal = xs @ rest \<Longrightarrow> drop (pos + length xs) wal = rest"
  by (metis add.commute append_eq_conv_conj drop_drop)

text \<open>One iteration on a header with a length, whatever follows it.\<close>

lemma recover_header:
  assumes "drop pos wal = wal_magic @ u32_le len @ rest" "unat len \<le> max_frame_bytes"
  shows "recover_loop wal pos valid c dirty =
    (if unat len + 4 \<le> length rest
     then let fr = take (unat len + 4) rest; pos2 = pos + 8 + (unat len + 4) in
       if crc32c (take (unat len) fr) \<noteq> le_u32 (drop (unat len) fr)
       then Inl (CorruptStorage (''WAL checksum mismatch at byte '' @ decimal pos))
       else (case apply_payload c (take (unat len) fr) of Inl e \<Rightarrow> Inl e
         | Inr (ids, c') \<Rightarrow> recover_loop wal pos2 pos2 c' (hs_extend dirty ids))
     else Inr (take valid wal, c, dirty))"
proof -
  have head: "read_exact_or_eof wal pos 8 = (Complete, wal_magic @ u32_le len, pos + 8)"
    using read_complete [of pos wal "wal_magic @ u32_le len" rest 8] assms(1) by simp
  have rest: "drop (pos + 8) wal = rest"
    using drop_more [of pos wal "wal_magic @ u32_le len" rest] assms(1) by simp
  show ?thesis
  proof (cases "unat len + 4 \<le> length rest")
    case True
    then have "read_exact_or_eof wal (pos + 8) (unat len + 4) =
        (Complete, take (unat len + 4) rest, pos + 8 + (unat len + 4))"
      using read_complete [of "pos + 8" wal "take (unat len + 4) rest" "drop (unat len + 4) rest"] rest
      by simp
    then show ?thesis
      using True head assms(2) by (subst recover_loop.simps) (simp add: Let_def)
  next
    case False
    then have "fst (read_exact_or_eof wal (pos + 8) (unat len + 4)) \<noteq> Complete"
      using rest by (simp add: read_exact_or_eof_def Let_def)
    then show ?thesis
      using False head assms(2)
      by (subst recover_loop.simps) (auto simp: Let_def split: prod.splits read_state.splits)
  qed
qed

lemma recover_frame:
  assumes "drop pos wal = frame p @ rest" "frame_ok p"
  shows "recover_loop wal pos valid c dirty =
    (case apply_payload c p of Inl e \<Rightarrow> Inl e
     | Inr (ids, c') \<Rightarrow>
         recover_loop wal (pos + length (frame p)) (pos + length (frame p)) c' (hs_extend dirty ids))"
proof -
  have len: "unat (of_nat (length p) :: u32) = length p"
    using assms(2) by (simp add: frame_ok_def unat_frame_length)
  have "drop pos wal = wal_magic @ u32_le (of_nat (length p)) @ p @ u32_le (crc32c p) @ rest"
    using assms(1) by (simp add: frame_def)
  from recover_header [OF this] show ?thesis
    using assms(2) unfolding length_frame by (simp add: len frame_ok_def Let_def add_ac)
qed

lemma recover_torn:
  assumes "drop pos wal = take n (frame p)" "n < length (frame p)" "frame_ok p" "pos \<le> length wal"
  shows "recover_loop wal pos pos c dirty = Inr (take pos wal, c, dirty)"
proof (cases "n < 8")
  case True
  have got: "take 8 (drop pos wal) = take n (frame p)"
    using True assms(1) by (simp add: take_take min_def)
  show ?thesis
  proof (cases "n = 0")
    case True
    then have "drop pos wal = []" using assms(1) by simp
    then show ?thesis
      by (subst recover_loop.simps) (simp add: read_exact_or_eof_def Let_def)
  next
    case False
    then have "length (take n (frame p)) = n" "take n (frame p) \<noteq> []"
      using assms(2) by (auto simp: frame_def wal_magic_def as_bytes_def)
    then show ?thesis
      using True got by (subst recover_loop.simps) (simp add: read_exact_or_eof_def Let_def)
  qed
next
  case False
  let ?body = "p @ u32_le (crc32c p)"
  have len: "unat (of_nat (length p) :: u32) = length p"
    using assms(3) by (simp add: frame_ok_def unat_frame_length)
  have "take n (frame p) = wal_magic @ u32_le (of_nat (length p)) @ take (n - 8) ?body"
    using False by (simp add: frame_def)
  then have "drop pos wal = wal_magic @ u32_le (of_nat (length p)) @ take (n - 8) ?body"
    using assms(1) by simp
  moreover have "\<not> length p + 4 \<le> length (take (n - 8) ?body)"
    using False assms(2) by auto
  ultimately show ?thesis
    using assms(3) by (subst recover_header) (auto simp: len frame_ok_def)
qed

lemma recover_log:
  assumes "list_all frame_ok ps" "drop pos wal = log_of ps @ rest" "pos \<le> length wal"
  shows "recover_loop wal pos pos c dirty =
    rbind (replay c dirty ps) (\<lambda>(c', dirty').
      recover_loop wal (pos + length (log_of ps)) (pos + length (log_of ps)) c' dirty')"
  using assms
proof (induction ps arbitrary: pos c dirty)
  case Nil
  then show ?case by (simp add: log_of_def)
next
  case (Cons p ps)
  have at: "drop pos wal = frame p @ log_of ps @ rest"
    using Cons.prems(2) by (simp add: log_of_def)
  have next_at: "drop (pos + length (frame p)) wal = log_of ps @ rest"
    using drop_more [OF at] by simp
  have "length (frame p) \<le> length wal - pos"
    by (metis at length_append length_drop le_add1)
  then have bound: "pos + length (frame p) \<le> length wal"
    using Cons.prems(3) by linarith
  have len: "length (log_of (p # ps)) = length (frame p) + length (log_of ps)"
    by (simp add: log_of_def)
  have step: "recover_loop wal pos pos c dirty =
      rbind (apply_payload c p) (\<lambda>(ids, c').
        recover_loop wal (pos + length (frame p)) (pos + length (frame p)) c' (hs_extend dirty ids))"
    using recover_frame [OF at, of pos c dirty] Cons.prems(1)
    by (simp add: rbind_def split: sum.splits)
  show ?case
  proof (cases "apply_payload c p")
    case (Inl e)
    then show ?thesis using step by simp
  next
    case (Inr r)
    obtain ids c' where r: "r = (ids, c')" by (cases r)
    show ?thesis
      using step Inr Cons.IH [OF _ next_at bound, of c' "hs_extend dirty ids"] Cons.prems(1)
      by (simp add: r len add.assoc)
  qed
qed

lemma recover_log_start:
  assumes "list_all frame_ok ps"
  shows "recover (log_of ps @ rest) c =
    rbind (replay c [] ps) (\<lambda>(c', dirty).
      recover_loop (log_of ps @ rest) (length (log_of ps)) (length (log_of ps)) c' dirty)"
  using recover_log [OF assms, of 0 "log_of ps @ rest" rest c "[]"] by (simp add: recover_def)

lemma rbind_pair_cong:
  assumes "\<And>x y. f (x, y) = g (x, y)"
  shows "rbind m f = rbind m g"
  using assms by (cases m) auto

text \<open>
  C7: a log that ends in a torn frame, at whatever byte the append was cut, is
  recovered to exactly the state before that append, and the torn bytes are removed
  from the file. Every complete frame is replayed, in order.
\<close>

theorem recover_torn_suffix:
  assumes "list_all frame_ok ps" "frame_ok q" "n < length (frame q)"
  shows "recover (log_of ps @ take n (frame q)) c =
    rbind (replay c [] ps) (\<lambda>(c', dirty). Inr (log_of ps, c', dirty))"
  unfolding recover_log_start [OF assms(1)]
  by (rule rbind_pair_cong) (use recover_torn [of "length (log_of ps)"] assms(2,3) in simp)

text \<open>
  C8: a damaged byte in the payload or in the checksum of any frame of the log, with
  whatever frames behind it, stops recovery with an error that names the frame; no
  later frame is replayed and nothing is cut from the file.
\<close>

theorem recover_detects_damage:
  assumes "list_all frame_ok ps" "frame_ok q" "8 \<le> i" "i < length (frame q)" "b \<noteq> frame q ! i"
  shows "recover (log_of ps @ (frame q)[i := b] @ rest) c =
    rbind (replay c [] ps) (\<lambda>_. Inl (CorruptStorage
      (''WAL checksum mismatch at byte '' @ decimal (length (log_of ps)))))"
proof -
  let ?body = "q @ u32_le (crc32c q)"
  let ?bad = "?body[i - 8 := b]"
  let ?len = "of_nat (length q) :: u32"
  have len: "unat ?len = length q"
    using assms(2) by (simp add: frame_ok_def unat_frame_length)
  have split: "frame q = (wal_magic @ u32_le ?len) @ ?body"
    by (simp add: frame_def)
  have bad: "(frame q)[i := b] = wal_magic @ u32_le ?len @ ?bad"
    using assms(3) list_update_append [of "wal_magic @ u32_le ?len" ?body i b] unfolding split by simp
  have nth: "frame q ! i = ?body ! (i - 8)"
    using assms(3) nth_append_right [of "wal_magic @ u32_le ?len" i ?body] unfolding split by simp
  have "crc32c (take (length q) ?body) = le_u32 (drop (length q) ?body)"
    by simp
  then have crc: "crc32c (take (length q) ?bad) \<noteq> le_u32 (drop (length q) ?bad)"
    by (rule crc_trailer_damage) (use assms(3-5) nth in auto)
  let ?wal = "log_of ps @ (frame q)[i := b] @ rest"
  let ?pos = "length (log_of ps)"
  have "drop ?pos ?wal = wal_magic @ u32_le ?len @ ?bad @ rest"
    by (simp add: bad)
  from recover_header [OF this]
  have "recover_loop ?wal ?pos ?pos c' dirty = Inl (CorruptStorage
      (''WAL checksum mismatch at byte '' @ decimal ?pos))" for c' dirty
    using assms(2) crc by (simp add: len frame_ok_def Let_def)
  then show ?thesis
    unfolding recover_log_start [OF assms(1)] by (intro rbind_pair_cong) simp
qed

text \<open>
  C9: the length field of a frame is outside its checksum. When damage makes it
  point past the end of the file, recovery takes the frame and every acknowledged
  frame behind it for a torn suffix: it succeeds without them and cuts them off.
\<close>

theorem recover_damaged_length:
  assumes "list_all frame_ok ps" "unat len \<le> max_frame_bytes" "length rest < unat len + 4"
  shows "recover (log_of ps @ wal_magic @ u32_le len @ rest) c =
    rbind (replay c [] ps) (\<lambda>(c', dirty). Inr (log_of ps, c', dirty))"
proof -
  let ?wal = "log_of ps @ wal_magic @ u32_le len @ rest"
  have "drop (length (log_of ps)) ?wal = wal_magic @ u32_le len @ rest"
    by simp
  from recover_header [OF this assms(2)] show ?thesis
    unfolding recover_log_start [OF assms(1)] using assms(3) by (intro rbind_pair_cong) simp
qed

definition empty_log_collection :: collection where
  "empty_log_collection = \<lparr>config = \<lparr>dimension = 1, config_metric = DotProduct\<rparr>, points = [], sequence = 0\<rparr>"

text \<open>A delete of the point \<open>a\<close>, logged first.\<close>

definition demo_payload :: bytes where
  "demo_payload = [2, 1, 0, 0, 0, 0, 0, 0, 0, 1, 0, 0, 0, 1, 0, 0, 0, 97]"

lemma demo_payload_ok: "frame_ok demo_payload"
  by (simp add: frame_ok_def demo_payload_def max_frame_bytes_def)

lemma demo_replay:
  "replay empty_log_collection [] [demo_payload] = Inr (empty_log_collection\<lparr>sequence := 1\<rparr>, [''a''])"
  by code_simp

theorem recover_torn_suffix_witness:
  "recover (log_of [demo_payload] @ take 9 (frame demo_payload)) empty_log_collection =
     Inr (log_of [demo_payload], empty_log_collection\<lparr>sequence := 1\<rparr>, [''a''])"
  using recover_torn_suffix [of "[demo_payload]" demo_payload 9 empty_log_collection]
  by (simp add: demo_payload_ok demo_replay del: replay.simps)

theorem recover_detects_damage_witness:
  "\<exists>msg. recover (log_of [demo_payload] @ (frame demo_payload)[8 := 1] @ frame demo_payload)
     empty_log_collection = Inl (CorruptStorage msg)"
proof -
  have "(1 :: u8) \<noteq> frame demo_payload ! 8"
    by (simp add: frame_def demo_payload_def nth_append)
  then show ?thesis
    using recover_detects_damage [of "[demo_payload]" demo_payload 8 1 "frame demo_payload" empty_log_collection]
    by (simp add: demo_payload_ok demo_replay del: replay.simps)
qed

theorem recover_damaged_length_witness:
  "recover (log_of [demo_payload] @ wal_magic @ u32_le 1024 @ drop 8 (frame demo_payload) @ frame demo_payload)
     empty_log_collection = Inr (log_of [demo_payload], empty_log_collection\<lparr>sequence := 1\<rparr>, [''a''])"
  using recover_damaged_length [of "[demo_payload]" 1024 "drop 8 (frame demo_payload) @ frame demo_payload"
      empty_log_collection]
  by (simp add: demo_payload_ok demo_replay max_frame_bytes_def demo_payload_def [THEN arg_cong, of length]
      del: replay.simps)

end
