(* ===== verification/Quantized.thy ===== *)
theory Quantized
  imports Wal
begin

text \<open>
  The vectors of the graph index (\<open>src/hnsw.rs\<close>): full-precision and scalar-quantised
  vectors, their scores, and the two implementations of the integer dot product, the
  portable one and the one with 32-bit vector lanes.
\<close>

section \<open>Vectors\<close>

type_synonym i8 = "8 word"

datatype hnsw_vector_storage = F32Storage | ScalarInt8Storage

record quantized_vector =
  qv_codes :: "i8 list"
  qv_scale :: f32
  qv_squared_norm :: f32

datatype vector_ref = F32Ref "f32 list" | Int8Ref "i8 list" f32 f32

section \<open>Integer dot products\<close>

definition code_product :: "i8 \<Rightarrow> i8 \<Rightarrow> int" where
  "code_product l r = sint l * sint r"

definition portable_lanes :: "int \<times> int \<times> int \<times> int \<Rightarrow> i8 list \<times> i8 list \<Rightarrow> int \<times> int \<times> int \<times> int" where
  "portable_lanes s c = (case s of (s0, s1, s2, s3) \<Rightarrow> case c of (l, r) \<Rightarrow>
     (s0 + code_product (l ! 0) (r ! 0), s1 + code_product (l ! 1) (r ! 1),
      s2 + code_product (l ! 2) (r ! 2), s3 + code_product (l ! 3) (r ! 3)))"

text \<open>The sums are \<open>i64\<close>: no vector that fits in memory makes them overflow.\<close>

definition quantized_integer_dot_portable :: "i8 list \<Rightarrow> i8 list \<Rightarrow> int" where
  "quantized_integer_dot_portable left right =
     (case foldl portable_lanes (0, 0, 0, 0) (zip (chunks_exact 4 left) (chunks_exact 4 right)) of
        (s0, s1, s2, s3) \<Rightarrow> s0 + s1 + s2 + s3 +
          sum_list (map2 code_product (chunks_remainder 4 left) (chunks_remainder 4 right)))"

text \<open>
  \<open>_mm256_madd_epi16\<close> on sign-extended codes: eight 32-bit lanes, each the sum of two
  products; \<open>_mm256_add_epi32\<close> adds lanes with wrap-around.
\<close>

definition madd_epi16 :: "i8 list \<Rightarrow> i8 list \<Rightarrow> 32 word list" where
  "madd_epi16 l r = map (\<lambda>j. word_of_int
     (code_product (l ! (2 * j)) (r ! (2 * j)) + code_product (l ! (2 * j + 1)) (r ! (2 * j + 1)))) [0..<8]"

definition add_epi32 :: "32 word list \<Rightarrow> 32 word list \<Rightarrow> 32 word list" where
  "add_epi32 a b = map2 (+) a b"

definition quantized_integer_dot_avx2 :: "i8 list \<Rightarrow> i8 list \<Rightarrow> int" where
  "quantized_integer_dot_avx2 left right =
     (let vectorized = length left div 16 * 16;
          sums = foldl (\<lambda>sums (l, r). add_epi32 sums (madd_epi16 l r)) (replicate 8 0)
            (zip (chunks_exact 16 (take vectorized left)) (chunks_exact 16 (take vectorized right)))
      in sum_list (map sint sums) +
         quantized_integer_dot_portable (drop vectorized left) (drop vectorized right))"

definition quantized_integer_dot :: "bool \<Rightarrow> i8 list \<Rightarrow> i8 list \<Rightarrow> int" where
  "quantized_integer_dot avx2_detected left right =
     (if length left \<le> 65536 \<and> avx2_detected then quantized_integer_dot_avx2 left right
      else quantized_integer_dot_portable left right)"

section \<open>Quantised vectors and scores\<close>

text \<open>
  Theorem C12 below shows that \<open>quantized_integer_dot\<close> does not depend on the processor;
  the scores use its portable form.
\<close>

definition quantized_dot :: "i8 list \<Rightarrow> f32 \<Rightarrow> i8 list \<Rightarrow> f32 \<Rightarrow> f32" where
  "quantized_dot left left_scale right right_scale =
     f32_mul (f32_mul (f32_of_int (quantized_integer_dot_portable left right)) left_scale) right_scale"

definition quantized_squared_norm :: "i8 list \<Rightarrow> f32 \<Rightarrow> f32" where
  "quantized_squared_norm codes scale = quantized_dot codes scale codes scale"

definition quantized_squared_norm_bytes :: "bytes \<Rightarrow> f32 \<Rightarrow> f32" where
  "quantized_squared_norm_bytes codes scale =
     f32_mul (f32_mul (f32_of_int (foldl (\<lambda>sum code. sum + sint code * sint code) 0 codes)) scale) scale"

definition f32_one :: f32 where "f32_one = 0x3f800000"
definition f32_two :: f32 where "f32_two = 0x40000000"
definition f32_127 :: f32 where "f32_127 = 0x42fe0000"

definition quantize :: "f32 list \<Rightarrow> quantized_vector" where
  "quantize v =
     (let max_abs = foldl (\<lambda>maximum x. f32_max maximum (f32_abs x)) f32_zero v;
          scale = (if f32_lt f32_zero max_abs then f32_div max_abs f32_127 else f32_one);
          codes = map (\<lambda>x. word_of_int (f32_as_i8
            (f32_clamp (f32_neg f32_127) f32_127 (f32_round (f32_div x scale))))) v
      in \<lparr>qv_codes = codes, qv_scale = scale, qv_squared_norm = quantized_squared_norm codes scale\<rparr>)"

datatype prepared_vector = PreparedF32 "f32 list" | PreparedInt8 quantized_vector

fun prepared_new :: "f32 list \<Rightarrow> hnsw_vector_storage \<Rightarrow> prepared_vector" where
  "prepared_new v F32Storage = PreparedF32 v"
| "prepared_new v ScalarInt8Storage = PreparedInt8 (quantize v)"

fun prepared_ref :: "prepared_vector \<Rightarrow> vector_ref" where
  "prepared_ref (PreparedF32 v) = F32Ref v"
| "prepared_ref (PreparedInt8 q) = Int8Ref (qv_codes q) (qv_scale q) (qv_squared_norm q)"

text \<open>The source panics on two different representations; an index holds one only.\<close>

fun score_vectors :: "metric \<Rightarrow> vector_ref \<Rightarrow> vector_ref \<Rightarrow> f32" where
  "score_vectors m (F32Ref l) (F32Ref r) = score m l r"
| "score_vectors m (Int8Ref l ls ln) (Int8Ref r rs rn) =
     (let dot = quantized_dot l ls r rs in
      case m of
        Cosine \<Rightarrow> (let denominator = f32_sqrt (f32_mul ln rn) in
          if f32_lt f32_zero denominator then f32_div dot denominator else f32_zero)
      | DotProduct \<Rightarrow> dot
      | Euclidean \<Rightarrow>
          f32_neg (f32_max (f32_sub (f32_add ln rn) (f32_mul f32_two dot)) f32_zero))"
| "score_vectors m _ _ = f32_zero"

section \<open>The vector arena\<close>

datatype vector_arena =
    F32Arena "f32 list"
  | Int8Arena "i8 list" "f32 list" "f32 list"
  | MappedInt8Arena bytes "u64 list" "f32 list" "f32 list"

fun arena_new :: "hnsw_vector_storage \<Rightarrow> vector_arena" where
  "arena_new F32Storage = F32Arena []"
| "arena_new ScalarInt8Storage = Int8Arena [] [] []"

fun arena_storage :: "vector_arena \<Rightarrow> hnsw_vector_storage" where
  "arena_storage (F32Arena _) = F32Storage"
| "arena_storage (Int8Arena _ _ _) = ScalarInt8Storage"
| "arena_storage (MappedInt8Arena _ _ _ _) = ScalarInt8Storage"

text \<open>The source panics when the vector does not match the arena.\<close>

fun arena_push :: "vector_arena \<Rightarrow> prepared_vector \<Rightarrow> vector_arena" where
  "arena_push (F32Arena arena) (PreparedF32 v) = F32Arena (arena @ v)"
| "arena_push (Int8Arena codes scales norms) (PreparedInt8 q) =
     Int8Arena (codes @ qv_codes q) (scales @ [qv_scale q]) (norms @ [qv_squared_norm q])"
| "arena_push arena _ = arena"

fun push_mapped :: "vector_arena \<Rightarrow> nat \<Rightarrow> f32 \<Rightarrow> f32 \<Rightarrow> vector_arena result" where
  "push_mapped (MappedInt8Arena bs offsets scales norms) offset scale norm =
     (if offset < 2 ^ 64
      then Inr (MappedInt8Arena bs (offsets @ [of_nat offset]) (scales @ [scale]) (norms @ [norm]))
      else Inl (CorruptStorage ''mapped vector offset exceeds u64 address space''))"
| "push_mapped _ offset scale norm =
     Inl (CorruptStorage ''mapped vector was decoded into an owned arena'')"

fun arena_get :: "vector_arena \<Rightarrow> nat \<Rightarrow> nat \<Rightarrow> vector_ref" where
  "arena_get (F32Arena vs) node dim = F32Ref (take dim (drop (node * dim) vs))"
| "arena_get (Int8Arena codes scales norms) node dim =
     Int8Ref (take dim (drop (node * dim) codes)) (scales ! node) (norms ! node)"
| "arena_get (MappedInt8Arena bs offsets scales norms) node dim =
     Int8Ref (take dim (drop (unat (offsets ! node)) bs)) (scales ! node) (norms ! node)"

fun component_bytes :: "vector_arena \<Rightarrow> nat" where
  "component_bytes (F32Arena vs) = length vs * 4"
| "component_bytes (Int8Arena codes scales norms) = length codes * 1 + length scales * 4 + length norms * 4"
| "component_bytes (MappedInt8Arena bs offsets scales norms) =
     length offsets * 8 + length scales * 4 + length norms * 4"

section \<open>The two implementations agree\<close>

definition dot_ref :: "i8 list \<Rightarrow> i8 list \<Rightarrow> int" where
  "dot_ref l r = sum_list (map2 code_product l r)"

lemma dot_ref_append:
  "length a = length c \<Longrightarrow> dot_ref (a @ b) (c @ d) = dot_ref a c + dot_ref b d"
  by (simp add: dot_ref_def)

lemma chunks_exact_nil: "length xs < n \<Longrightarrow> chunks_exact n xs = []"
  by (subst chunks_exact.simps) simp

lemma chunks_exact_cons: "0 < n \<Longrightarrow> n \<le> length xs \<Longrightarrow> chunks_exact n xs = take n xs # chunks_exact n (drop n xs)"
  by (subst chunks_exact.simps) simp

lemma chunks_remainder_short: "length xs < n \<Longrightarrow> chunks_remainder n xs = xs"
  by (simp add: chunks_remainder_def)

lemma chunks_remainder_drop:
  assumes "0 < n" "n \<le> length xs"
  shows "chunks_remainder n xs = chunks_remainder n (drop n xs)"
proof -
  have "length xs div n = Suc ((length xs - n) div n)"
    using assms by (simp add: le_div_geq)
  then show ?thesis
    by (simp add: chunks_remainder_def add.commute)
qed

lemma dot_ref_chunks:
  assumes "length l = length r" "0 < n"
  shows "dot_ref l r = sum_list (map (\<lambda>(a, b). dot_ref a b) (zip (chunks_exact n l) (chunks_exact n r))) +
    dot_ref (chunks_remainder n l) (chunks_remainder n r)"
  using assms
proof (induction n l arbitrary: r rule: chunks_exact.induct)
  case (1 n l)
  show ?case
  proof (cases "length l < n")
    case True
    then show ?thesis
      using 1(2) by (simp add: chunks_exact_nil chunks_remainder_short)
  next
    case False
    have IH: "dot_ref (drop n l) (drop n r) =
        sum_list (map (\<lambda>(a, b). dot_ref a b) (zip (chunks_exact n (drop n l)) (chunks_exact n (drop n r)))) +
        dot_ref (chunks_remainder n (drop n l)) (chunks_remainder n (drop n r))"
      using 1(1) [of "drop n r"] 1(2,3) False by simp
    have "dot_ref l r = dot_ref (take n l) (take n r) + dot_ref (drop n l) (drop n r)"
      using dot_ref_append [of "take n l" "take n r" "drop n l" "drop n r"] 1(2) by simp
    then show ?thesis
      using IH 1(2,3) False by (simp add: chunks_exact_cons chunks_remainder_drop)
  qed
qed

lemma chunks_exact_length: "c \<in> set (chunks_exact n xs) \<Longrightarrow> length c = n"
proof (induction n xs rule: chunks_exact.induct)
  case (1 n xs)
  then show ?case
    by (subst (asm) (2) chunks_exact.simps) (auto split: if_splits)
qed

lemma length_chunks_exact: "0 < n \<Longrightarrow> length (chunks_exact n xs) = length xs div n"
proof (induction n xs rule: chunks_exact.induct)
  case (1 n xs)
  then show ?case
    by (cases "length xs < n") (auto simp: chunks_exact_nil chunks_exact_cons le_div_geq)
qed

lemma list4: "length l = 4 \<Longrightarrow> l = [l ! 0, l ! 1, l ! 2, l ! 3]"
  by (auto simp: numeral_eq_Suc length_Suc_conv)

lemma portable_fold:
  assumes "\<forall>(a, b) \<in> set cs. length a = 4 \<and> length b = 4"
  shows "(case foldl portable_lanes (s0, s1, s2, s3) cs of (t0, t1, t2, t3) \<Rightarrow> t0 + t1 + t2 + t3) =
    s0 + s1 + s2 + s3 + sum_list (map (\<lambda>(a, b). dot_ref a b) cs)"
  using assms
proof (induction cs arbitrary: s0 s1 s2 s3)
  case Nil
  then show ?case by simp
next
  case (Cons c cs)
  obtain a b where c: "c = (a, b)" by (cases c)
  have len: "length a = 4" "length b = 4"
    using Cons.prems c by auto
  have "dot_ref a b = code_product (a ! 0) (b ! 0) + code_product (a ! 1) (b ! 1) +
      code_product (a ! 2) (b ! 2) + code_product (a ! 3) (b ! 3)"
    by (subst list4 [OF len(1)], subst list4 [OF len(2)]) (simp add: dot_ref_def)
  then show ?case
    using Cons by (simp add: c portable_lanes_def)
qed

lemma zip_chunks_length:
  assumes "(a, b) \<in> set (zip (chunks_exact n l) (chunks_exact n r))"
  shows "length a = n" "length b = n"
  using assms by (metis set_zip_leftD chunks_exact_length, metis set_zip_rightD chunks_exact_length assms)

lemma portable_dot_ref:
  assumes "length l = length r"
  shows "quantized_integer_dot_portable l r = dot_ref l r"
proof -
  have "\<forall>(a, b) \<in> set (zip (chunks_exact 4 l) (chunks_exact 4 r)). length a = 4 \<and> length b = 4"
    using zip_chunks_length by fastforce
  from portable_fold [OF this, of 0 0 0 0] show ?thesis
    unfolding quantized_integer_dot_portable_def dot_ref_chunks [OF assms, of 4, simplified]
    unfolding dot_ref_def [of "chunks_remainder 4 l"] by (simp split: prod.splits)
qed

text \<open>The exact value of one 32-bit lane, and its bound after a number of chunks.\<close>

definition lane :: "nat \<Rightarrow> i8 list \<times> i8 list \<Rightarrow> int" where
  "lane j c = code_product (fst c ! (2 * j)) (snd c ! (2 * j)) +
     code_product (fst c ! (2 * j + 1)) (snd c ! (2 * j + 1))"

lemma sint_i8_bounds: "- 128 \<le> sint (x :: i8)" "sint x \<le> 127"
  using sint_greater_eq [of x] sint_less [of x] by auto

lemma code_product_bound: "\<bar>code_product a b\<bar> \<le> 16384"
proof -
  have "\<bar>sint a\<bar> \<le> 128" "\<bar>sint b\<bar> \<le> 128"
    using sint_i8_bounds [of a] sint_i8_bounds [of b] by linarith+
  then have "\<bar>sint a\<bar> * \<bar>sint b\<bar> \<le> 128 * 128"
    by (intro mult_mono) auto
  then show ?thesis
    by (simp add: code_product_def abs_mult)
qed

lemma lane_bound: "\<bar>lane j c\<bar> \<le> 32768"
  using code_product_bound [of "fst c ! (2 * j)" "snd c ! (2 * j)"]
    code_product_bound [of "fst c ! (2 * j + 1)" "snd c ! (2 * j + 1)"]
  unfolding lane_def by linarith

lemma lanes_fold:
  "foldl (\<lambda>sums (l, r). add_epi32 sums (madd_epi16 l r)) (map (\<lambda>j. word_of_int (f j)) [0..<8]) cs =
     map (\<lambda>j. word_of_int (f j + sum_list (map (lane j) cs))) [0..<8]"
proof (induction cs arbitrary: f)
  case Nil
  then show ?case by simp
next
  case (Cons c cs)
  obtain l r where c: "c = (l, r)" by (cases c)
  have "add_epi32 (map (\<lambda>j. word_of_int (f j)) [0..<8]) (madd_epi16 l r) =
      map (\<lambda>j. word_of_int (f j + lane j c)) [0..<8]"
    by (auto simp: add_epi32_def madd_epi16_def lane_def c intro!: nth_equalityI)
  then show ?case
    using Cons.IH [of "\<lambda>j. f j + lane j c"] by (simp add: c add.assoc)
qed

lemma lane_sum_bound: "\<bar>sum_list (map (lane j) cs)\<bar> \<le> 32768 * int (length cs)"
proof (induction cs)
  case Nil
  then show ?case by simp
next
  case (Cons c cs)
  then show ?case
    using lane_bound [of j c] by auto
qed

lemma sint_lane:
  assumes "length cs \<le> 4096"
  shows "sint (word_of_int (sum_list (map (lane j) cs)) :: 32 word) = sum_list (map (lane j) cs)"
proof -
  have "- 2147483648 \<le> sum_list (map (lane j) cs)" "sum_list (map (lane j) cs) < 2147483648"
    using lane_sum_bound [of j cs] assms by linarith+
  then show ?thesis
    by (simp add: sint_sbintrunc' signed_take_bit_int_eq_self_iff)
qed

lemma list16: "length l = 16 \<Longrightarrow> l = map ((!) l) [0..<16]"
  by (metis map_nth)

lemma pair_sum:
  fixes f :: "nat \<Rightarrow> int"
  shows "(\<Sum>j \<leftarrow> [0..<n]. f (2 * j) + f (2 * j + 1)) = (\<Sum>i \<leftarrow> [0..<2 * n]. f i)"
  by (induction n) simp_all

lemma chunk_lanes:
  assumes "length a = 16" "length b = 16"
  shows "(\<Sum>j \<leftarrow> [0..<8]. lane j (a, b)) = dot_ref a b"
proof -
  have "dot_ref a b = (\<Sum>i \<leftarrow> [0..<16]. code_product (a ! i) (b ! i))"
    by (subst list16 [OF assms(1)], subst list16 [OF assms(2)])
      (simp add: dot_ref_def zip_map_map zip_same_conv_map comp_def)
  also have "\<dots> = (\<Sum>j \<leftarrow> [0..<8]. lane j (a, b))"
    using pair_sum [of "\<lambda>i. code_product (a ! i) (b ! i)" 8] by (simp add: lane_def)
  finally show ?thesis ..
qed

lemma chunks_lanes:
  assumes "\<forall>(a, b) \<in> set cs. length a = 16 \<and> length b = 16"
  shows "(\<Sum>j \<leftarrow> [0..<8]. sum_list (map (lane j) cs)) = sum_list (map (\<lambda>(a, b). dot_ref a b) cs)"
  using assms
proof (induction cs)
  case Nil
  then show ?case by simp
next
  case (Cons c cs)
  have "(\<Sum>j \<leftarrow> [0..<8]. sum_list (map (lane j) (c # cs))) =
      (\<Sum>j \<leftarrow> [0..<8]. lane j c) + (\<Sum>j \<leftarrow> [0..<8]. sum_list (map (lane j) cs))"
    by (simp add: sum_list_addf)
  then show ?case
    using Cons chunk_lanes by (auto split: prod.splits)
qed

text \<open>
  C12: for the vectors the vector instructions are used on, the 32-bit lanes never
  overflow and both implementations compute the exact dot product.
\<close>

theorem quantized_dot_exact:
  assumes "length left = length right"
  shows "quantized_integer_dot avx2_detected left right =
    sum_list (map2 (\<lambda>l r. sint l * sint r) left right)"
proof -
  let ?v = "length left div 16 * 16"
  let ?l = "take ?v left" and ?r = "take ?v right"
  let ?cs = "zip (chunks_exact 16 ?l) (chunks_exact 16 ?r)"
  have ref: "sum_list (map2 (\<lambda>l r. sint l * sint r) left right) = dot_ref left right"
    by (simp add: dot_ref_def code_product_def [abs_def])
  have len: "length ?l = length ?r" "length ?l = ?v"
    using assms by simp_all
  have "quantized_integer_dot_avx2 left right = dot_ref left right" if "length left \<le> 65536"
  proof -
    have lens: "\<forall>(a, b) \<in> set ?cs. length a = 16 \<and> length b = 16"
      using zip_chunks_length by fastforce
    have "length ?cs \<le> 4096"
      using that assms by (simp add: length_chunks_exact)
    then have "sum_list (map sint (foldl (\<lambda>sums (l, r). add_epi32 sums (madd_epi16 l r)) (replicate 8 0) ?cs)) =
        (\<Sum>j \<leftarrow> [0..<8]. sum_list (map (lane j) ?cs))"
      using lanes_fold [of "\<lambda>_. 0" ?cs] by (simp add: comp_def sint_lane map_replicate_const)
    also have "\<dots> = sum_list (map (\<lambda>(a, b). dot_ref a b) ?cs)"
      by (rule chunks_lanes [OF lens])
    also have "\<dots> = dot_ref ?l ?r"
      using dot_ref_chunks [OF len(1), of 16] assms by (simp add: chunks_remainder_def dot_ref_def)
    finally show ?thesis
      using dot_ref_append [OF len(1), of "drop ?v left" "drop ?v right"] assms
      by (simp add: quantized_integer_dot_avx2_def Let_def portable_dot_ref)
  qed
  then show ?thesis
    unfolding ref quantized_integer_dot_def using portable_dot_ref [OF assms] by simp
qed

theorem quantized_dot_exact_witness:
  "quantized_integer_dot True (replicate 17 (-128)) (replicate 17 127) = - 276352"
  by (subst quantized_dot_exact) (simp_all add: numeral_eq_Suc)

section \<open>Facts about arenas\<close>

text \<open>An owned arena of \<open>n\<close> vectors of one dimension.\<close>

fun arena_ok :: "vector_arena \<Rightarrow> nat \<Rightarrow> nat \<Rightarrow> bool" where
  "arena_ok (F32Arena vs) n dim = (length vs = n * dim)"
| "arena_ok (Int8Arena codes scales norms) n dim =
     (length codes = n * dim \<and> length scales = n \<and> length norms = n)"
| "arena_ok (MappedInt8Arena bs offsets scales norms) n dim =
     (length offsets = n \<and> length scales = n \<and> length norms = n \<and>
      list_all (\<lambda>off. unat off + dim \<le> length bs) offsets)"

fun prepared_ok :: "prepared_vector \<Rightarrow> hnsw_vector_storage \<Rightarrow> nat \<Rightarrow> bool" where
  "prepared_ok (PreparedF32 v) st dim = (st = F32Storage \<and> length v = dim)"
| "prepared_ok (PreparedInt8 q) st dim = (st = ScalarInt8Storage \<and> length (qv_codes q) = dim)"

fun arena_owned :: "vector_arena \<Rightarrow> bool" where
  "arena_owned (MappedInt8Arena _ _ _ _) = False"
| "arena_owned _ = True"

lemma prepared_new_ok: "prepared_ok (prepared_new v st) st (length v)"
  by (cases st) (auto simp: quantize_def Let_def)

lemma arena_push_ok:
  assumes "arena_ok a n dim" "arena_owned a" "prepared_ok v (arena_storage a) dim"
  shows "arena_ok (arena_push a v) (Suc n) dim" "arena_owned (arena_push a v)"
    "arena_storage (arena_push a v) = arena_storage a"
    "arena_get (arena_push a v) n dim = prepared_ref v"
  using assms by (cases a; cases v; simp add: nth_append)+

lemma arena_get_push:
  assumes "arena_ok a n dim" "arena_owned a" "prepared_ok v (arena_storage a) dim" "i < n"
  shows "arena_get (arena_push a v) i dim = arena_get a i dim"
proof -
  have "i * dim + dim \<le> n * dim"
    using assms(4) by (metis Suc_leI add.commute mult_Suc mult_le_mono1)
  then show ?thesis
    using assms by (cases a; cases v; simp add: nth_append)
qed

lemma squared_norm_bytes:
  "quantized_squared_norm_bytes codes scale = quantized_squared_norm codes scale"
proof -
  have "foldl (\<lambda>sum code. sum + sint code * sint code) s codes = s + dot_ref codes codes" for s
    by (induction codes arbitrary: s) (auto simp: dot_ref_def code_product_def)
  then show ?thesis
    by (simp add: quantized_squared_norm_bytes_def quantized_squared_norm_def quantized_dot_def
        portable_dot_ref)
qed

end
