(* ===== verification/HnswGraph.thy ===== *)
theory HnswGraph
  imports Quantized
begin

text \<open>
  The graph index of \<open>src/hnsw.rs\<close>, its data and its search: the adjacency lists in both
  representations, the pooled workspaces that mark visited nodes by generation, the
  greedy descent of the upper layers and the beam search of one layer.

  An index out of range panics in the source. The definitions return some value there;
  \<open>graph_ok\<close> says that the links stay in range, and the lemmas show it for every graph the
  program builds or decodes.
\<close>

section \<open>Data\<close>

record hnsw_config =
  hc_m :: nat
  hc_ef_construction :: nat

record hnsw_hit =
  hh_id :: string
  hh_score :: f32

record node =
  n_level :: nat
  range_start :: u32
  n_neighbors :: "u32 list list"

record link_range =
  lr_start :: u32
  lr_end :: u32

record compact_graph =
  ranges :: "link_range list"
  links :: "u32 list"

text \<open>The pool of search workspaces is not part of the record: a search is given a workspace.\<close>

record hnsw_index =
  ix_dimension :: nat
  ix_metric :: metric
  ix_config :: hnsw_config
  ix_nodes :: "node list"
  ix_ids :: "string list"
  ix_vectors :: vector_arena
  ix_entry_point :: "nat option"
  ix_max_level :: nat
  ix_compact_graph :: "compact_graph option"

record build_workspace =
  visited :: "u32 list"
  generation :: u32

record heap_item =
  hi_index :: nat
  hi_score :: f32

section \<open>Workspaces\<close>

definition workspace_new :: build_workspace where
  "workspace_new = \<lparr>visited = [], generation = 0\<rparr>"

definition resize :: "nat \<Rightarrow> 'a \<Rightarrow> 'a list \<Rightarrow> 'a list" where
  "resize n x xs = take n xs @ replicate (n - length xs) x"

definition workspace_begin :: "build_workspace \<Rightarrow> nat \<Rightarrow> build_workspace" where
  "workspace_begin ws node_count =
     (let v = resize node_count 0 (visited ws) in
      if generation ws = - 1 then \<lparr>visited = map (\<lambda>_. 0) v, generation = 1\<rparr>
      else \<lparr>visited = v, generation = generation ws + 1\<rparr>)"

definition workspace_visit :: "build_workspace \<Rightarrow> nat \<Rightarrow> bool \<times> build_workspace" where
  "workspace_visit ws node =
     (if node < length (visited ws) \<and> visited ws ! node \<noteq> generation ws
      then (True, ws\<lparr>visited := (visited ws)[node := generation ws]\<rparr>) else (False, ws))"

section \<open>Scores and orders\<close>

definition item_cmp :: "heap_item \<Rightarrow> heap_item \<Rightarrow> ordering" where
  "item_cmp a b = then_with (f32_total_cmp (hi_score a) (hi_score b)) (cmp_of (hi_index b) (hi_index a))"

definition reverse_item_cmp :: "heap_item \<Rightarrow> heap_item \<Rightarrow> ordering" where
  "reverse_item_cmp a b = item_cmp b a"

definition compare_scored :: "f32 \<Rightarrow> string \<Rightarrow> f32 \<Rightarrow> string \<Rightarrow> ordering" where
  "compare_scored left_score left_id right_score right_id =
     then_with (f32_total_cmp right_score left_score) (cmp_of left_id right_id)"

definition vector_at :: "hnsw_index \<Rightarrow> nat \<Rightarrow> vector_ref" where
  "vector_at ix node = arena_get (ix_vectors ix) node (ix_dimension ix)"

definition score_node :: "hnsw_index \<Rightarrow> vector_ref \<Rightarrow> nat \<Rightarrow> f32" where
  "score_node ix query node = score_vectors (ix_metric ix) query (vector_at ix node)"

definition sort_items :: "hnsw_index \<Rightarrow> heap_item list \<Rightarrow> heap_item list" where
  "sort_items ix items = sort_by (\<lambda>l r. compare_scored (hi_score l) (ix_ids ix ! hi_index l)
     (hi_score r) (ix_ids ix ! hi_index r)) items"

definition neighbors :: "hnsw_index \<Rightarrow> nat \<Rightarrow> nat \<Rightarrow> u32 list" where
  "neighbors ix node layer =
     (let n = ix_nodes ix ! node in
      if node \<ge> length (ix_nodes ix) \<or> layer > n_level n then []
      else (case ix_compact_graph ix of
        Some g \<Rightarrow> (let r = ranges g ! (unat (range_start n) + layer)
          in take (unat (lr_end r) - unat (lr_start r)) (drop (unat (lr_start r)) (links g)))
      | None \<Rightarrow> (if layer < length (n_neighbors n) then n_neighbors n ! layer else [])))"

section \<open>Greedy descent\<close>

definition greedy_pick :: "hnsw_index \<Rightarrow> vector_ref \<Rightarrow> nat \<times> f32 \<Rightarrow> u32 \<Rightarrow> nat \<times> f32" where
  "greedy_pick ix query best neighbor =
     (let n = unat neighbor; s = score_node ix query n in
      if compare_scored s (ix_ids ix ! n) (snd best) (ix_ids ix ! fst best) = Less
      then (n, s) else best)"

definition greedy_step :: "hnsw_index \<Rightarrow> vector_ref \<Rightarrow> nat \<Rightarrow> nat \<Rightarrow> nat" where
  "greedy_step ix query current layer =
     fst (foldl (greedy_pick ix query) (current, score_node ix query current) (neighbors ix current layer))"

definition node_key :: "hnsw_index \<Rightarrow> vector_ref \<Rightarrow> nat \<Rightarrow> int \<times> string" where
  "node_key ix query n = (- f32_key (score_node ix query n), ix_ids ix ! n)"

definition all_links :: "hnsw_index \<Rightarrow> u32 set" where
  "all_links ix = (case ix_compact_graph ix of Some g \<Rightarrow> set (links g) | None \<Rightarrow> {}) \<union>
     (\<Union>n \<in> set (ix_nodes ix). \<Union>l \<in> set (n_neighbors n). set l)"

lemma compare_scored_Less:
  "compare_scored s i t j = Less \<longleftrightarrow> (- f32_key s, i) < (- f32_key t, j)"
  by (auto simp: compare_scored_def then_with_def f32_total_cmp_def cmp_of_def)

lemma neighbors_links: "set (neighbors ix node layer) \<subseteq> all_links ix"
proof (cases "node < length (ix_nodes ix)")
  case True
  then have "ix_nodes ix ! node \<in> set (ix_nodes ix)" by simp
  then show ?thesis
    unfolding neighbors_def all_links_def Let_def
    by (auto split: option.splits if_splits dest!: in_set_takeD in_set_dropD)
      (metis not_le nth_mem)
qed (simp add: neighbors_def)

lemma finite_all_links: "finite (all_links ix)"
  by (auto simp: all_links_def split: option.splits)

lemma greedy_fold:
  assumes "b = (m, score_node ix query m)"
  shows "foldl (greedy_pick ix query) b ns = (r, t) \<Longrightarrow>
    t = score_node ix query r \<and> (r = m \<or> r \<in> unat ` set ns \<and> node_key ix query r < node_key ix query m) \<and>
    (\<forall>n \<in> set ns. \<not> node_key ix query (unat n) < node_key ix query r)"
  using assms
proof (induction ns arbitrary: m b)
  case Nil
  then show ?case by auto
next
  case (Cons n ns)
  let ?n = "unat n"
  have step: "greedy_pick ix query b n =
      (if node_key ix query ?n < node_key ix query m then (?n, score_node ix query ?n) else b)"
    using Cons.prems(2) by (simp add: greedy_pick_def Let_def compare_scored_Less node_key_def)
  show ?case
  proof (cases "node_key ix query ?n < node_key ix query m")
    case True
    then have IH: "t = score_node ix query r \<and>
        (r = ?n \<or> r \<in> unat ` set ns \<and> node_key ix query r < node_key ix query ?n) \<and>
        (\<forall>n \<in> set ns. \<not> node_key ix query (unat n) < node_key ix query r)"
      using Cons.IH [of _ ?n] Cons.prems(1) step by simp
    then have "node_key ix query r < node_key ix query m" "\<not> node_key ix query ?n < node_key ix query r"
      using True by auto
    with IH show ?thesis by auto
  next
    case False
    then have IH: "t = score_node ix query r \<and>
        (r = m \<or> r \<in> unat ` set ns \<and> node_key ix query r < node_key ix query m) \<and>
        (\<forall>n \<in> set ns. \<not> node_key ix query (unat n) < node_key ix query r)"
      using Cons.IH [of b m] Cons.prems step by simp
    then have "\<not> node_key ix query ?n < node_key ix query r"
      using False by auto
    with IH show ?thesis by auto
  qed
qed

lemma greedy_step_better:
  assumes "greedy_step ix query current layer \<noteq> current"
  shows "greedy_step ix query current layer \<in> unat ` set (neighbors ix current layer)"
    "node_key ix query (greedy_step ix query current layer) < node_key ix query current"
proof -
  obtain r t where rt: "foldl (greedy_pick ix query) (current, score_node ix query current)
      (neighbors ix current layer) = (r, t)"
    by (cases "foldl (greedy_pick ix query) (current, score_node ix query current) (neighbors ix current layer)")
  have "greedy_step ix query current layer = r"
    by (simp add: greedy_step_def rt)
  then show "greedy_step ix query current layer \<in> unat ` set (neighbors ix current layer)"
    "node_key ix query (greedy_step ix query current layer) < node_key ix query current"
    using greedy_fold [OF refl rt] assms by auto
qed

lemma greedy_step_best:
  "n \<in> set (neighbors ix current layer) \<Longrightarrow>
   \<not> node_key ix query (unat n) < node_key ix query (greedy_step ix query current layer)"
  using greedy_fold [OF refl] by (metis greedy_step_def prod.collapse)

lemma greedy_measure:
  assumes "greedy_step ix query current layer \<noteq> current"
  shows "card {j \<in> unat ` all_links ix. node_key ix query j < node_key ix query (greedy_step ix query current layer)}
    < card {j \<in> unat ` all_links ix. node_key ix query j < node_key ix query current}"
proof (rule psubset_card_mono)
  let ?b = "greedy_step ix query current layer"
  note better = greedy_step_better [OF assms]
  have "?b \<in> unat ` all_links ix"
    using better(1) neighbors_links by fastforce
  then show "{j \<in> unat ` all_links ix. node_key ix query j < node_key ix query ?b}
      \<subset> {j \<in> unat ` all_links ix. node_key ix query j < node_key ix query current}"
    using better(2) by auto
  show "finite {j \<in> unat ` all_links ix. node_key ix query j < node_key ix query current}"
    using finite_all_links by simp
qed

function greedy_closest :: "hnsw_index \<Rightarrow> vector_ref \<Rightarrow> nat \<Rightarrow> nat \<Rightarrow> nat" where
  "greedy_closest ix query current layer =
     (let best = greedy_step ix query current layer in
      if best = current then current else greedy_closest ix query best layer)"
  by pat_completeness auto
termination
  by (relation "measure (\<lambda>(ix, query, current, layer).
      card {j \<in> unat ` all_links ix. node_key ix query j < node_key ix query current})")
    (auto intro: greedy_measure)

declare greedy_closest.simps [simp del]

lemma greedy_closest_local:
  "n \<in> set (neighbors ix (greedy_closest ix query current layer) layer) \<Longrightarrow>
   \<not> node_key ix query (unat n) < node_key ix query (greedy_closest ix query current layer)"
proof (induction ix query current layer rule: greedy_closest.induct)
  case (1 ix query current layer)
  show ?case
  proof (cases "greedy_step ix query current layer = current")
    case True
    then have "greedy_closest ix query current layer = current"
      by (subst greedy_closest.simps) simp
    then show ?thesis
      using 1(2) greedy_step_best [of n ix current layer query] True by simp
  next
    case False
    then have "greedy_closest ix query current layer =
        greedy_closest ix query (greedy_step ix query current layer) layer"
      by (subst greedy_closest.simps) (simp add: Let_def)
    then show ?thesis
      using 1(1) [OF refl False] 1(2) by simp
  qed
qed

lemma greedy_closest_reaches:
  "(current, greedy_closest ix query current layer) \<in>
     {(i, unat j) | i j. j \<in> set (neighbors ix i layer)}\<^sup>*"
proof (induction ix query current layer rule: greedy_closest.induct)
  case (1 ix query current layer)
  show ?case
  proof (cases "greedy_step ix query current layer = current")
    case True
    then show ?thesis by (subst greedy_closest.simps) simp
  next
    case False
    have "(current, greedy_step ix query current layer) \<in>
        {(i, unat j) | i j. j \<in> set (neighbors ix i layer)}"
      using greedy_step_better(1) [OF False] by auto
    moreover have "greedy_closest ix query current layer =
        greedy_closest ix query (greedy_step ix query current layer) layer"
      using False by (subst greedy_closest.simps) (simp add: Let_def)
    ultimately show ?thesis
      using 1 [OF refl False] by (simp add: converse_rtrancl_into_rtrancl)
  qed
qed

section \<open>Beam search of one layer\<close>

definition layer_item :: "hnsw_index \<Rightarrow> vector_ref \<Rightarrow> nat \<Rightarrow> heap_item" where
  "layer_item ix query n = \<lparr>hi_index = n, hi_score = score_node ix query n\<rparr>"

type_synonym beam = "heap_item list \<times> heap_item list \<times> build_workspace"

definition visit_neighbor :: "hnsw_index \<Rightarrow> vector_ref \<Rightarrow> nat \<Rightarrow> beam \<Rightarrow> u32 \<Rightarrow> beam" where
  "visit_neighbor ix query ef b neighbor =
     (case b of (frontier, results, ws) \<Rightarrow>
      case workspace_visit ws (unat neighbor) of (fresh, ws') \<Rightarrow>
      if \<not> fresh then (frontier, results, ws')
      else let item = layer_item ix query (unat neighbor) in
        if length results < ef \<or> is_some_and (heap_peek results) (\<lambda>worst. item_cmp item worst = Greater)
        then let results' = heap_push reverse_item_cmp item results in
          (heap_push item_cmp item frontier,
           if length results' > ef then heap_pop results' else results', ws')
        else (frontier, results, ws'))"

definition unvisited :: "build_workspace \<Rightarrow> nat" where
  "unvisited ws = length (List.filter (\<lambda>g. g \<noteq> generation ws) (visited ws))"

lemma filter_update_less:
  "i < length xs \<Longrightarrow> P (xs ! i) \<Longrightarrow> \<not> P y \<Longrightarrow>
   length (List.filter P (xs[i := y])) < length (List.filter P xs)"
proof (induction xs arbitrary: i)
  case (Cons x xs)
  then show ?case by (cases i) auto
qed simp

lemma visit_unvisited:
  "workspace_visit ws n = (True, ws') \<Longrightarrow> unvisited ws' < unvisited ws"
  "workspace_visit ws n = (False, ws') \<Longrightarrow> ws' = ws"
  by (auto simp: workspace_visit_def unvisited_def filter_update_less split: if_splits)

lemma length_insert_by [simp]: "length (insert_by c x xs) = Suc (length xs)"
  by (induction xs) auto

definition beam_measure :: "beam \<Rightarrow> nat" where
  "beam_measure b = (case b of (frontier, _, ws) \<Rightarrow> 2 * unvisited ws + length frontier)"

lemma visit_neighbor_measure: "beam_measure (visit_neighbor ix query ef b n) \<le> beam_measure b"
proof -
  obtain frontier results ws where b: "b = (frontier, results, ws)" by (cases b)
  obtain fresh ws' where v: "workspace_visit ws (unat n) = (fresh, ws')"
    by (cases "workspace_visit ws (unat n)")
  show ?thesis
  proof (cases fresh)
    case True
    then have "unvisited ws' < unvisited ws"
      using v visit_unvisited(1) by simp
    then show ?thesis
      by (auto simp: b v True visit_neighbor_def beam_measure_def Let_def heap_push_def)
  next
    case False
    then show ?thesis
      using v visit_unvisited(2) by (auto simp: b visit_neighbor_def beam_measure_def)
  qed
qed

lemma visit_all_measure: "beam_measure (foldl (visit_neighbor ix query ef) b ns) \<le> beam_measure b"
proof (induction ns arbitrary: b)
  case (Cons n ns)
  show ?case
    using Cons.IH [of "visit_neighbor ix query ef b n"] visit_neighbor_measure [of ix query ef b n] by simp
qed simp

function search_loop :: "hnsw_index \<Rightarrow> vector_ref \<Rightarrow> nat \<Rightarrow> nat \<Rightarrow> beam \<Rightarrow> beam" where
  "search_loop ix query ef layer (frontier, results, ws) =
     (case heap_peek frontier of None \<Rightarrow> (frontier, results, ws)
      | Some candidate \<Rightarrow>
          if length results \<ge> ef \<and> is_some_and (heap_peek results) (\<lambda>worst. item_cmp candidate worst = Less)
          then (heap_pop frontier, results, ws)
          else search_loop ix query ef layer
            (foldl (visit_neighbor ix query ef) (heap_pop frontier, results, ws)
               (neighbors ix (hi_index candidate) layer)))"
  by pat_completeness auto
termination
proof (relation "measure (\<lambda>(ix, query, ef, layer, b). beam_measure b)", simp)
  fix ix :: hnsw_index and query :: vector_ref and ef layer :: nat
    and frontier results :: "heap_item list" and ws :: build_workspace and candidate :: heap_item
  assume "heap_peek frontier = Some candidate"
  then have "frontier \<noteq> []"
    by (auto simp: heap_peek_def split: if_splits)
  then have "beam_measure (heap_pop frontier, results, ws) < beam_measure (frontier, results, ws)"
    by (simp add: beam_measure_def heap_pop_def)
  then show "((ix, query, ef, layer, foldl (visit_neighbor ix query ef) (heap_pop frontier, results, ws)
      (neighbors ix (hi_index candidate) layer)), ix, query, ef, layer, frontier, results, ws)
      \<in> measure (\<lambda>(ix, query, ef, layer, b). beam_measure b)"
    using visit_all_measure [of ix query ef "(heap_pop frontier, results, ws)"]
    by (auto intro: le_less_trans)
qed

declare search_loop.simps [simp del]

definition search_layer ::
    "hnsw_index \<Rightarrow> vector_ref \<Rightarrow> nat \<Rightarrow> nat \<Rightarrow> nat \<Rightarrow> build_workspace \<Rightarrow> heap_item list \<times> build_workspace" where
  "search_layer ix query entry ef layer ws =
     (let ws1 = workspace_begin ws (length (ix_nodes ix));
          item = layer_item ix query entry;
          ws2 = snd (workspace_visit ws1 entry)
      in case search_loop ix query ef layer ([item], [item], ws2) of
        (_, results, ws3) \<Rightarrow> (sort_items ix results, ws3))"

text \<open>The source has the loop twice; the copy used while building differs in layout only.\<close>

definition search_layer_for_build ::
    "hnsw_index \<Rightarrow> vector_ref \<Rightarrow> nat \<Rightarrow> nat \<Rightarrow> nat \<Rightarrow> build_workspace \<Rightarrow> heap_item list \<times> build_workspace" where
  "search_layer_for_build ix query entry ef layer ws = search_layer ix query entry ef layer ws"

end
