(* ===== verification/HnswSearch.thy ===== *)
theory HnswSearch
  imports HnswGraph
begin

text \<open>
  What the beam search of a layer computes, for any width: the best of all nodes it has
  scored, and never a node whose neighbours it has not scored. The index search of
  \<open>src/hnsw.rs\<close> and its correctness follow.
\<close>

section \<open>Workspaces as sets\<close>

definition seen :: "build_workspace \<Rightarrow> nat set" where
  "seen ws = {i. i < length (visited ws) \<and> visited ws ! i = generation ws}"

definition workspace_ok :: "build_workspace \<Rightarrow> bool" where
  "workspace_ok ws \<longleftrightarrow> list_all (\<lambda>g. g \<le> generation ws) (visited ws)"

lemma word_less_plus_one: "g \<le> (a :: u32) \<Longrightarrow> a \<noteq> - 1 \<Longrightarrow> g < a + 1"
proof -
  assume le: "g \<le> a" and "a \<noteq> - 1"
  then have "1 + a \<noteq> 0"
    by (metis add.commute add_eq_0_iff)
  then have "unat (1 + a) = Suc (unat a)"
    by (rule unatSuc)
  then show "g < a + 1"
    using le by (simp add: word_less_nat_alt word_le_nat_alt add.commute)
qed

lemma workspace_begin_fresh:
  assumes "workspace_ok ws"
  shows "seen (workspace_begin ws n) = {}" "length (visited (workspace_begin ws n)) = n"
    "workspace_ok (workspace_begin ws n)"
proof -
  let ?v = "resize n 0 (visited ws)"
  have le: "g \<le> generation ws" if "g \<in> set ?v" for g
    using assms that by (auto simp: workspace_ok_def list_all_iff resize_def dest: in_set_takeD split: if_splits)
  have len: "length ?v = n"
    by (simp add: resize_def)
  show "length (visited (workspace_begin ws n)) = n"
    using len by (simp add: workspace_begin_def Let_def)
  have lt: "g < generation (workspace_begin ws n)" if "g \<in> set (visited (workspace_begin ws n))" for g
    using that le word_less_plus_one by (auto simp: workspace_begin_def Let_def split: if_splits)
  then show "seen (workspace_begin ws n) = {}"
    using nth_mem by (fastforce simp: seen_def)
  show "workspace_ok (workspace_begin ws n)"
    using lt by (auto simp: workspace_ok_def list_all_iff intro: less_imp_le)
qed

lemma workspace_visit_seen:
  assumes "workspace_visit ws n = (fresh, ws')"
  shows "fresh \<longleftrightarrow> n < length (visited ws) \<and> n \<notin> seen ws"
    "seen ws' = (if n < length (visited ws) then insert n (seen ws) else seen ws)"
    "length (visited ws') = length (visited ws)"
    "workspace_ok ws \<Longrightarrow> workspace_ok ws'"
  using assms
  by (auto simp: workspace_visit_def seen_def nth_list_update workspace_ok_def list_all_length split: if_splits)

section \<open>The order of heap items\<close>

definition item_key :: "heap_item \<Rightarrow> int \<times> int" where
  "item_key i = (f32_key (hi_score i), - int (hi_index i))"

definition rev_key :: "heap_item \<Rightarrow> int \<times> int" where
  "rev_key i = (- f32_key (hi_score i), int (hi_index i))"

interpretation item: keyed_cmp item_cmp item_key
  by unfold_locales
    (auto simp: item_cmp_def item_key_def f32_total_cmp_def cmp_of_def then_with_def)

interpretation reverse_item: keyed_cmp reverse_item_cmp rev_key
  by unfold_locales
    (auto simp: reverse_item_cmp_def item_cmp_def rev_key_def f32_total_cmp_def cmp_of_def then_with_def)

lemma rev_key_less: "rev_key a < rev_key b \<longleftrightarrow> item_key b < item_key a"
  by (auto simp: rev_key_def item_key_def)

lemma hi_index_layer_item [simp]: "hi_index (layer_item ix query n) = n"
  by (simp add: layer_item_def)

lemma layer_item_inj: "layer_item ix query m = layer_item ix query n \<longleftrightarrow> m = n"
  by (auto simp: layer_item_def)

lemma rev_key_inj: "inj_on rev_key (set (map (layer_item ix query) ns))"
  by (auto simp: inj_on_def rev_key_def layer_item_def)

lemma butlast_insort:
  "xs \<noteq> [] \<Longrightarrow> f x < f (last xs) \<Longrightarrow> sorted (map f xs) \<Longrightarrow> butlast (insort_key f x xs) = insort_key f x (butlast xs)"
proof (induction xs)
  case (Cons y ys)
  then show ?case by (cases ys) auto
qed simp

lemma sorted_map_last: "sorted (map f xs) \<Longrightarrow> x \<in> set xs \<Longrightarrow> f x \<le> f (last xs)"
  by (induction xs) auto

lemma set_insert_by [simp]: "set (insert_by c x xs) = insert x (set xs)"
  by (induction xs) auto

lemma set_insert_by_fold [simp]: "set (foldr (insert_by c) xs []) = set xs"
  by (induction xs) auto

section \<open>The invariant of the beam search\<close>

definition scored :: "hnsw_index \<Rightarrow> vector_ref \<Rightarrow> nat set \<Rightarrow> heap_item list" where
  "scored ix query V = map (layer_item ix query) (sorted_list_of_set V)"

definition best_of :: "hnsw_index \<Rightarrow> vector_ref \<Rightarrow> nat \<Rightarrow> nat set \<Rightarrow> heap_item list" where
  "best_of ix query ef V = first_k rev_key ef (scored ix query V)"

lemma scored_facts:
  assumes "finite V"
  shows "distinct (scored ix query V)" "inj_on rev_key (set (scored ix query V))"
    "set (scored ix query V) = layer_item ix query ` V" "length (scored ix query V) = card V"
  using assms rev_key_inj [of ix query "sorted_list_of_set V"]
  by (auto simp: scored_def distinct_map inj_on_def layer_item_inj)

lemma best_of_insert:
  assumes "finite V" "n \<notin> V"
  shows "best_of ix query ef (insert n V) = first_k rev_key ef (layer_item ix query n # scored ix query V)"
  unfolding best_of_def
proof (rule first_k_perm)
  have "mset (sorted_list_of_set (insert n V)) = add_mset n (mset (sorted_list_of_set V))"
    using assms by (simp add: sorted_list_of_set.sorted_key_list_of_set_insert)
  then show "mset (scored ix query (insert n V)) = mset (layer_item ix query n # scored ix query V)"
    by (simp add: scored_def)
qed (use assms scored_facts [of "insert n V"] in auto)

lemma best_of_step:
  assumes V: "finite V" "n \<notin> V" and ef: "0 < ef"
    and results: "results = best_of ix query ef V"
  defines "item \<equiv> layer_item ix query n"
  shows "best_of ix query ef (insert n V) =
    (if length results < ef \<or> is_some_and (heap_peek results) (\<lambda>worst. item_cmp item worst = Greater)
     then let results' = heap_push reverse_item_cmp item results in
       if length results' > ef then heap_pop results' else results'
     else results)"
proof -
  let ?L = "scored ix query V"
  have res: "results = first_k rev_key ef ?L"
    by (simp add: results best_of_def)
  have len: "length results \<le> ef"
    by (simp add: res)
  have item_new: "item \<notin> set ?L"
    using V scored_facts(3) [of V ix query] by (auto simp: item_def layer_item_inj)
  show ?thesis
  proof (cases "length results < ef")
    case True
    then show ?thesis
      using first_k_Cons_short [where f = rev_key and k = ef and xs = ?L and x = item] best_of_insert [OF V, of ix query ef] len
      by (simp add: res [symmetric] item_def reverse_item.heap_push_insort Let_def)
  next
    case False
    then have full: "length results = ef" and ne: "results \<noteq> []"
      using len ef by auto
    have peek: "heap_peek results = Some (last results)"
      using ne by (simp add: heap_peek_def)
    have "last results \<in> set ?L"
      using ne by (metis res in_set_takeD last_in_set set_sort)
    then have neq: "rev_key item \<noteq> rev_key (last results)"
      using item_new V scored_facts(3) [of V ix query]
      by (auto simp: rev_key_def item_def layer_item_def)
    show ?thesis
    proof (cases "rev_key item < rev_key (last results)")
      case True
      have "insort_key rev_key item (butlast results) = best_of ix query ef (insert n V)"
        using first_k_Cons_less [where f = rev_key and k = ef and xs = ?L and x = item] full ef True best_of_insert [OF V, of ix query ef]
        by (simp add: res [symmetric] item_def)
      moreover have "butlast (insort_key rev_key item results) = insort_key rev_key item (butlast results)"
        using ne True sorted_first_k [of rev_key ef ?L] by (intro butlast_insort) (simp_all add: res)
      moreover have "item_cmp item (last results) = Greater"
        using True by (simp add: item.cmp_Greater rev_key_less)
      ultimately show ?thesis
        using full peek by (simp add: Let_def reverse_item.heap_push_insort heap_pop_def)
    next
      case False
      then have "rev_key (last results) < rev_key item"
        using neq by simp
      then have "results = best_of ix query ef (insert n V)"
        using first_k_Cons_greater [where f = rev_key and k = ef and xs = ?L and x = item] full ef best_of_insert [OF V, of ix query ef]
        by (simp add: res [symmetric] item_def)
      moreover have "item_cmp item (last results) \<noteq> Greater"
        using False by (simp add: item.cmp_Greater rev_key_less)
      ultimately show ?thesis
        using full peek by simp
    qed
  qed
qed

lemma best_of_mono:
  assumes "finite W" "V \<subseteq> W" "v \<in> V"
    and "layer_item ix query v \<in> set (best_of ix query ef W)"
  shows "layer_item ix query v \<in> set (best_of ix query ef V)"
proof -
  have fin: "finite V" using assms(1,2) by (rule rev_finite_subset)
  have set_best: "set (best_of ix query ef U) = {x \<in> layer_item ix query ` U.
      card {y \<in> layer_item ix query ` U. rev_key y < rev_key x} < ef}" if "finite U" for U
    using set_first_k [OF scored_facts(1,2) [OF that, of ix query], of ef] scored_facts(3) [OF that]
    unfolding best_of_def by metis
  let ?lt = "\<lambda>U. {y \<in> layer_item ix query ` U. rev_key y < rev_key (layer_item ix query v)}"
  have "card (?lt V) \<le> card (?lt W)"
    using assms(1,2) by (intro card_mono) auto
  also have "\<dots> < ef"
    using assms(4) unfolding set_best [OF assms(1)] by blast
  finally show ?thesis
    unfolding set_best [OF fin] using assms(3) by blast
qed

definition links_ok :: "hnsw_index \<Rightarrow> bool" where
  "links_ok ix \<longleftrightarrow> (\<forall>v layer. \<forall>j \<in> set (neighbors ix v layer). unat j < length (ix_nodes ix))"

text \<open>
  A scored node is queued, has dropped out of the results, or has all its neighbours
  scored; \<open>X\<close> holds the node whose neighbours are being visited.
\<close>

definition explored :: "hnsw_index \<Rightarrow> vector_ref \<Rightarrow> nat \<Rightarrow> nat set \<Rightarrow> beam \<Rightarrow> bool" where
  "explored ix query layer X b \<longleftrightarrow> (case b of (frontier, results, ws) \<Rightarrow>
     \<forall>v \<in> seen ws - X. layer_item ix query v \<in> set frontier \<or>
       layer_item ix query v \<notin> set results \<or>
       (\<forall>j \<in> set (neighbors ix v layer). unat j \<in> seen ws))"

definition beam_ok :: "hnsw_index \<Rightarrow> vector_ref \<Rightarrow> nat \<Rightarrow> beam \<Rightarrow> bool" where
  "beam_ok ix query ef b \<longleftrightarrow> (case b of (frontier, results, ws) \<Rightarrow>
     length (visited ws) = length (ix_nodes ix) \<and> workspace_ok ws \<and>
     results = best_of ix query ef (seen ws) \<and>
     sorted (map item_key frontier) \<and> set frontier \<subseteq> layer_item ix query ` seen ws)"

definition beam_seen :: "beam \<Rightarrow> nat set" where
  "beam_seen b = seen (snd (snd b))"

lemma finite_seen [simp]: "finite (seen ws)"
  by (rule finite_subset [of _ "{..<length (visited ws)}"]) (auto simp: seen_def)

lemma seen_range: "v \<in> seen ws \<Longrightarrow> v < length (visited ws)"
  by (simp add: seen_def)

lemma visit_neighbor_ok:
  assumes "beam_ok ix query ef b" "explored ix query layer X b" "0 < ef" "unat j < length (ix_nodes ix)"
  shows "beam_ok ix query ef (visit_neighbor ix query ef b j)"
    "explored ix query layer X (visit_neighbor ix query ef b j)"
    "beam_seen (visit_neighbor ix query ef b j) = insert (unat j) (beam_seen b)"
proof -
  obtain frontier results ws where b: "b = (frontier, results, ws)" by (cases b)
  obtain fresh ws' where v: "workspace_visit ws (unat j) = (fresh, ws')"
    by (cases "workspace_visit ws (unat j)")
  note visit = workspace_visit_seen [OF v]
  have len: "length (visited ws) = length (ix_nodes ix)"
    using assms(1) by (simp add: beam_ok_def b)
  have seen': "seen ws' = insert (unat j) (seen ws)"
    using visit(2) assms(4) len by simp
  let ?item = "layer_item ix query (unat j)"
  have "beam_ok ix query ef (visit_neighbor ix query ef b j) \<and>
    explored ix query layer X (visit_neighbor ix query ef b j) \<and>
    beam_seen (visit_neighbor ix query ef b j) = insert (unat j) (beam_seen b)"
  proof (cases fresh)
    case False
    then have same: "visit_neighbor ix query ef b j = b"
      using v visit_unvisited(2) by (auto simp: visit_neighbor_def b)
    have "unat j \<in> seen ws"
      using False visit(1) assms(4) len by simp
    then show ?thesis
      using assms(1,2) unfolding same by (auto simp: b beam_seen_def)
  next
    case True
    have new: "unat j \<notin> seen ws"
      using True visit(1) by simp
    define q where "q \<longleftrightarrow> length results < ef \<or>
      is_some_and (heap_peek results) (\<lambda>worst. item_cmp ?item worst = Greater)"
    define results' where "results' = best_of ix query ef (seen ws')"
    have res: "results = best_of ix query ef (seen ws)"
      using assms(1) by (simp add: beam_ok_def b)
    have step: "results' = (if q then let r = heap_push reverse_item_cmp ?item results in
        if length r > ef then heap_pop r else r else results)"
      using best_of_step [OF finite_seen new assms(3) res] unfolding results'_def seen' q_def .
    have eq: "visit_neighbor ix query ef b j =
        (if q then heap_push item_cmp ?item frontier else frontier, results', ws')"
      by (simp add: visit_neighbor_def b v True step q_def [symmetric] Let_def)
    have drop: "layer_item ix query u \<notin> set results'" if "u \<in> seen ws" "layer_item ix query u \<notin> set results" for u
      using that best_of_mono [of "seen ws'" "seen ws" u ix query ef] seen' res results'_def by auto
    have ok: "beam_ok ix query ef (visit_neighbor ix query ef b j)"
      using assms(1) visit(3,4) unfolding eq
      by (auto simp: beam_ok_def b results'_def seen' item.heap_push_insort sorted_insort_key set_insort_key)
    moreover have "explored ix query layer X (visit_neighbor ix query ef b j)"
      unfolding explored_def eq prod.case
    proof
      fix u assume u: "u \<in> seen ws' - X"
      show "layer_item ix query u \<in> set (if q then heap_push item_cmp ?item frontier else frontier) \<or>
        layer_item ix query u \<notin> set results' \<or> (\<forall>j \<in> set (neighbors ix u layer). unat j \<in> seen ws')"
      proof (cases "u = unat j")
        case True
        have "?item \<notin> set results"
          using res new scored_facts(3) [of "seen ws" ix query]
          by (auto simp: best_of_def layer_item_inj dest!: in_set_takeD)
        then show ?thesis
          using True step by (auto simp: item.heap_push_insort set_insort_key)
      next
        case False
        then have "u \<in> seen ws - X" using u seen' by auto
        then show ?thesis
          using assms(2) drop [of u] seen'
          by (auto simp: explored_def b item.heap_push_insort set_insort_key)
      qed
    qed
    moreover have "beam_seen (visit_neighbor ix query ef b j) = insert (unat j) (beam_seen b)"
      unfolding eq by (simp add: beam_seen_def b seen')
    ultimately show ?thesis by blast
  qed
  then show "beam_ok ix query ef (visit_neighbor ix query ef b j)"
    "explored ix query layer X (visit_neighbor ix query ef b j)"
    "beam_seen (visit_neighbor ix query ef b j) = insert (unat j) (beam_seen b)"
    by blast+
qed

lemma visit_all_ok:
  assumes "beam_ok ix query ef b" "explored ix query layer X b" "0 < ef"
    and "\<forall>j \<in> set ns. unat j < length (ix_nodes ix)"
  shows "beam_ok ix query ef (foldl (visit_neighbor ix query ef) b ns) \<and>
    explored ix query layer X (foldl (visit_neighbor ix query ef) b ns) \<and>
    beam_seen (foldl (visit_neighbor ix query ef) b ns) = unat ` set ns \<union> beam_seen b"
  using assms
proof (induction ns arbitrary: b)
  case Nil
  then show ?case by simp
next
  case (Cons n ns)
  note step = visit_neighbor_ok [OF Cons.prems(1,2,3), of n]
  have "unat n < length (ix_nodes ix)"
    using Cons.prems(4) by simp
  then show ?case
    using Cons.IH [of "visit_neighbor ix query ef b n"] Cons.prems(3,4) step by auto
qed

text \<open>Every scored node is reached from the entry along the links of the layer.\<close>

definition layer_edges :: "hnsw_index \<Rightarrow> nat \<Rightarrow> (nat \<times> nat) set" where
  "layer_edges ix layer = {(i, unat j) | i j. j \<in> set (neighbors ix i layer)}"

lemma search_loop_ok:
  assumes "beam_ok ix query ef b" "explored ix query layer {} b" "0 < ef" "links_ok ix"
    and "\<forall>v \<in> beam_seen b. (entry, v) \<in> (layer_edges ix layer)\<^sup>*"
  shows "(case search_loop ix query ef layer b of (frontier, results, ws) \<Rightarrow>
    workspace_ok ws \<and> results = best_of ix query ef (seen ws) \<and> beam_seen b \<subseteq> seen ws \<and>
    (\<forall>v \<in> seen ws. v < length (ix_nodes ix) \<and> (entry, v) \<in> (layer_edges ix layer)\<^sup>*) \<and>
    (\<forall>v \<in> seen ws. layer_item ix query v \<in> set results \<longrightarrow>
       (\<forall>j \<in> set (neighbors ix v layer). unat j \<in> seen ws)))"
  using assms
proof (induction ix query ef layer b rule: search_loop.induct)
  case (1 ix query ef layer frontier results ws)
  let ?b = "(frontier, results, ws)"
  have ok: "workspace_ok ws" "results = best_of ix query ef (seen ws)" "sorted (map item_key frontier)"
    "length (visited ws) = length (ix_nodes ix)" "set frontier \<subseteq> layer_item ix query ` seen ws"
    using 1(2) by (simp_all add: beam_ok_def)
  have range: "v < length (ix_nodes ix)" if "v \<in> seen ws" for v
    using seen_range [OF that] ok(4) by simp
  have closed: "\<forall>j \<in> set (neighbors ix v layer). unat j \<in> seen ws"
    if "v \<in> seen ws" "layer_item ix query v \<in> set results" "layer_item ix query v \<notin> set frontier" for v
    using 1(3) that by (auto simp: explored_def)
  show ?case
  proof (cases "frontier = []")
    case True
    then have "search_loop ix query ef layer ?b = ?b"
      by (subst search_loop.simps) (simp add: heap_peek_def)
    then show ?thesis
      using ok range closed True 1(6) by (simp add: beam_seen_def)
  next
    case False
    define c where "c = last frontier"
    have peek: "heap_peek frontier = Some c"
      using False by (simp add: heap_peek_def c_def)
    have fr: "frontier = heap_pop frontier @ [c]"
      using False by (simp add: heap_pop_def c_def)
    have sub: "set (heap_pop frontier) \<subseteq> set frontier"
      by (auto simp: heap_pop_def dest: in_set_butlastD)
    define stop where "stop \<longleftrightarrow> length results \<ge> ef \<and>
      is_some_and (heap_peek results) (\<lambda>worst. item_cmp c worst = Less)"
    show ?thesis
    proof (cases stop)
      case True
      then have loop: "search_loop ix query ef layer ?b = (heap_pop frontier, results, ws)"
        by (subst search_loop.simps) (simp add: peek stop_def)
      have ne: "results \<noteq> []" and worst: "item_key c < item_key (last results)"
        using True by (auto simp: stop_def heap_peek_def item.cmp_Less split: if_splits)
      have "layer_item ix query v \<notin> set frontier" if "layer_item ix query v \<in> set results" for v
      proof
        let ?i = "layer_item ix query v"
        assume "?i \<in> set frontier"
        then have "item_key ?i \<le> item_key c"
          using sorted_map_last [OF ok(3)] by (simp add: c_def)
        moreover have "sorted (map rev_key results)"
          unfolding ok(2) best_of_def by (rule sorted_first_k)
        then have "rev_key ?i \<le> rev_key (last results)"
          using that by (rule sorted_map_last)
        ultimately show False
          using worst rev_key_less [of "last results" ?i] by auto
      qed
      then show ?thesis
        unfolding loop using ok range closed 1(6) by (simp add: beam_seen_def)
    next
      case False
      let ?b' = "(heap_pop frontier, results, ws)"
      let ?ns = "neighbors ix (hi_index c) layer"
      have loop: "search_loop ix query ef layer ?b =
          search_loop ix query ef layer (foldl (visit_neighbor ix query ef) ?b' ?ns)"
        using False by (subst search_loop.simps) (simp only: peek stop_def option.case if_False)
      obtain u where u: "u \<in> seen ws" "c = layer_item ix query u"
        using ok(5) fr by (metis image_iff in_set_conv_decomp subsetD)
      have pop_sorted: "sorted (map item_key (heap_pop frontier))"
        using ok(3) by (metis fr map_append sorted_append)
      have "beam_ok ix query ef ?b'"
        using 1(2) sub pop_sorted by (auto simp: beam_ok_def)
      moreover have "explored ix query layer {u} ?b'"
      proof -
        have "layer_item ix query v \<in> set (heap_pop frontier)"
          if "layer_item ix query v \<in> set frontier" "v \<noteq> u" for v
          using that u by (subst (asm) fr) (auto simp: layer_item_inj)
        then show ?thesis
          using 1(3) by (auto simp: explored_def)
      qed
      moreover have "\<forall>j \<in> set ?ns. unat j < length (ix_nodes ix)"
        using 1(5) by (simp add: links_ok_def)
      ultimately have all: "beam_ok ix query ef (foldl (visit_neighbor ix query ef) ?b' ?ns)"
        "explored ix query layer {u} (foldl (visit_neighbor ix query ef) ?b' ?ns)"
        "beam_seen (foldl (visit_neighbor ix query ef) ?b' ?ns) = unat ` set ?ns \<union> seen ws"
        using visit_all_ok [of ix query ef ?b' layer "{u}" ?ns] 1(4) by (auto simp: beam_seen_def)
      have exp: "explored ix query layer {} (foldl (visit_neighbor ix query ef) ?b' ?ns)"
        using all(2,3) u by (auto simp: explored_def beam_seen_def split: prod.splits)
      have reach: "\<forall>v \<in> beam_seen (foldl (visit_neighbor ix query ef) ?b' ?ns).
          (entry, v) \<in> (layer_edges ix layer)\<^sup>*"
      proof
        fix v assume "v \<in> beam_seen (foldl (visit_neighbor ix query ef) ?b' ?ns)"
        then consider "v \<in> seen ws" | "v \<in> unat ` set ?ns"
          using all(3) by blast
        then show "(entry, v) \<in> (layer_edges ix layer)\<^sup>*"
        proof cases
          case 2
          then have "(u, v) \<in> layer_edges ix layer"
            using u by (auto simp: layer_edges_def)
          then show ?thesis
            using 1(6) u by (auto simp: beam_seen_def intro: rtrancl_into_rtrancl)
        qed (use 1(6) in \<open>simp add: beam_seen_def\<close>)
      qed
      show ?thesis
        using 1(1) [OF peek _ all(1) exp 1(4,5) reach] False all(3)
        unfolding loop by (auto simp: stop_def beam_seen_def split: prod.splits)
    qed
  qed
qed

lemma search_layer_ok:
  assumes "workspace_ok ws" "links_ok ix" "entry < length (ix_nodes ix)" "0 < ef"
    and "search_layer ix query entry ef layer ws = (items, ws')"
  obtains V where "entry \<in> V" "finite V" "items = sort_items ix (best_of ix query ef V)" "workspace_ok ws'"
    "\<And>v. v \<in> V \<Longrightarrow> v < length (ix_nodes ix) \<and> (entry, v) \<in> (layer_edges ix layer)\<^sup>*"
    "\<And>v j. v \<in> V \<Longrightarrow> layer_item ix query v \<in> set items \<Longrightarrow> j \<in> set (neighbors ix v layer) \<Longrightarrow> unat j \<in> V"
proof -
  let ?ws1 = "workspace_begin ws (length (ix_nodes ix))"
  obtain fresh ws2 where v: "workspace_visit ?ws1 entry = (fresh, ws2)"
    by (cases "workspace_visit ?ws1 entry")
  note start = workspace_begin_fresh [OF assms(1), of "length (ix_nodes ix)"]
  note visit = workspace_visit_seen [OF v]
  have seen2: "seen ws2 = {entry}"
    using visit(2) start(1,2) assms(3) by simp
  let ?item = "layer_item ix query entry"
  let ?b = "([?item], [?item], ws2)"
  have "best_of ix query ef {entry} = [?item]"
    using assms(4) by (simp add: best_of_def scored_def)
  then have ok: "beam_ok ix query ef ?b"
    using seen2 visit(3,4) start(2,3) by (simp add: beam_ok_def)
  have exp: "explored ix query layer {} ?b"
    using seen2 by (simp add: explored_def)
  have reach: "\<forall>v \<in> beam_seen ?b. (entry, v) \<in> (layer_edges ix layer)\<^sup>*"
    using seen2 by (simp add: beam_seen_def)
  obtain frontier results ws3 where loop: "search_loop ix query ef layer ?b = (frontier, results, ws3)"
    by (cases "search_loop ix query ef layer ?b")
  have items: "items = sort_items ix results" "ws' = ws3"
    using assms(5) loop by (simp_all add: search_layer_def Let_def v)
  have set_items: "set items = set results"
    by (simp add: items(1) sort_items_def sort_by_def set_insert_by_fold)
  note inv = search_loop_ok [OF ok exp assms(4,2) reach, unfolded loop prod.case]
  show thesis
  proof (rule that [of "seen ws3"])
    show "entry \<in> seen ws3"
      using inv seen2 by (simp add: beam_seen_def)
    show "items = sort_items ix (best_of ix query ef (seen ws3))"
      using inv items by simp
  qed (use inv items(2) set_items in auto)
qed

section \<open>The search of an index\<close>

definition max_pooled_search_workspaces :: nat where
  "max_pooled_search_workspaces = 8"

definition take_search_workspace :: "build_workspace list \<Rightarrow> build_workspace \<times> build_workspace list" where
  "take_search_workspace pool = (if pool = [] then (workspace_new, []) else (last pool, butlast pool))"

definition return_search_workspace :: "build_workspace list \<Rightarrow> build_workspace \<Rightarrow> build_workspace list" where
  "return_search_workspace pool ws =
     (if length pool < max_pooled_search_workspaces then pool @ [ws] else pool)"

definition descend :: "hnsw_index \<Rightarrow> vector_ref \<Rightarrow> nat \<Rightarrow> nat \<Rightarrow> nat \<Rightarrow> nat" where
  "descend ix query start high low =
     foldl (greedy_closest ix query) start (rev [low..<Suc high])"

definition hnsw_search ::
    "build_workspace list \<Rightarrow> hnsw_index \<Rightarrow> f32 list \<Rightarrow> nat \<Rightarrow> nat \<Rightarrow>
     (hnsw_hit list \<times> build_workspace list) result" where
  "hnsw_search pool ix query k ef_search =
     (if k = 0 then Inl (InvalidQuery ''k must be greater than zero'')
      else if ef_search < k then Inl (InvalidQuery ''ef_search must be at least k'')
      else if length query \<noteq> ix_dimension ix
      then Inl (InvalidDimension (ix_dimension ix) (length query))
      else rbind (prepare (ix_metric ix) query) (\<lambda>v.
        let q = prepared_ref (prepared_new v (arena_storage (ix_vectors ix))) in
        case ix_entry_point ix of None \<Rightarrow> Inr ([], pool)
        | Some entry \<Rightarrow>
            (let current = descend ix q entry (ix_max_level ix) 1;
                 (ws, pool1) = take_search_workspace pool;
                 (candidates, ws') = search_layer ix q current ef_search 0 ws
             in Inr (map (\<lambda>item. \<lparr>hh_id = ix_ids ix ! hi_index item, hh_score = hi_score item\<rparr>)
                   (take k candidates),
                 return_search_workspace pool1 ws'))))"

definition graph_ok :: "hnsw_index \<Rightarrow> bool" where
  "graph_ok ix \<longleftrightarrow> links_ok ix \<and> length (ix_ids ix) = length (ix_nodes ix) \<and> distinct (ix_ids ix) \<and>
     (case ix_entry_point ix of None \<Rightarrow> ix_nodes ix = [] | Some e \<Rightarrow> e < length (ix_nodes ix))"

definition pool_ok :: "build_workspace list \<Rightarrow> bool" where
  "pool_ok pool \<longleftrightarrow> list_all workspace_ok pool"

lemma pool_take:
  assumes "pool_ok pool" "take_search_workspace pool = (ws, pool1)"
  shows "workspace_ok ws" "pool_ok pool1"
  using assms
  by (auto simp: take_search_workspace_def pool_ok_def list_all_iff workspace_ok_def workspace_new_def
      dest: in_set_butlastD split: if_splits)

lemma pool_return: "pool_ok pool \<Longrightarrow> workspace_ok ws \<Longrightarrow> pool_ok (return_search_workspace pool ws)"
  by (simp add: return_search_workspace_def pool_ok_def)

lemma reach_range:
  assumes "links_ok ix" "(i, j) \<in> (layer_edges ix layer)\<^sup>*" "i < length (ix_nodes ix)"
  shows "j < length (ix_nodes ix)"
  using assms(2,3,1) by (induction rule: rtrancl_induct) (auto simp: layer_edges_def links_ok_def)

lemma descend_range:
  assumes "links_ok ix" "start < length (ix_nodes ix)"
  shows "descend ix query start high low < length (ix_nodes ix)"
proof -
  have "foldl (greedy_closest ix query) start ls < length (ix_nodes ix)" for ls
    using assms(2)
  proof (induction ls arbitrary: start)
    case (Cons l ls)
    have "greedy_closest ix query start l < length (ix_nodes ix)"
      using greedy_closest_reaches [of start ix query l] reach_range [OF assms(1)] Cons.prems
      by (auto simp: layer_edges_def)
    then show ?case by (simp add: Cons.IH)
  qed simp
  then show ?thesis by (simp add: descend_def)
qed

definition id_key :: "hnsw_index \<Rightarrow> heap_item \<Rightarrow> int \<times> string" where
  "id_key ix i = (- f32_key (hi_score i), ix_ids ix ! hi_index i)"

lemma sort_items_key: "sort_items ix items = sort_key (id_key ix) items"
proof -
  have "keyed_cmp (\<lambda>l r. compare_scored (hi_score l) (ix_ids ix ! hi_index l) (hi_score r) (ix_ids ix ! hi_index r))
      (id_key ix)"
    by unfold_locales
      (auto simp: compare_scored_def id_key_def f32_total_cmp_def cmp_of_def then_with_def)
  then show ?thesis
    unfolding sort_items_def by (rule keyed_cmp.sort_by_sort_key)
qed

lemma id_key_layer_item: "id_key ix (layer_item ix query n) = node_key ix query n"
  by (simp add: id_key_def layer_item_def node_key_def)

definition node_hit :: "hnsw_index \<Rightarrow> vector_ref \<Rightarrow> nat \<Rightarrow> hnsw_hit" where
  "node_hit ix query n = \<lparr>hh_id = ix_ids ix ! n, hh_score = score_node ix query n\<rparr>"

lemma hnsw_search_run:
  assumes "graph_ok ix" "pool_ok pool" "0 < k" "k \<le> ef" "length query = ix_dimension ix"
    and "prepare (ix_metric ix) query = Inr v" "ix_entry_point ix = Some e"
  defines "q \<equiv> prepared_ref (prepared_new v (arena_storage (ix_vectors ix)))"
  defines "current \<equiv> descend ix q e (ix_max_level ix) 1"
  obtains V pool' where "current \<in> V" "finite V" "pool_ok pool'"
    "hnsw_search pool ix query k ef = Inr (map (node_hit ix q)
       (take k (map hi_index (sort_items ix (best_of ix q ef V)))), pool')"
    "\<And>u. u \<in> V \<Longrightarrow> u < length (ix_nodes ix) \<and> (current, u) \<in> (layer_edges ix 0)\<^sup>*"
    "\<And>u j. u \<in> V \<Longrightarrow> layer_item ix q u \<in> set (best_of ix q ef V) \<Longrightarrow>
       j \<in> set (neighbors ix u 0) \<Longrightarrow> unat j \<in> V"
proof -
  obtain ws pool1 where ws: "take_search_workspace pool = (ws, pool1)"
    by (cases "take_search_workspace pool")
  obtain items ws' where items: "search_layer ix q current ef 0 ws = (items, ws')"
    by (cases "search_layer ix q current ef 0 ws")
  have links: "links_ok ix" and "e < length (ix_nodes ix)"
    using assms(1,7) by (auto simp: graph_ok_def)
  then have range: "current < length (ix_nodes ix)"
    by (simp add: current_def descend_range)
  have ef: "0 < ef" using assms(3,4) by simp
  obtain V where V: "current \<in> V" "finite V" "items = sort_items ix (best_of ix q ef V)" "workspace_ok ws'"
    "\<And>u. u \<in> V \<Longrightarrow> u < length (ix_nodes ix) \<and> (current, u) \<in> (layer_edges ix 0)\<^sup>*"
    "\<And>u j. u \<in> V \<Longrightarrow> layer_item ix q u \<in> set items \<Longrightarrow> j \<in> set (neighbors ix u 0) \<Longrightarrow> unat j \<in> V"
    using search_layer_ok [OF pool_take(1) [OF assms(2) ws] links range ef items] by metis
  have item: "i = layer_item ix q (hi_index i)" if "i \<in> set items" for i
    using that V(2,3) scored_facts(3) [of V ix q]
    by (auto simp: sort_items_key best_of_def dest!: in_set_takeD)
  have "map (\<lambda>item. \<lparr>hh_id = ix_ids ix ! hi_index item, hh_score = hi_score item\<rparr>) (take k items) =
      map (node_hit ix q) (take k (map hi_index items))"
    using item by (auto simp: take_map node_hit_def layer_item_def dest!: in_set_takeD)
      (metis heap_item.select_convs(2))
  then have run: "hnsw_search pool ix query k ef = Inr (map (node_hit ix q) (take k (map hi_index items)),
      return_search_workspace pool1 ws')"
    using assms(3-7) ws items by (simp add: hnsw_search_def Let_def q_def [symmetric] current_def)
  have "pool_ok (return_search_workspace pool1 ws')"
    using pool_take(2) [OF assms(2) ws] V(4) by (rule pool_return)
  moreover have "set (best_of ix q ef V) = set items"
    by (simp add: V(3) sort_items_key)
  ultimately show thesis
    using that [of V "return_search_workspace pool1 ws'"] V run by auto
qed

lemma best_of_outside:
  assumes "finite V" "u \<in> V" "layer_item ix query u \<notin> set (best_of ix query ef V)"
  shows "length (best_of ix query ef V) = ef"
    "h \<in> set (best_of ix query ef V) \<Longrightarrow> rev_key h < rev_key (layer_item ix query u)"
proof -
  note facts = scored_facts [OF assms(1), of ix query]
  have u: "layer_item ix query u \<in> set (scored ix query V)"
    using facts(3) assms(2) by simp
  show "length (best_of ix query ef V) = ef"
  proof (rule ccontr)
    assume "length (best_of ix query ef V) \<noteq> ef"
    then have "best_of ix query ef V = sort_key rev_key (scored ix query V)"
      by (simp add: best_of_def min_def split: if_splits)
    then show False
      using assms(3) u by simp
  qed
  show "rev_key h < rev_key (layer_item ix query u)" if "h \<in> set (best_of ix query ef V)"
    using first_k_best [OF facts(1,2), of h ef "layer_item ix query u"] u assms(3) that
    unfolding best_of_def by blast
qed

lemma search_layer_items:
  assumes "workspace_ok ws" "links_ok ix" "entry < length (ix_nodes ix)" "0 < ef"
    and "search_layer ix query entry ef layer ws = (items, ws')"
  shows "workspace_ok ws'" "distinct (map hi_index items)"
    "\<And>i. i \<in> set items \<Longrightarrow> hi_index i < length (ix_nodes ix) \<and> (entry, hi_index i) \<in> (layer_edges ix layer)\<^sup>*"
proof -
  obtain V where V: "finite V" "items = sort_items ix (best_of ix query ef V)" "workspace_ok ws'"
    "\<And>v. v \<in> V \<Longrightarrow> v < length (ix_nodes ix) \<and> (entry, v) \<in> (layer_edges ix layer)\<^sup>*"
    using search_layer_ok [OF assms] by metis
  note facts = scored_facts [OF V(1), of ix query]
  have best: "\<exists>v \<in> V. i = layer_item ix query v" if "i \<in> set items" for i
    using that facts(3) by (auto simp: V(2) sort_items_key best_of_def dest!: in_set_takeD)
  have "distinct items"
    using facts(1) by (simp add: V(2) sort_items_key best_of_def)
  moreover have "inj_on hi_index (set items)"
    by (rule inj_onI) (metis best hi_index_layer_item)
  ultimately show "distinct (map hi_index items)"
    by (simp add: distinct_map)
  show "workspace_ok ws'" by (rule V(3))
  show "hi_index i < length (ix_nodes ix) \<and> (entry, hi_index i) \<in> (layer_edges ix layer)\<^sup>*" if "i \<in> set items" for i
    using best [OF that] V(4) by auto
qed

text \<open>
  C13: for every width, the search of a layer ends in a local optimum. It returns at
  most \<open>ef\<close> different nodes reachable from the entry, with their own scores, best first.
  Each neighbour of a returned node, and the entry, is returned too, unless \<open>ef\<close> nodes
  are returned and all of them rank before it.
\<close>

theorem search_layer_local_optimum:
  assumes "workspace_ok ws" "links_ok ix" "entry < length (ix_nodes ix)" "0 < ef"
    and "search_layer ix query entry ef layer ws = (items, ws')"
  shows "distinct (map hi_index items) \<and> length items \<le> ef \<and> sorted (map (id_key ix) items) \<and>
    (\<forall>i \<in> set items. i = layer_item ix query (hi_index i) \<and> hi_index i < length (ix_nodes ix) \<and>
       (entry, hi_index i) \<in> (layer_edges ix layer)\<^sup>*) \<and>
    (\<forall>n \<in> insert entry {unat j | i j. i \<in> set items \<and> j \<in> set (neighbors ix (hi_index i) layer)}.
       n \<in> hi_index ` set items \<or>
       length items = ef \<and> (\<forall>h \<in> set items. rev_key h < rev_key (layer_item ix query n)))"
proof -
  obtain V where V: "entry \<in> V" "finite V" "items = sort_items ix (best_of ix query ef V)" "workspace_ok ws'"
    "\<And>v. v \<in> V \<Longrightarrow> v < length (ix_nodes ix) \<and> (entry, v) \<in> (layer_edges ix layer)\<^sup>*"
    "\<And>v j. v \<in> V \<Longrightarrow> layer_item ix query v \<in> set items \<Longrightarrow> j \<in> set (neighbors ix v layer) \<Longrightarrow> unat j \<in> V"
    using search_layer_ok [OF assms] by metis
  let ?best = "best_of ix query ef V"
  note facts = scored_facts [OF V(2), of ix query]
  have set_items: "set items = set ?best" and len_items: "length items = length ?best"
    by (simp_all add: V(3) sort_items_key)
  have best: "\<exists>v \<in> V. i = layer_item ix query v" if "i \<in> set items" for i
    using that facts(3) unfolding set_items best_of_def by (auto dest!: in_set_takeD)
  have "distinct (map hi_index items)"
    by (rule search_layer_items(2) [OF assms])
  moreover have "length items \<le> ef"
    by (simp add: len_items best_of_def)
  moreover have "sorted (map (id_key ix) items)"
    by (simp add: V(3) sort_items_key)
  moreover have "\<forall>i \<in> set items. i = layer_item ix query (hi_index i) \<and> hi_index i < length (ix_nodes ix) \<and>
      (entry, hi_index i) \<in> (layer_edges ix layer)\<^sup>*"
    using best V(5) by fastforce
  moreover have "n \<in> hi_index ` set items \<or>
      length items = ef \<and> (\<forall>h \<in> set items. rev_key h < rev_key (layer_item ix query n))" if "n \<in> V" for n
  proof (cases "layer_item ix query n \<in> set ?best")
    case True
    then show ?thesis unfolding set_items by (metis hi_index_layer_item imageI)
  next
    case False
    then show ?thesis
      using best_of_outside [OF V(2) that False] unfolding set_items len_items by blast
  qed
  moreover have "unat j \<in> V" if "i \<in> set items" "j \<in> set (neighbors ix (hi_index i) layer)" for i j
    using best [OF that(1)] that V(6) by auto
  ultimately show ?thesis
    using V(1) by blast
qed

lemma best_of_all: "finite V \<Longrightarrow> card V \<le> ef \<Longrightarrow> set (best_of ix query ef V) = layer_item ix query ` V"
  using scored_facts(3,4) [of V ix query] by (simp add: best_of_def)

text \<open>
  C14: on a graph whose base layer is connected, a search that is as wide as the graph
  returns exactly the \<open>k\<close> best nodes by the index's own scores, ties by ID.
\<close>

theorem hnsw_search_exact:
  assumes "graph_ok ix" "pool_ok pool" "0 < k" "k \<le> ef" "length query = ix_dimension ix"
    and "prepare (ix_metric ix) query = Inr v"
    and "length (ix_nodes ix) \<le> ef"
    and "\<forall>i < length (ix_nodes ix). \<forall>j < length (ix_nodes ix). (i, j) \<in> (layer_edges ix 0)\<^sup>*"
  shows "\<exists>pool'. pool_ok pool' \<and> hnsw_search pool ix query k ef =
    (let q = prepared_ref (prepared_new v (arena_storage (ix_vectors ix)))
     in Inr (map (node_hit ix q) (first_k (node_key ix q) k [0..<length (ix_nodes ix)]), pool'))"
proof (cases "ix_entry_point ix")
  case None
  then show ?thesis
    using assms by (auto simp: graph_ok_def hnsw_search_def Let_def)
next
  case (Some e)
  let ?n = "length (ix_nodes ix)"
  define q where "q = prepared_ref (prepared_new v (arena_storage (ix_vectors ix)))"
  define current where "current = descend ix q e (ix_max_level ix) 1"
  obtain V pool' where V: "current \<in> V" "finite V" "pool_ok pool'"
    "hnsw_search pool ix query k ef = Inr (map (node_hit ix q)
       (take k (map hi_index (sort_items ix (best_of ix q ef V)))), pool')"
    "\<And>u. u \<in> V \<Longrightarrow> u < ?n \<and> (current, u) \<in> (layer_edges ix 0)\<^sup>*"
    "\<And>u j. u \<in> V \<Longrightarrow> layer_item ix q u \<in> set (best_of ix q ef V) \<Longrightarrow> j \<in> set (neighbors ix u 0) \<Longrightarrow> unat j \<in> V"
    using hnsw_search_run [OF assms(1-6) Some] unfolding q_def [symmetric] current_def [symmetric] by blast
  have "V \<subseteq> {..<?n}" using V(5) by auto
  then have card: "card V \<le> ef"
    using assms(7) card_mono [of "{..<?n}" V] by simp
  have closed: "w \<in> V" if "(u, w) \<in> (layer_edges ix 0)\<^sup>*" "u \<in> V" for u w
    using that
  proof (induction rule: rtrancl_induct)
    case (step y z)
    then show ?case
      using V(6) best_of_all [OF V(2) card, of ix q] by (auto simp: layer_edges_def)
  qed
  have all: "V = {0..<?n}"
  proof
    show "{0..<?n} \<subseteq> V"
      using closed V(1) V(5) [OF V(1)] assms(8) by (meson atLeastLessThan_iff subsetI)
  qed (use V(5) in auto)
  have "sort_items ix (best_of ix q ef V) = sort_key (id_key ix) (map (layer_item ix q) [0..<?n])"
    unfolding sort_items_key
  proof (rule sorted_key_unique [of "id_key ix"])
    show "set (sort_key (id_key ix) (best_of ix q ef V)) =
        set (sort_key (id_key ix) (map (layer_item ix q) [0..<?n]))"
      using best_of_all [OF V(2) card, of ix q] all by simp
    show "distinct (sort_key (id_key ix) (best_of ix q ef V))"
      using scored_facts(1) [OF V(2)] by (simp add: best_of_def)
    show "distinct (sort_key (id_key ix) (map (layer_item ix q) [0..<?n]))"
      by (auto simp: distinct_map inj_on_def layer_item_inj)
    show "inj_on (id_key ix) (set (sort_key (id_key ix) (best_of ix q ef V)))"
      using best_of_all [OF V(2) card, of ix q] all assms(1)
      by (auto simp: inj_on_def id_key_def layer_item_def graph_ok_def nth_eq_iff_index_eq)
  qed simp_all
  also have "\<dots> = map (layer_item ix q) (sort_key (node_key ix q) [0..<?n])"
    using map_sort_key [of "layer_item ix q" "id_key ix"] by (simp add: id_key_layer_item)
  finally have "map hi_index (sort_items ix (best_of ix q ef V)) = sort_key (node_key ix q) [0..<?n]"
    by (simp add: comp_def)
  then show ?thesis
    using V(3,4) by (auto simp: q_def Let_def)
qed

section \<open>Workspaces do not show\<close>

definition ws_rel :: "build_workspace \<Rightarrow> build_workspace \<Rightarrow> bool" where
  "ws_rel a b \<longleftrightarrow> length (visited a) = length (visited b) \<and> seen a = seen b"

definition beam_rel :: "beam \<Rightarrow> beam \<Rightarrow> bool" where
  "beam_rel a b \<longleftrightarrow> fst a = fst b \<and> fst (snd a) = fst (snd b) \<and> ws_rel (snd (snd a)) (snd (snd b))"

lemma workspace_visit_rel:
  assumes "ws_rel a b"
  shows "fst (workspace_visit a n) = fst (workspace_visit b n) \<and>
    ws_rel (snd (workspace_visit a n)) (snd (workspace_visit b n))"
proof -
  obtain f a' g b' where a: "workspace_visit a n = (f, a')" and b: "workspace_visit b n = (g, b')"
    by (metis surj_pair)
  show ?thesis
    using workspace_visit_seen(1,2,3) [OF a] workspace_visit_seen(1,2,3) [OF b] assms
    by (simp add: a b ws_rel_def)
qed

lemma visit_neighbor_rel:
  assumes "beam_rel a b"
  shows "beam_rel (visit_neighbor ix query ef a n) (visit_neighbor ix query ef b n)"
proof -
  obtain f r w w' where a: "a = (f, r, w)" and b: "b = (f, r, w')" and rel: "ws_rel w w'"
    using assms by (cases a; cases b) (auto simp: beam_rel_def)
  obtain x u u' where v: "workspace_visit w (unat n) = (x, u)" "workspace_visit w' (unat n) = (x, u')" "ws_rel u u'"
    using workspace_visit_rel [OF rel, of "unat n"]
    by (cases "workspace_visit w (unat n)"; cases "workspace_visit w' (unat n)") auto
  show ?thesis
    using v(3) by (simp add: visit_neighbor_def a b v(1,2) beam_rel_def Let_def)
qed

lemma visit_all_rel:
  "beam_rel a b \<Longrightarrow> beam_rel (foldl (visit_neighbor ix query ef) a ns) (foldl (visit_neighbor ix query ef) b ns)"
  by (induction ns arbitrary: a b) (simp_all add: visit_neighbor_rel)

lemma search_loop_rel:
  "beam_rel b b' \<Longrightarrow> beam_rel (search_loop ix query ef layer b) (search_loop ix query ef layer b')"
proof (induction ix query ef layer b arbitrary: b' rule: search_loop.induct)
  case (1 ix query ef layer frontier results ws)
  obtain ws' where b': "b' = (frontier, results, ws')" and rel: "ws_rel ws ws'"
    using 1(2) by (cases b') (auto simp: beam_rel_def)
  have pop: "beam_rel (heap_pop frontier, results, ws) (heap_pop frontier, results, ws')"
    using rel by (simp add: beam_rel_def)
  show ?case
  proof (cases "heap_peek frontier")
    case None
    then show ?thesis
      using rel unfolding b' by (subst (1 2) search_loop.simps) (simp add: beam_rel_def)
  next
    case (Some c)
    show ?thesis
    proof (cases "length results \<ge> ef \<and> is_some_and (heap_peek results) (\<lambda>worst. item_cmp c worst = Less)")
      case True
      then show ?thesis
        using pop unfolding b' by (subst (1 2) search_loop.simps) (simp add: Some)
    next
      case False
      have loop: "search_loop ix query ef layer (frontier, results, w) = search_loop ix query ef layer
          (foldl (visit_neighbor ix query ef) (heap_pop frontier, results, w) (neighbors ix (hi_index c) layer))" for w
        using False by (subst search_loop.simps) (simp only: Some option.case if_False)
      show ?thesis
        unfolding b' loop by (rule 1(1) [OF Some False visit_all_rel [OF pop]])
    qed
  qed
qed

lemma search_layer_rel:
  assumes "workspace_ok a" "workspace_ok b"
  shows "fst (search_layer ix query entry ef layer a) = fst (search_layer ix query entry ef layer b)"
proof -
  let ?n = "length (ix_nodes ix)"
  let ?item = "layer_item ix query entry"
  have "ws_rel (workspace_begin a ?n) (workspace_begin b ?n)"
    using workspace_begin_fresh [OF assms(1)] workspace_begin_fresh [OF assms(2)] by (simp add: ws_rel_def)
  then have "beam_rel ([?item], [?item], snd (workspace_visit (workspace_begin a ?n) entry))
      ([?item], [?item], snd (workspace_visit (workspace_begin b ?n) entry))"
    using workspace_visit_rel by (simp add: beam_rel_def)
  from search_loop_rel [OF this, of ix query ef layer] show ?thesis
    by (auto simp: search_layer_def Let_def beam_rel_def split: prod.splits)
qed

text \<open>
  C15: a pooled workspace left behind by any earlier search gives the same answer as a
  new one, also when its generation counter wraps around.
\<close>

theorem hnsw_search_pool:
  assumes "pool_ok pool" "pool_ok pool'"
  shows "rbind (hnsw_search pool ix query k ef) (\<lambda>r. Inr (fst r)) =
    rbind (hnsw_search pool' ix query k ef) (\<lambda>r. Inr (fst r))"
proof -
  obtain w p w' p' where w: "take_search_workspace pool = (w, p)" "take_search_workspace pool' = (w', p')"
    by (metis surj_pair)
  have ok: "workspace_ok w" "workspace_ok w'"
    using pool_take(1) assms w by blast+
  have run: "rbind (hnsw_search po ix query k ef) (\<lambda>r. Inr (fst r)) =
      rbind (hnsw_search po ix query k ef) (\<lambda>_. rbind (prepare (ix_metric ix) query) (\<lambda>v.
        let q = prepared_ref (prepared_new v (arena_storage (ix_vectors ix))) in
        case ix_entry_point ix of None \<Rightarrow> Inr []
        | Some e \<Rightarrow> Inr (map (\<lambda>item. \<lparr>hh_id = ix_ids ix ! hi_index item, hh_score = hi_score item\<rparr>)
            (take k (fst (search_layer ix q (descend ix q e (ix_max_level ix) 1) ef 0 u))))))"
    if "take_search_workspace po = (u, po')" for po u po'
    by (cases "prepare (ix_metric ix) query"; cases "ix_entry_point ix")
      (simp_all add: hnsw_search_def that Let_def split: prod.splits)
  have same: "rbind (hnsw_search pool ix query k ef) (\<lambda>_. m) = rbind (hnsw_search pool' ix query k ef) (\<lambda>_. m)" for m :: "hnsw_hit list result"
    by (cases "prepare (ix_metric ix) query"; cases "ix_entry_point ix")
      (simp_all add: hnsw_search_def Let_def split: prod.splits)
  show ?thesis
    unfolding run [OF w(1)] run [OF w(2)] search_layer_rel [OF ok] by (rule same)
qed

section \<open>A small graph\<close>

definition demo_index :: hnsw_index where
  "demo_index = \<lparr>ix_dimension = 1, ix_metric = DotProduct,
     ix_config = \<lparr>hc_m = 2, hc_ef_construction = 2\<rparr>,
     ix_nodes = [\<lparr>n_level = 0, range_start = 0, n_neighbors = [[1]]\<rparr>,
                 \<lparr>n_level = 0, range_start = 0, n_neighbors = [[0]]\<rparr>],
     ix_ids = [''a'', ''b''], ix_vectors = F32Arena [0x3f800000, 0x40000000],
     ix_entry_point = Some 0, ix_max_level = 0, ix_compact_graph = None\<rparr>"

lemma demo_index_nodes: "length (ix_nodes demo_index) = 2"
  by (simp add: demo_index_def)

lemma demo_index_neighbors:
  "neighbors demo_index v layer = (if layer = 0 \<and> v = 0 then [1] else if layer = 0 \<and> v = 1 then [0] else [])"
  by (cases v; cases "v - 1") (auto simp: neighbors_def demo_index_def)

lemma demo_index_links: "links_ok demo_index"
  by (auto simp: links_ok_def demo_index_neighbors demo_index_nodes)

lemma demo_index_graph: "graph_ok demo_index"
  using demo_index_links by (simp add: graph_ok_def) (simp add: demo_index_def)

theorem search_layer_local_optimum_witness:
  "length (fst (search_layer demo_index (F32Ref [0x3f800000]) 0 1 0 workspace_new)) \<le> 1"
proof -
  have "workspace_ok workspace_new"
    by (simp add: workspace_ok_def workspace_new_def)
  from search_layer_local_optimum [OF this demo_index_links, of 0 1 "F32Ref [0x3f800000]" 0
      "fst (search_layer demo_index (F32Ref [0x3f800000]) 0 1 0 workspace_new)"
      "snd (search_layer demo_index (F32Ref [0x3f800000]) 0 1 0 workspace_new)"]
  show ?thesis
    by (simp add: demo_index_nodes)
qed

theorem hnsw_search_exact_witness:
  "\<exists>pool' hits. hnsw_search [] demo_index [0x3f800000] 1 2 = Inr (hits, pool') \<and> length hits = 1"
proof -
  have "(i, j) \<in> (layer_edges demo_index 0)\<^sup>*" if "i < 2" "j < 2" for i j
  proof -
    have "(0, 1) \<in> layer_edges demo_index 0" "(1, 0) \<in> layer_edges demo_index 0"
      by (auto simp: layer_edges_def demo_index_neighbors)
    then show ?thesis
      using that by (cases i; cases j) (auto simp: less_Suc_eq numeral_2_eq_2)
  qed
  then have conn: "\<forall>i < length (ix_nodes demo_index). \<forall>j < length (ix_nodes demo_index).
      (i, j) \<in> (layer_edges demo_index 0)\<^sup>*"
    by (simp add: demo_index_nodes)
  have prep: "prepare (ix_metric demo_index) [0x3f800000] = Inr [0x3f800000]"
    by code_simp
  have "\<exists>pool'. pool_ok pool' \<and> hnsw_search [] demo_index [0x3f800000] 1 2 =
    (let q = prepared_ref (prepared_new [0x3f800000] (arena_storage (ix_vectors demo_index)))
     in Inr (map (node_hit demo_index q) (first_k (node_key demo_index q) 1 [0..<length (ix_nodes demo_index)]), pool'))"
    by (rule hnsw_search_exact [OF demo_index_graph _ _ _ _ prep _ conn])
      (simp_all add: demo_index_nodes pool_ok_def demo_index_def)
  then obtain pool' where run: "hnsw_search [] demo_index [0x3f800000] 1 2 =
      Inr (map (node_hit demo_index (prepared_ref (prepared_new [0x3f800000] (arena_storage (ix_vectors demo_index)))))
        (first_k (node_key demo_index (prepared_ref (prepared_new [0x3f800000] (arena_storage (ix_vectors demo_index)))))
          1 [0..<length (ix_nodes demo_index)]), pool')"
    unfolding Let_def by blast
  have len: "length (map g (first_k f 1 [0..<length (ix_nodes demo_index)])) = 1"
    for g :: "nat \<Rightarrow> hnsw_hit" and f :: "nat \<Rightarrow> int \<times> string"
    unfolding length_map length_take length_sort length_upt demo_index_nodes by simp
  show ?thesis
    unfolding run using len by blast
qed

theorem hnsw_search_pool_witness:
  "rbind (hnsw_search [\<lparr>visited = [7, -1, 3], generation = -1\<rparr>] demo_index [0x3f800000] 1 2) (\<lambda>r. Inr (fst r)) =
   rbind (hnsw_search [] demo_index [0x3f800000] 1 2) (\<lambda>r. Inr (fst r))"
  by (rule hnsw_search_pool) (simp_all add: pool_ok_def workspace_ok_def)

end
