(* ===== verification/HnswBuild.thy ===== *)
theory HnswBuild
  imports HnswSearch
begin

text \<open>
  Building the graph index (\<open>src/hnsw.rs\<close>): the level of a point, the diversity
  heuristic, insertion one by one and in planned batches, pruning, and the compact
  representation of the finished graph.
\<close>

section \<open>Configuration and levels\<close>

definition max_level_limit :: nat where
  "max_level_limit = 32"

definition validate_config :: "nat \<Rightarrow> hnsw_config \<Rightarrow> unit result" where
  "validate_config dim cfg =
     (if dim = 0 then Inl (InvalidConfig ''dimension must be greater than zero'')
      else if hc_m cfg < 2 then Inl (InvalidConfig ''HNSW m must be at least 2'')
      else if hc_ef_construction cfg < hc_m cfg
      then Inl (InvalidConfig ''HNSW ef_construction must be at least m'')
      else Inr ())"

definition max_connections :: "hnsw_config \<Rightarrow> nat \<Rightarrow> nat" where
  "max_connections cfg layer = (if layer = 0 then saturating_mul (hc_m cfg) 2 else hc_m cfg)"

definition fnv_hash :: "bytes \<Rightarrow> u64" where
  "fnv_hash bs = foldl (\<lambda>hash byte. (hash XOR ucast byte) * 0x00000100000001b3) 0xcbf29ce484222325 bs"

text \<open>The loop of \<open>deterministic_level\<close>, with the levels that are left.\<close>

fun level_loop :: "nat \<Rightarrow> u64 \<Rightarrow> u64 \<Rightarrow> nat" where
  "level_loop 0 hash threshold = 0"
| "level_loop (Suc n) hash threshold =
     (if hash < threshold
      then Suc (level_loop n (word_rotl 17 hash * 0x9e3779b97f4a7c15) threshold) else 0)"

definition deterministic_level :: "string \<Rightarrow> nat \<Rightarrow> nat" where
  "deterministic_level i m =
     level_loop max_level_limit (fnv_hash (as_bytes i)) (max ((- 1) div of_nat m) 1)"

section \<open>Insertion\<close>

record prepared_point =
  pp_id :: string
  pp_vector :: prepared_vector
  pp_level :: nat

type_synonym insertion_plan = "heap_item list list"

fun select_loop ::
    "hnsw_index \<Rightarrow> nat \<Rightarrow> heap_item list \<Rightarrow> heap_item list \<Rightarrow> heap_item list \<Rightarrow> heap_item list" where
  "select_loop ix limit selected rejected [] = selected @ take (limit - length selected) rejected"
| "select_loop ix limit selected rejected (c # cs) =
     (if length selected = limit then selected @ take (limit - length selected) rejected
      else if list_all (\<lambda>other. f32_lt
          (score_vectors (ix_metric ix) (vector_at ix (hi_index c)) (vector_at ix (hi_index other)))
          (hi_score c)) selected
      then select_loop ix limit (selected @ [c]) rejected cs
      else select_loop ix limit selected (rejected @ [c]) cs)"

definition select_neighbors :: "hnsw_index \<Rightarrow> heap_item list \<Rightarrow> nat \<Rightarrow> heap_item list" where
  "select_neighbors ix items limit = select_loop ix limit [] [] items"

definition links_at :: "hnsw_index \<Rightarrow> nat \<Rightarrow> nat \<Rightarrow> u32 list" where
  "links_at ix node layer = n_neighbors (ix_nodes ix ! node) ! layer"

definition set_links :: "hnsw_index \<Rightarrow> nat \<Rightarrow> nat \<Rightarrow> u32 list \<Rightarrow> hnsw_index" where
  "set_links ix node layer ls =
     (let n = ix_nodes ix ! node
      in ix\<lparr>ix_nodes := (ix_nodes ix)[node := n\<lparr>n_neighbors := (n_neighbors n)[layer := ls]\<rparr>]\<rparr>)"

definition prune :: "hnsw_index \<Rightarrow> nat \<Rightarrow> nat \<Rightarrow> hnsw_index" where
  "prune ix node layer =
     (let limit = max_connections (ix_config ix) layer; ls = links_at ix node layer in
      if length ls \<le> limit then ix
      else let found = map (\<lambda>i. \<lparr>hi_index = unat i,
             hi_score = score_vectors (ix_metric ix) (vector_at ix node) (vector_at ix (unat i))\<rparr>) ls
        in set_links ix node layer
          (map (\<lambda>item. of_nat (hi_index item)) (select_neighbors ix (sort_items ix found) limit)))"

definition plan_layer ::
    "hnsw_index \<Rightarrow> vector_ref \<Rightarrow> nat \<times> insertion_plan \<times> build_workspace \<Rightarrow> nat \<Rightarrow>
     nat \<times> insertion_plan \<times> build_workspace" where
  "plan_layer ix query s layer = (case s of (current, plan, ws) \<Rightarrow>
     case search_layer_for_build ix query current (hc_ef_construction (ix_config ix)) layer ws of
       (items, ws') \<Rightarrow>
         let selected = select_neighbors ix items (max_connections (ix_config ix) layer)
         in (case selected of [] \<Rightarrow> current | closest # _ \<Rightarrow> hi_index closest,
             plan[layer := selected], ws'))"

text \<open>\<open>plan_insert\<close> panics on an empty graph; the callers make sure there is an entry point.\<close>

definition plan_insert ::
    "hnsw_index \<Rightarrow> prepared_point \<Rightarrow> build_workspace \<Rightarrow> insertion_plan \<times> build_workspace" where
  "plan_insert ix point ws =
     (let level = pp_level point;
          query = prepared_ref (pp_vector point);
          entry = (case ix_entry_point ix of None \<Rightarrow> 0 | Some e \<Rightarrow> e);
          current = (if ix_max_level ix > level
            then descend ix query entry (ix_max_level ix) (level + 1) else entry);
          connected_levels = min level (ix_max_level ix)
      in case foldl (plan_layer ix query) (current, replicate (level + 1) [], ws)
           (rev [0..<Suc connected_levels]) of (_, plan, ws') \<Rightarrow> (plan, ws'))"

definition connect_neighbor :: "nat \<Rightarrow> nat \<Rightarrow> hnsw_index \<Rightarrow> heap_item \<Rightarrow> hnsw_index" where
  "connect_neighbor new_index layer ix neighbor =
     (let v = hi_index neighbor;
          ix1 = set_links ix v layer (links_at ix v layer @ [of_nat new_index])
      in if length (links_at ix1 v layer) \<ge> saturating_mul (max_connections (ix_config ix) layer) 2
         then prune ix1 v layer else ix1)"

definition connect_layer :: "nat \<Rightarrow> hnsw_index \<Rightarrow> nat \<times> heap_item list \<Rightarrow> hnsw_index" where
  "connect_layer new_index ix ls = (case ls of (layer, selected) \<Rightarrow>
     foldl (connect_neighbor new_index layer)
       (set_links ix new_index layer
          (links_at ix new_index layer @ map (\<lambda>item. of_nat (hi_index item)) selected))
       selected)"

definition apply_insertion :: "hnsw_index \<Rightarrow> prepared_point \<Rightarrow> insertion_plan \<Rightarrow> hnsw_index" where
  "apply_insertion ix point plan =
     (let level = pp_level point;
          new_index = length (ix_nodes ix);
          ix1 = ix\<lparr>ix_vectors := arena_push (ix_vectors ix) (pp_vector point),
            ix_nodes := ix_nodes ix @ [\<lparr>n_level = level mod 256, range_start = 0,
              n_neighbors = replicate (level + 1) []\<rparr>],
            ix_ids := ix_ids ix @ [pp_id point]\<rparr>
      in if ix_entry_point ix = None then ix1\<lparr>ix_entry_point := Some new_index, ix_max_level := level\<rparr>
         else let ix2 = foldl (connect_layer new_index) ix1 (enumerate 0 plan)
           in if level > ix_max_level ix
              then ix2\<lparr>ix_entry_point := Some new_index, ix_max_level := level\<rparr> else ix2)"

definition insert_prepared ::
    "hnsw_index \<times> build_workspace \<Rightarrow> prepared_point \<Rightarrow> hnsw_index \<times> build_workspace" where
  "insert_prepared s point = (case s of (ix, ws) \<Rightarrow>
     if ix_entry_point ix = None
     then (apply_insertion ix point (replicate (pp_level point + 1) []), ws)
     else (case plan_insert ix point ws of (plan, ws') \<Rightarrow> (apply_insertion ix point plan, ws')))"

text \<open>
  A batch is planned on the graph as it stands, by as many workers as there are, each
  with a workspace of its own; the plans are applied in order afterwards. A plan does not
  depend on the workspace it was made with, so every plan is made with a new one here.
\<close>

definition parallel_build_seed :: nat where
  "parallel_build_seed = 4096"

definition parallel_build_batch :: nat where
  "parallel_build_batch = 512"

definition insert_batch :: "hnsw_index \<Rightarrow> prepared_point list \<Rightarrow> hnsw_index" where
  "insert_batch ix batch =
     foldl (\<lambda>ix' (point, plan). apply_insertion ix' point plan) ix
       (map (\<lambda>point. (point, fst (plan_insert ix point workspace_new))) batch)"

function insert_batches :: "hnsw_index \<Rightarrow> prepared_point list \<Rightarrow> hnsw_index" where
  "insert_batches ix ps =
     (if ps = [] then ix
      else insert_batches (insert_batch ix (take parallel_build_batch ps))
        (drop parallel_build_batch ps))"
  by pat_completeness auto
termination
  by (relation "measure (\<lambda>(ix, ps). length ps)") (auto simp: parallel_build_batch_def)

declare insert_batches.simps [simp del]

definition compact_neighbors :: "hnsw_index \<Rightarrow> hnsw_index" where
  "compact_neighbors ix =
     foldl (\<lambda>ix node. foldl (\<lambda>ix layer. prune ix node layer) ix
         [0..<length (n_neighbors (ix_nodes ix ! node))])
       ix [0..<length (ix_nodes ix)]"

section \<open>The compact graph\<close>

definition compact_layer ::
    "link_range list \<times> u32 list \<Rightarrow> u32 list \<Rightarrow> link_range list \<times> u32 list" where
  "compact_layer s layer = (case s of (rs, ls) \<Rightarrow>
     (rs @ [\<lparr>lr_start = of_nat (length ls), lr_end = of_nat (length (ls @ layer))\<rparr>], ls @ layer))"

definition compact_node ::
    "node list \<times> link_range list \<times> u32 list \<Rightarrow> node \<Rightarrow> node list \<times> link_range list \<times> u32 list" where
  "compact_node s n = (case s of (ns, rs, ls) \<Rightarrow>
     case foldl compact_layer (rs, ls) (n_neighbors n) of (rs', ls') \<Rightarrow>
       (ns @ [n\<lparr>range_start := of_nat (length rs), n_neighbors := []\<rparr>], rs', ls'))"

definition finalize_compact_graph :: "hnsw_index \<Rightarrow> hnsw_index result" where
  "finalize_compact_graph ix =
     (if ix_compact_graph ix \<noteq> None then Inr ix
      else let range_count = (\<Sum>n \<leftarrow> ix_nodes ix. length (n_neighbors n));
               link_count = (\<Sum>n \<leftarrow> ix_nodes ix. \<Sum>l \<leftarrow> n_neighbors n. length l)
        in if range_count > usize_max
           then Inl (ResourceExhausted ''HNSW layer count overflows memory'')
           else if link_count > usize_max
           then Inl (ResourceExhausted ''HNSW link count overflows memory'')
           else if range_count \<ge> 2 ^ 32 \<or> link_count \<ge> 2 ^ 32
           then Inl (ResourceExhausted ''HNSW compact graph exceeds u32 address space'')
           else (case foldl compact_node ([], [], []) (ix_nodes ix) of (ns, rs, ls) \<Rightarrow>
             Inr (ix\<lparr>ix_nodes := ns, ix_compact_graph := Some \<lparr>ranges = rs, links = ls\<rparr>\<rparr>)))"

section \<open>Building\<close>

definition build_prepared_points ::
    "nat \<Rightarrow> metric \<Rightarrow> hnsw_config \<Rightarrow> hnsw_vector_storage \<Rightarrow> prepared_point list \<Rightarrow> hnsw_index result" where
  "build_prepared_points dim m cfg storage prepared =
     (let ix0 = \<lparr>ix_dimension = dim, ix_metric = m, ix_config = cfg, ix_nodes = [], ix_ids = [],
            ix_vectors = arena_new storage, ix_entry_point = None, ix_max_level = 0,
            ix_compact_graph = None\<rparr>;
          ix1 = fst (foldl insert_prepared (ix0, workspace_new) (take parallel_build_seed prepared));
          ix2 = insert_batches ix1 (drop parallel_build_seed prepared)
      in finalize_compact_graph (compact_neighbors ix2))"

fun check_point_ids :: "string list \<Rightarrow> string list \<Rightarrow> unit result" where
  "check_point_ids known [] = Inr ()"
| "check_point_ids known (i # is) =
     (if i = [] then Inl (InvalidQuery ''point ID must not be empty'')
      else if i \<in> set known then Inl (InvalidQuery ''HNSW point IDs must be unique'')
      else check_point_ids (i # known) is)"

text \<open>Points are prepared in parallel; when several are invalid, one of their errors is returned.\<close>

definition build_with_storage ::
    "nat \<Rightarrow> metric \<Rightarrow> hnsw_config \<Rightarrow> hnsw_vector_storage \<Rightarrow> (string \<times> f32 list) list \<Rightarrow> hnsw_index result" where
  "build_with_storage dim m cfg storage ps =
     rbind (validate_config dim cfg) (\<lambda>_.
     rbind (check_point_ids [] (map fst ps)) (\<lambda>_.
     rbind (try_map (\<lambda>(i, v).
       if length v \<noteq> dim then Inl (InvalidDimension dim (length v))
       else rbind (prepare m v) (\<lambda>w. Inr \<lparr>pp_id = i, pp_vector = prepared_new w storage,
         pp_level = deterministic_level i (hc_m cfg)\<rparr>)) ps) (\<lambda>prepared.
     build_prepared_points dim m cfg storage prepared)))"

fun check_prepared :: "nat \<Rightarrow> string list \<Rightarrow> (string \<times> f32 list) list \<Rightarrow> unit result" where
  "check_prepared dim known [] = Inr ()"
| "check_prepared dim known ((i, v) # ps) =
     (if i = [] then Inl (InvalidQuery ''point ID must not be empty'')
      else if i \<in> set known then Inl (InvalidQuery ''HNSW point IDs must be unique'')
      else if length v \<noteq> dim then Inl (InvalidDimension dim (length v))
      else if list_ex (\<lambda>x. \<not> f32_is_finite x) v then Inl (InvalidVector ''components must be finite'')
      else check_prepared dim (i # known) ps)"

definition build_quantized_prepared ::
    "nat \<Rightarrow> metric \<Rightarrow> hnsw_config \<Rightarrow> (string \<times> f32 list) list \<Rightarrow> hnsw_index result" where
  "build_quantized_prepared dim m cfg ps =
     rbind (validate_config dim cfg) (\<lambda>_.
     rbind (check_prepared dim [] ps) (\<lambda>_.
     build_prepared_points dim m cfg ScalarInt8Storage
       (map (\<lambda>(i, v). \<lparr>pp_id = i, pp_vector = PreparedInt8 (quantize v),
          pp_level = deterministic_level i (hc_m cfg)\<rparr>) ps)))"

record hnsw_stats =
  hs_nodes :: nat
  hs_layers :: nat
  hs_links :: nat
  hs_id_bytes :: nat
  hs_vector_heap_bytes :: nat
  hs_vectors_memory_mapped :: bool

definition hnsw_stats_of :: "hnsw_index \<Rightarrow> hnsw_stats" where
  "hnsw_stats_of ix =
     (let (layers, lks) = (case ix_compact_graph ix of None \<Rightarrow> (0, 0)
        | Some g \<Rightarrow> (length (ranges g), length (links g)))
      in \<lparr>hs_nodes = length (ix_nodes ix), hs_layers = layers, hs_links = lks,
          hs_id_bytes = (\<Sum>i \<leftarrow> ix_ids ix. length i),
          hs_vector_heap_bytes = component_bytes (ix_vectors ix),
          hs_vectors_memory_mapped = (case ix_vectors ix of MappedInt8Arena _ _ _ _ \<Rightarrow> True | _ \<Rightarrow> False)\<rparr>)"

end
