(* ===== verification/HnswInvariant.thy ===== *)
theory HnswInvariant
  imports HnswBuild
begin

text \<open>
  Every graph the build produces is well formed: links stay inside the graph, point to
  nodes that exist on their layer, never to the node itself, and respect the degree
  bounds. The compact representation has the same links.
\<close>

section \<open>The diversity heuristic\<close>

lemma select_loop_spec:
  assumes "length selected \<le> limit"
  shows "length (select_loop ix limit selected rejected cs) = min limit (length (selected @ rejected @ cs))"
    "set (select_loop ix limit selected rejected cs) \<subseteq> set (selected @ rejected @ cs)"
    "distinct (map hi_index (selected @ rejected @ cs)) \<Longrightarrow>
       distinct (map hi_index (select_loop ix limit selected rejected cs))"
    "prefix selected (select_loop ix limit selected rejected cs)"
proof -
  have "length (select_loop ix limit selected rejected cs) = min limit (length (selected @ rejected @ cs)) \<and>
    set (select_loop ix limit selected rejected cs) \<subseteq> set (selected @ rejected @ cs) \<and>
    (distinct (map hi_index (selected @ rejected @ cs)) \<longrightarrow>
       distinct (map hi_index (select_loop ix limit selected rejected cs))) \<and>
    prefix selected (select_loop ix limit selected rejected cs)"
    using assms
  proof (induction ix limit selected rejected cs rule: select_loop.induct)
    case (1 ix limit selected rejected)
    then show ?case
      by (fastforce dest: in_set_takeD simp: take_map [symmetric])
  next
    case (2 ix limit selected rejected c cs)
    show ?case
    proof (cases "length selected = limit")
      case True
      then show ?thesis by auto
    next
      case False
      then show ?thesis
        using 2 by (auto simp: append_prefixD)
    qed
  qed
  then show "length (select_loop ix limit selected rejected cs) = min limit (length (selected @ rejected @ cs))"
    "set (select_loop ix limit selected rejected cs) \<subseteq> set (selected @ rejected @ cs)"
    "distinct (map hi_index (selected @ rejected @ cs)) \<Longrightarrow>
       distinct (map hi_index (select_loop ix limit selected rejected cs))"
    "prefix selected (select_loop ix limit selected rejected cs)"
    by blast+
qed

lemma select_neighbors_spec:
  "length (select_neighbors ix items limit) = min limit (length items)"
  "set (select_neighbors ix items limit) \<subseteq> set items"
  "distinct (map hi_index items) \<Longrightarrow> distinct (map hi_index (select_neighbors ix items limit))"
  using select_loop_spec [where selected = "[]" and rejected = "[]" and limit = limit and ix = ix and cs = items] by (simp_all add: select_neighbors_def)

lemma select_neighbors_first:
  assumes "0 < limit"
  shows "prefix [i] (select_neighbors ix (i # items) limit)"
  using assms select_loop_spec(4) [where selected = "[i]" and rejected = "[]" and limit = limit and ix = ix and cs = items] by (simp add: select_neighbors_def)

section \<open>The invariant\<close>

definition level_of :: "hnsw_index \<Rightarrow> nat \<Rightarrow> nat" where
  "level_of ix v = n_level (ix_nodes ix ! v)"

definition link_list_ok :: "hnsw_index \<Rightarrow> nat \<Rightarrow> nat \<Rightarrow> u32 list \<Rightarrow> bool" where
  "link_list_ok ix v l ls \<longleftrightarrow> distinct ls \<and>
     (\<forall>j \<in> set ls. unat j < length (ix_nodes ix) \<and> unat j \<noteq> v \<and> l \<le> level_of ix (unat j))"

definition nodes_inv :: "hnsw_index \<Rightarrow> bool" where
  "nodes_inv ix \<longleftrightarrow> length (ix_nodes ix) \<le> 2 ^ 32 \<and>
     (\<forall>v < length (ix_nodes ix). level_of ix v \<le> max_level_limit \<and>
        length (n_neighbors (ix_nodes ix ! v)) = Suc (level_of ix v) \<and>
        (\<forall>l \<le> level_of ix v. link_list_ok ix v l (links_at ix v l)))"

definition layered :: "hnsw_index \<Rightarrow> bool" where
  "layered ix \<longleftrightarrow> (\<forall>v < length (ix_nodes ix). length (n_neighbors (ix_nodes ix ! v)) = Suc (level_of ix v))"

lemma nodes_inv_layered: "nodes_inv ix \<Longrightarrow> layered ix"
  by (simp add: nodes_inv_def layered_def)

lemma set_links_simps [simp]:
  "length (ix_nodes (set_links ix v l ls)) = length (ix_nodes ix)"
  "ix_ids (set_links ix v l ls) = ix_ids ix"
  "ix_vectors (set_links ix v l ls) = ix_vectors ix"
  "ix_entry_point (set_links ix v l ls) = ix_entry_point ix"
  "ix_max_level (set_links ix v l ls) = ix_max_level ix"
  "ix_compact_graph (set_links ix v l ls) = ix_compact_graph ix"
  "ix_config (set_links ix v l ls) = ix_config ix"
  "ix_dimension (set_links ix v l ls) = ix_dimension ix"
  "ix_metric (set_links ix v l ls) = ix_metric ix"
  by (simp_all add: set_links_def Let_def)

lemma level_of_set_links [simp]: "level_of (set_links ix v l ls) u = level_of ix u"
  by (cases "v < length (ix_nodes ix)")
    (auto simp: level_of_def set_links_def Let_def nth_list_update list_update_beyond)

lemma neighbors_length_set_links [simp]:
  "length (n_neighbors (ix_nodes (set_links ix v l ls) ! u)) = length (n_neighbors (ix_nodes ix ! u))"
  by (cases "v < length (ix_nodes ix)")
    (auto simp: set_links_def Let_def nth_list_update list_update_beyond)

lemma links_at_set_links:
  assumes "v < length (ix_nodes ix)" "l < length (n_neighbors (ix_nodes ix ! v))"
  shows "links_at (set_links ix v l ls) u k = (if u = v \<and> k = l then ls else links_at ix u k)"
  using assms by (auto simp: links_at_def set_links_def Let_def nth_list_update)

lemma link_list_ok_set_links [simp]:
  "link_list_ok (set_links ix v l ls) u k xs = link_list_ok ix u k xs"
  by (simp add: link_list_ok_def)

lemma nodes_inv_set_links:
  assumes "nodes_inv ix" "v < length (ix_nodes ix)" "l \<le> level_of ix v" "link_list_ok ix v l ls"
  shows "nodes_inv (set_links ix v l ls)"
  using assms by (auto simp: nodes_inv_def links_at_set_links)

lemma link_list_ok_subset: "link_list_ok ix v l ls \<Longrightarrow> set xs \<subseteq> set ls \<Longrightarrow> distinct xs \<Longrightarrow> link_list_ok ix v l xs"
  by (auto simp: link_list_ok_def)

text \<open>Pruning keeps a part of one list, within the limit.\<close>

lemma prune_eq:
  assumes "distinct (links_at ix v l)"
  obtains ls where "prune ix v l = (if length (links_at ix v l) \<le> max_connections (ix_config ix) l then ix
      else set_links ix v l ls)"
    "set ls \<subseteq> set (links_at ix v l)" "distinct ls"
    "length ls = min (max_connections (ix_config ix) l) (length (links_at ix v l))"
proof -
  define old where "old = links_at ix v l"
  define limit where "limit = max_connections (ix_config ix) l"
  define items where "items = map (\<lambda>i. \<lparr>hi_index = unat i,
    hi_score = score_vectors (ix_metric ix) (vector_at ix v) (vector_at ix (unat i))\<rparr>) old"
  define sel where "sel = select_neighbors ix (sort_items ix items) limit"
  define ls :: "u32 list" where "ls = map (\<lambda>item. of_nat (hi_index item)) sel"
  have index: "map hi_index items = map unat old"
    by (simp add: items_def comp_def)
  have "distinct (map hi_index items)"
    unfolding index using assms by (simp add: old_def distinct_map inj_on_def word_unat_eq_iff)
  moreover have "mset (map hi_index (sort_items ix items)) = mset (map hi_index items)"
    by (simp only: mset_map sort_items_key mset_sort)
  ultimately have "distinct (map hi_index (sort_items ix items))"
    using mset_eq_imp_distinct_iff by blast
  then have dist: "distinct (map hi_index sel)"
    unfolding sel_def by (rule select_neighbors_spec(3))
  have sub: "hi_index i \<in> unat ` set old" if "i \<in> set sel" for i
  proof -
    have "i \<in> set (sort_items ix items)"
      using that select_neighbors_spec(2) unfolding sel_def by (rule rev_subsetD)
    then have "hi_index i \<in> set (map hi_index items)"
      by (simp add: sort_items_key)
    then show ?thesis by (simp add: index)
  qed
  have idx: "map unat ls = map hi_index sel"
  proof -
    have "unat (of_nat (hi_index i) :: u32) = hi_index i" if "i \<in> set sel" for i
      using sub [OF that] by auto
    then show ?thesis by (simp add: ls_def)
  qed
  then have "distinct (map unat ls)"
    using dist by simp
  then have "distinct ls"
    by (simp add: distinct_map)
  moreover have "set ls \<subseteq> set old"
  proof
    fix j assume "j \<in> set ls"
    then have "unat j \<in> set (map hi_index sel)"
      unfolding idx [symmetric] by simp
    then have "unat j \<in> unat ` set old"
      using sub by auto
    then obtain x where "unat j = unat x" "x \<in> set old"
      by (rule imageE)
    then show "j \<in> set old"
      by (simp add: word_unat_eq_iff [symmetric])
  qed
  moreover have "length ls = min limit (length old)"
    by (simp add: ls_def sel_def items_def select_neighbors_spec(1) sort_items_key)
  moreover have "prune ix v l = (if length old \<le> limit then ix else set_links ix v l ls)"
    unfolding prune_def Let_def ls_def sel_def items_def old_def limit_def by simp
  ultimately show thesis
    using that [of ls] unfolding old_def limit_def by blast
qed

text \<open>What an operation on links leaves alone.\<close>

definition same_frame :: "hnsw_index \<Rightarrow> hnsw_index \<Rightarrow> bool" where
  "same_frame a b \<longleftrightarrow> length (ix_nodes a) = length (ix_nodes b) \<and> ix_ids a = ix_ids b \<and>
     ix_vectors a = ix_vectors b \<and> ix_entry_point a = ix_entry_point b \<and> ix_max_level a = ix_max_level b \<and>
     ix_compact_graph a = ix_compact_graph b \<and> ix_config a = ix_config b \<and>
     ix_dimension a = ix_dimension b \<and> ix_metric a = ix_metric b \<and> (\<forall>v. level_of a v = level_of b v)"

lemma same_frame_refl [simp]: "same_frame a a"
  by (simp add: same_frame_def)

lemma same_frame_trans [trans]: "same_frame a b \<Longrightarrow> same_frame b c \<Longrightarrow> same_frame a c"
  by (simp add: same_frame_def)

lemma same_frame_set_links [simp]: "same_frame (set_links ix v l ls) ix"
  by (simp add: same_frame_def)

lemma link_list_ok_frame: "same_frame a b \<Longrightarrow> link_list_ok a v l ls = link_list_ok b v l ls"
  by (simp add: same_frame_def link_list_ok_def)

lemma prune_ok:
  assumes inv: "nodes_inv ix" and v: "v < length (ix_nodes ix)" "l \<le> level_of ix v"
  shows "nodes_inv (prune ix v l)" "same_frame (prune ix v l) ix"
    "links_at (prune ix v l) u k = links_at ix u k \<or> u = v \<and> k = l"
    "set (links_at (prune ix v l) u k) \<subseteq> set (links_at ix u k)"
    "length (links_at (prune ix v l) v l) \<le> max_connections (ix_config ix) l"
    "length (links_at (prune ix v l) u k) \<le> length (links_at ix u k)"
proof -
  have ok: "link_list_ok ix v l (links_at ix v l)" and len: "l < length (n_neighbors (ix_nodes ix ! v))"
    using inv v by (auto simp: nodes_inv_def)
  then have "distinct (links_at ix v l)"
    by (simp add: link_list_ok_def)
  then obtain ls where ls: "prune ix v l =
      (if length (links_at ix v l) \<le> max_connections (ix_config ix) l then ix else set_links ix v l ls)"
    "set ls \<subseteq> set (links_at ix v l)" "distinct ls"
    "length ls = min (max_connections (ix_config ix) l) (length (links_at ix v l))"
    by (rule prune_eq)
  have "link_list_ok ix v l ls"
    using link_list_ok_subset [OF ok ls(2,3)] .
  then show "nodes_inv (prune ix v l)"
    using nodes_inv_set_links [OF inv v] inv by (simp add: ls(1))
  show "same_frame (prune ix v l) ix"
    by (simp add: ls(1))
  show "links_at (prune ix v l) u k = links_at ix u k \<or> u = v \<and> k = l"
    "set (links_at (prune ix v l) u k) \<subseteq> set (links_at ix u k)"
    "length (links_at (prune ix v l) v l) \<le> max_connections (ix_config ix) l"
    "length (links_at (prune ix v l) u k) \<le> length (links_at ix u k)"
    using ls(2,4) links_at_set_links [OF v(1) len] by (auto simp: ls(1))
qed

section \<open>Connecting a new node\<close>

lemma connect_neighbor_ok:
  assumes inv: "nodes_inv ix" and new: "new < length (ix_nodes ix)" "l \<le> level_of ix new"
    and v: "hi_index item < length (ix_nodes ix)" "hi_index item \<noteq> new" "l \<le> level_of ix (hi_index item)"
    and fresh: "of_nat new \<notin> set (links_at ix (hi_index item) l)"
  shows "nodes_inv (connect_neighbor new l ix item) \<and> same_frame (connect_neighbor new l ix item) ix \<and>
    (\<forall>u k. u = hi_index item \<and> k = l \<or> links_at (connect_neighbor new l ix item) u k = links_at ix u k)"
proof -
  let ?v = "hi_index item"
  let ?ix1 = "set_links ix ?v l (links_at ix ?v l @ [of_nat new])"
  have len: "l < length (n_neighbors (ix_nodes ix ! ?v))"
    using inv v by (auto simp: nodes_inv_def)
  have new_unat: "unat (of_nat new :: u32) = new"
  proof -
    have "new < 2 ^ 32" using inv new(1) by (simp add: nodes_inv_def)
    then show ?thesis by (simp add: unat_of_nat)
  qed
  have "link_list_ok ix ?v l (links_at ix ?v l @ [of_nat new])"
    using inv v new fresh by (auto simp: nodes_inv_def link_list_ok_def new_unat)
  then have inv1: "nodes_inv ?ix1"
    by (rule nodes_inv_set_links [OF inv v(1,3)])
  note links1 = links_at_set_links [OF v(1) len, of "links_at ix ?v l @ [of_nat new]"]
  have v1: "?v < length (ix_nodes ?ix1)" "l \<le> level_of ?ix1 ?v"
    using v by simp_all
  note pruned = prune_ok [OF inv1 v1]
  show ?thesis
  proof (cases "length (links_at ?ix1 ?v l) \<ge> saturating_mul (max_connections (ix_config ix) l) 2")
    case True
    then have "connect_neighbor new l ix item = prune ?ix1 ?v l"
      by (simp add: connect_neighbor_def Let_def)
    then show ?thesis
      using pruned(1,2) same_frame_trans [OF pruned(2) same_frame_set_links] pruned(3) links1 by metis
  next
    case False
    then have "connect_neighbor new l ix item = ?ix1"
      by (simp add: connect_neighbor_def Let_def)
    then show ?thesis
      using inv1 links1 by simp
  qed
qed

lemma connect_neighbors_ok:
  assumes "nodes_inv ix" "new < length (ix_nodes ix)" "l \<le> level_of ix new"
    and "distinct (map hi_index sel)"
    and "\<forall>i \<in> set sel. hi_index i < length (ix_nodes ix) \<and> hi_index i \<noteq> new \<and> l \<le> level_of ix (hi_index i) \<and>
      of_nat new \<notin> set (links_at ix (hi_index i) l)"
  shows "nodes_inv (foldl (connect_neighbor new l) ix sel) \<and>
    same_frame (foldl (connect_neighbor new l) ix sel) ix \<and>
    (\<forall>u k. k = l \<and> u \<in> hi_index ` set sel \<or>
      links_at (foldl (connect_neighbor new l) ix sel) u k = links_at ix u k)"
  using assms
proof (induction sel arbitrary: ix)
  case Nil
  then show ?case by simp
next
  case (Cons i sel)
  let ?ix1 = "connect_neighbor new l ix i"
  have step: "nodes_inv ?ix1" "same_frame ?ix1 ix"
    "\<And>u k. u = hi_index i \<and> k = l \<or> links_at ?ix1 u k = links_at ix u k"
    using connect_neighbor_ok [of ix new l i] Cons.prems by auto
  have frame: "length (ix_nodes ?ix1) = length (ix_nodes ix)" "level_of ?ix1 u = level_of ix u" for u
    using step(2) by (auto simp: same_frame_def)
  have "\<forall>j \<in> set sel. hi_index j < length (ix_nodes ?ix1) \<and> hi_index j \<noteq> new \<and>
      l \<le> level_of ?ix1 (hi_index j) \<and> of_nat new \<notin> set (links_at ?ix1 (hi_index j) l)"
  proof
    fix j assume j: "j \<in> set sel"
    then have "hi_index j \<noteq> hi_index i"
      using Cons.prems(4) by (metis distinct.simps(2) image_eqI list.set_map list.simps(9))
    then have "links_at ?ix1 (hi_index j) l = links_at ix (hi_index j) l"
      using step(3) by blast
    then show "hi_index j < length (ix_nodes ?ix1) \<and> hi_index j \<noteq> new \<and>
        l \<le> level_of ?ix1 (hi_index j) \<and> of_nat new \<notin> set (links_at ?ix1 (hi_index j) l)"
      using Cons.prems(5) j frame by simp
  qed
  then have IH: "nodes_inv (foldl (connect_neighbor new l) ?ix1 sel) \<and>
      same_frame (foldl (connect_neighbor new l) ?ix1 sel) ?ix1 \<and>
      (\<forall>u k. k = l \<and> u \<in> hi_index ` set sel \<or>
        links_at (foldl (connect_neighbor new l) ?ix1 sel) u k = links_at ?ix1 u k)"
    using Cons.prems(2-4) frame step(1) by (intro Cons.IH) simp_all
  then show ?case
    using step(2,3) same_frame_trans by (auto simp: image_iff) (metis)+
qed

lemma connect_layer_ok:
  assumes inv: "nodes_inv ix" and new: "new < length (ix_nodes ix)" "l \<le> level_of ix new" "links_at ix new l = []"
    and dist: "distinct (map hi_index sel)"
    and sel: "\<forall>i \<in> set sel. hi_index i < length (ix_nodes ix) \<and> hi_index i \<noteq> new \<and> l \<le> level_of ix (hi_index i) \<and>
      of_nat new \<notin> set (links_at ix (hi_index i) l)"
  shows "nodes_inv (connect_layer new ix (l, sel)) \<and> same_frame (connect_layer new ix (l, sel)) ix \<and>
    (\<forall>u k. k = l \<or> links_at (connect_layer new ix (l, sel)) u k = links_at ix u k)"
proof -
  let ?ls = "map (\<lambda>item. of_nat (hi_index item)) sel :: u32 list"
  let ?ix1 = "set_links ix new l ?ls"
  have small: "unat (of_nat (hi_index i) :: u32) = hi_index i" if "i \<in> set sel" for i
  proof -
    have "hi_index i < 2 ^ 32" using inv sel that by (force simp: nodes_inv_def)
    then show ?thesis by (simp add: unat_of_nat)
  qed
  have "map unat ?ls = map hi_index sel"
    using small by simp
  then have "distinct ?ls"
    using dist by (metis distinct_map)
  then have "link_list_ok ix new l ?ls"
    using sel small by (auto simp: link_list_ok_def)
  then have inv1: "nodes_inv ?ix1"
    by (rule nodes_inv_set_links [OF inv new(1,2)])
  have len: "l < length (n_neighbors (ix_nodes ix ! new))"
    using inv new by (auto simp: nodes_inv_def)
  note links1 = links_at_set_links [OF new(1) len, of ?ls]
  have "\<forall>i \<in> set sel. hi_index i < length (ix_nodes ?ix1) \<and> hi_index i \<noteq> new \<and> l \<le> level_of ?ix1 (hi_index i) \<and>
      of_nat new \<notin> set (links_at ?ix1 (hi_index i) l)"
    using sel by (simp add: links1)
  then have "nodes_inv (foldl (connect_neighbor new l) ?ix1 sel) \<and>
    same_frame (foldl (connect_neighbor new l) ?ix1 sel) ?ix1 \<and>
    (\<forall>u k. k = l \<and> u \<in> hi_index ` set sel \<or>
      links_at (foldl (connect_neighbor new l) ?ix1 sel) u k = links_at ?ix1 u k)"
    using new by (intro connect_neighbors_ok inv1 dist) simp_all
  moreover have "connect_layer new ix (l, sel) = foldl (connect_neighbor new l) ?ix1 sel"
    by (simp add: connect_layer_def new(3))
  ultimately show ?thesis
    using same_frame_trans [OF _ same_frame_set_links] links1 by metis
qed

text \<open>A plan for a node of some level names existing nodes of each layer.\<close>

definition layer_plan_ok :: "hnsw_index \<Rightarrow> nat \<Rightarrow> heap_item list \<Rightarrow> bool" where
  "layer_plan_ok ix l sel \<longleftrightarrow> distinct (map hi_index sel) \<and>
     (\<forall>i \<in> set sel. hi_index i < length (ix_nodes ix) \<and> l \<le> level_of ix (hi_index i))"

definition plan_ok :: "hnsw_index \<Rightarrow> nat \<Rightarrow> insertion_plan \<Rightarrow> bool" where
  "plan_ok ix level plan \<longleftrightarrow> length plan = Suc level \<and> (\<forall>l \<le> level. layer_plan_ok ix l (plan ! l))"

lemma connect_layers_ok:
  assumes "nodes_inv ix" "new < length (ix_nodes ix)" "i + length plan = Suc (level_of ix new)"
    and "\<forall>k \<ge> i. k \<le> level_of ix new \<longrightarrow> links_at ix new k = []"
    and "\<forall>u < length (ix_nodes ix). \<forall>k \<ge> i. k \<le> level_of ix u \<longrightarrow> of_nat new \<notin> set (links_at ix u k)"
    and "\<forall>k < length plan. layer_plan_ok ix (i + k) (plan ! k) \<and> (\<forall>h \<in> set (plan ! k). hi_index h \<noteq> new)"
  shows "nodes_inv (foldl (connect_layer new) ix (enumerate i plan)) \<and>
    same_frame (foldl (connect_layer new) ix (enumerate i plan)) ix"
  using assms
proof (induction plan arbitrary: ix i)
  case Nil
  then show ?case by simp
next
  case (Cons sel plan)
  let ?ix1 = "connect_layer new ix (i, sel)"
  have "layer_plan_ok ix i sel" and "\<forall>h \<in> set sel. hi_index h \<noteq> new"
    using Cons.prems(6) by force+
  then have step: "nodes_inv ?ix1" "same_frame ?ix1 ix"
      "\<And>u k. k = i \<or> links_at ?ix1 u k = links_at ix u k"
    using connect_layer_ok [of ix new i sel] Cons.prems by (auto simp: layer_plan_ok_def)
  have frame: "length (ix_nodes ?ix1) = length (ix_nodes ix)" "level_of ?ix1 u = level_of ix u" for u
    using step(2) by (auto simp: same_frame_def)
  have links: "links_at ?ix1 u k = links_at ix u k" if "Suc i \<le> k" for u k
    using step(3) [of k u] that by auto
  have "\<forall>k < length plan. layer_plan_ok ?ix1 (Suc i + k) (plan ! k) \<and> (\<forall>h \<in> set (plan ! k). hi_index h \<noteq> new)"
  proof (intro allI impI)
    fix k assume "k < length plan"
    then show "layer_plan_ok ?ix1 (Suc i + k) (plan ! k) \<and> (\<forall>h \<in> set (plan ! k). hi_index h \<noteq> new)"
      using Cons.prems(6) [rule_format, of "Suc k"] frame by (simp add: layer_plan_ok_def)
  qed
  then have "nodes_inv (foldl (connect_layer new) ?ix1 (enumerate (Suc i) plan)) \<and>
      same_frame (foldl (connect_layer new) ?ix1 (enumerate (Suc i) plan)) ?ix1"
    using Cons.prems(2-5) frame links step(1) by (intro Cons.IH) simp_all
  then show ?case
    using step(2) same_frame_trans by auto
qed

section \<open>Insertion\<close>

text \<open>While the graph is built, the lists of the nodes are its links.\<close>

lemma neighbors_building:
  assumes "layered ix" "ix_compact_graph ix = None"
  shows "neighbors ix v l = (if v < length (ix_nodes ix) \<and> l \<le> level_of ix v then links_at ix v l else [])"
  using assms by (auto simp: neighbors_def Let_def level_of_def links_at_def layered_def)

lemma neighbors_building_ok:
  assumes "nodes_inv ix" "ix_compact_graph ix = None" "j \<in> set (neighbors ix v l)"
  shows "unat j < length (ix_nodes ix)" "l \<le> level_of ix (unat j)"
  using assms(3) assms(1) unfolding neighbors_building [OF nodes_inv_layered [OF assms(1)] assms(2)]
  by (auto simp: nodes_inv_def link_list_ok_def split: if_splits)

lemma links_ok_building: "nodes_inv ix \<Longrightarrow> ix_compact_graph ix = None \<Longrightarrow> links_ok ix"
  by (simp add: links_ok_def neighbors_building_ok)

lemma reach_level:
  assumes "nodes_inv ix" "ix_compact_graph ix = None" "(i, j) \<in> (layer_edges ix l)\<^sup>*" "l \<le> level_of ix i"
  shows "l \<le> level_of ix j"
  using assms(3,4) by (induction rule: rtrancl_induct)
    (auto simp: layer_edges_def dest: neighbors_building_ok [OF assms(1,2)])

lemma descend_level:
  assumes "nodes_inv ix" "ix_compact_graph ix = None" "start < length (ix_nodes ix)" "high \<le> level_of ix start"
  shows "low \<le> high \<Longrightarrow> low \<le> level_of ix (descend ix query start high low)"
proof -
  have "foldl (greedy_closest ix query) start (rev [low..<Suc high]) < length (ix_nodes ix) \<and>
      low \<le> level_of ix (foldl (greedy_closest ix query) start (rev [low..<Suc high]))" if "low \<le> high"
    using that
  proof (induction "high - low" arbitrary: low)
    case 0
    let ?c = "greedy_closest ix query start high"
    have reach: "(start, ?c) \<in> (layer_edges ix high)\<^sup>*"
      using greedy_closest_reaches [of start ix query high] by (simp add: layer_edges_def)
    then show ?case
      using 0 reach_range [OF links_ok_building [OF assms(1,2)] reach assms(3)]
        reach_level [OF assms(1,2) reach assms(4)] by simp
  next
    case (Suc d)
    let ?b = "foldl (greedy_closest ix query) start (rev [Suc low..<Suc high])"
    let ?c = "greedy_closest ix query ?b low"
    have IH: "?b < length (ix_nodes ix)" "Suc low \<le> level_of ix ?b"
    proof -
      have "d = high - Suc low" "Suc low \<le> high" using Suc.hyps(2) by simp_all
      then show "?b < length (ix_nodes ix)" "Suc low \<le> level_of ix ?b"
        using Suc.hyps(1) by blast+
    qed
    have reach: "(?b, ?c) \<in> (layer_edges ix low)\<^sup>*"
      using greedy_closest_reaches [of ?b ix query low] by (simp add: layer_edges_def)
    have "[low..<Suc high] = low # [Suc low..<Suc high]"
      using Suc.prems by (simp add: upt_conv_Cons)
    then show ?case
      using reach_range [OF links_ok_building [OF assms(1,2)] reach IH(1)]
        reach_level [OF assms(1,2) reach] IH(2) by simp
  qed
  then show "low \<le> high \<Longrightarrow> low \<le> level_of ix (descend ix query start high low)"
    by (simp add: descend_def)
qed

lemma plan_layer_ok:
  assumes inv: "nodes_inv ix" "ix_compact_graph ix = None" "workspace_ok ws"
    and cfg: "0 < hc_ef_construction (ix_config ix)"
    and cur: "current < length (ix_nodes ix)" "layer \<le> level_of ix current"
    and step: "plan_layer ix query (current, plan, ws) layer = (current', plan', ws')"
  shows "workspace_ok ws'" "current' < length (ix_nodes ix)" "layer \<le> level_of ix current'"
    "\<exists>sel. plan' = plan[layer := sel] \<and> layer_plan_ok ix layer sel \<and>
       length sel \<le> max_connections (ix_config ix) layer"
proof -
  obtain items where s: "search_layer ix query current (hc_ef_construction (ix_config ix)) layer ws = (items, ws')"
    using step by (auto simp: plan_layer_def search_layer_for_build_def Let_def split: prod.splits)
  define sel where "sel = select_neighbors ix items (max_connections (ix_config ix) layer)"
  have eq: "current' = (case sel of [] \<Rightarrow> current | closest # _ \<Rightarrow> hi_index closest)" "plan' = plan[layer := sel]"
    using step s by (auto simp: plan_layer_def search_layer_for_build_def Let_def sel_def)
  note found = search_layer_items [OF inv(3) links_ok_building [OF inv(1,2)] cur(1) cfg s]
  have ok: "hi_index i < length (ix_nodes ix) \<and> layer \<le> level_of ix (hi_index i)" if "i \<in> set sel" for i
    using that select_neighbors_spec(2) [of ix items "max_connections (ix_config ix) layer"] found(3)
      reach_level [OF inv(1,2) _ cur(2)] unfolding sel_def by blast
  show "workspace_ok ws'" by (rule found(1))
  show "current' < length (ix_nodes ix)" "layer \<le> level_of ix current'"
    using ok cur by (auto simp: eq split: list.splits)
  have "distinct (map hi_index sel)"
    unfolding sel_def by (rule select_neighbors_spec(3) [OF found(2)])
  then show "\<exists>sel. plan' = plan[layer := sel] \<and> layer_plan_ok ix layer sel \<and>
       length sel \<le> max_connections (ix_config ix) layer"
    using ok by (intro exI [of _ sel]) (simp add: eq layer_plan_ok_def sel_def select_neighbors_spec(1))
qed

lemma plan_layers_ok:
  assumes inv: "nodes_inv ix" "ix_compact_graph ix = None" "0 < hc_ef_construction (ix_config ix)"
  shows "workspace_ok ws \<Longrightarrow> current < length (ix_nodes ix) \<Longrightarrow> top_layer \<le> level_of ix current \<Longrightarrow>
    top_layer \<le> level \<Longrightarrow> plan_ok ix level plan \<Longrightarrow>
    foldl (plan_layer ix query) (current, plan, ws) (rev [0..<Suc top_layer]) = (current', plan', ws') \<Longrightarrow>
    workspace_ok ws' \<and> plan_ok ix level plan'"
proof (induction top_layer arbitrary: current plan ws)
  case 0
  then show ?case
    using plan_layer_ok [OF inv(1,2) 0(1) inv(3) 0(2,3)]
    by (fastforce simp: plan_ok_def nth_list_update)
next
  case (Suc n)
  obtain c p w where step: "plan_layer ix query (current, plan, ws) (Suc n) = (c, p, w)"
    by (cases "plan_layer ix query (current, plan, ws) (Suc n)")
  note ok = plan_layer_ok [OF inv(1,2) Suc.prems(1) inv(3) Suc.prems(2,3) step]
  have "plan_ok ix level p"
    using ok(4) Suc.prems(4,5) by (auto simp: plan_ok_def nth_list_update)
  moreover have "foldl (plan_layer ix query) (c, p, w) (rev [0..<Suc n]) = (current', plan', ws')"
    using Suc.prems(6) step by simp
  ultimately show ?case
    using Suc.IH [of w c p] ok(1-3) Suc.prems(4) by simp
qed

text \<open>The state of the build after some points.\<close>

definition entry_ok :: "hnsw_index \<Rightarrow> bool" where
  "entry_ok ix \<longleftrightarrow> (case ix_entry_point ix of None \<Rightarrow> ix_nodes ix = []
     | Some e \<Rightarrow> e < length (ix_nodes ix) \<and> level_of ix e = ix_max_level ix) \<and>
     (\<forall>v < length (ix_nodes ix). level_of ix v \<le> ix_max_level ix)"

definition holds_points :: "hnsw_index \<Rightarrow> prepared_point list \<Rightarrow> bool" where
  "holds_points ix ps \<longleftrightarrow> length (ix_nodes ix) = length ps \<and> ix_ids ix = map pp_id ps \<and>
     ix_vectors ix = foldl arena_push (arena_new (arena_storage (ix_vectors ix))) (map pp_vector ps) \<and>
     (\<forall>v < length ps. level_of ix v = pp_level (ps ! v) \<and> vector_at ix v = prepared_ref (pp_vector (ps ! v)))"

definition build_inv :: "hnsw_index \<Rightarrow> prepared_point list \<Rightarrow> bool" where
  "build_inv ix ps \<longleftrightarrow> nodes_inv ix \<and> entry_ok ix \<and> holds_points ix ps \<and> ix_compact_graph ix = None \<and>
     arena_owned (ix_vectors ix) \<and> arena_ok (ix_vectors ix) (length ps) (ix_dimension ix) \<and>
     0 < hc_ef_construction (ix_config ix)"

definition point_fits :: "hnsw_index \<Rightarrow> prepared_point \<Rightarrow> bool" where
  "point_fits ix p \<longleftrightarrow> pp_level p \<le> max_level_limit \<and>
     prepared_ok (pp_vector p) (arena_storage (ix_vectors ix)) (ix_dimension ix)"

definition same_setup :: "hnsw_index \<Rightarrow> hnsw_index \<Rightarrow> bool" where
  "same_setup a b \<longleftrightarrow> ix_dimension a = ix_dimension b \<and> ix_metric a = ix_metric b \<and>
     ix_config a = ix_config b \<and> arena_storage (ix_vectors a) = arena_storage (ix_vectors b)"

lemma same_setup_refl [simp]: "same_setup a a"
  by (simp add: same_setup_def)

lemma same_setup_trans [trans]: "same_setup a b \<Longrightarrow> same_setup b c \<Longrightarrow> same_setup a c"
  by (simp add: same_setup_def)

lemma point_fits_setup: "same_setup a b \<Longrightarrow> point_fits a p = point_fits b p"
  by (simp add: same_setup_def point_fits_def)

definition push_point :: "hnsw_index \<Rightarrow> prepared_point \<Rightarrow> hnsw_index" where
  "push_point ix p = ix\<lparr>ix_vectors := arena_push (ix_vectors ix) (pp_vector p),
     ix_nodes := ix_nodes ix @ [\<lparr>n_level = pp_level p mod 256, range_start = 0,
       n_neighbors = replicate (pp_level p + 1) []\<rparr>],
     ix_ids := ix_ids ix @ [pp_id p]\<rparr>"

lemma push_point_level:
  assumes "pp_level p \<le> max_level_limit"
  shows "level_of (push_point ix p) v = (if v = length (ix_nodes ix) then pp_level p
    else if v < length (ix_nodes ix) then level_of ix v else level_of (push_point ix p) v)"
  using assms by (simp add: level_of_def push_point_def nth_append max_level_limit_def)

lemma push_point_links:
  "v < length (ix_nodes ix) \<Longrightarrow> links_at (push_point ix p) v k = links_at ix v k"
  "k \<le> pp_level p \<Longrightarrow> links_at (push_point ix p) (length (ix_nodes ix)) k = []"
  by (simp_all add: links_at_def push_point_def nth_append del: replicate_Suc)

lemma push_point_length [simp]: "length (ix_nodes (push_point ix p)) = Suc (length (ix_nodes ix))"
  by (simp add: push_point_def)

lemma push_point_nodes_inv:
  assumes inv: "nodes_inv ix" and p: "pp_level p \<le> max_level_limit" and "length (ix_nodes ix) < 2 ^ 32"
  shows "nodes_inv (push_point ix p)"
  unfolding nodes_inv_def
proof (intro conjI allI impI)
  show "length (ix_nodes (push_point ix p)) \<le> 2 ^ 32"
    using assms(3) by simp
  fix v assume v: "v < length (ix_nodes (push_point ix p))"
  note lev = push_point_level [OF p, of ix]
  consider (old) "v < length (ix_nodes ix)" | (new) "v = length (ix_nodes ix)"
    using v by fastforce
  note cases = this
  from cases show "level_of (push_point ix p) v \<le> max_level_limit"
  proof cases
    case old
    then show ?thesis using inv lev [of v] by (simp add: nodes_inv_def)
  qed (use p lev [of v] in simp)
  from cases show "length (n_neighbors (ix_nodes (push_point ix p) ! v)) = Suc (level_of (push_point ix p) v)"
  proof cases
    case old
    then show ?thesis using inv lev [of v] by (simp add: nodes_inv_def push_point_def nth_append)
  next
    case new
    then show ?thesis using lev [of v] by (simp add: push_point_def nth_append)
  qed
  fix l assume l: "l \<le> level_of (push_point ix p) v"
  from cases show "link_list_ok (push_point ix p) v l (links_at (push_point ix p) v l)"
  proof cases
    case old
    then have "link_list_ok ix v l (links_at ix v l)"
      using inv l lev [of v] by (simp add: nodes_inv_def)
    moreover have "level_of (push_point ix p) (unat j) = level_of ix (unat j)" if "unat j < length (ix_nodes ix)" for j :: u32
      using lev [of "unat j"] that by simp
    ultimately show ?thesis
      unfolding push_point_links(1) [OF old] by (auto simp: link_list_ok_def)
  next
    case new
    then show ?thesis
      using l lev [of v] by (simp add: push_point_links link_list_ok_def)
  qed
qed

lemma push_point_holds:
  assumes "holds_points ix ps" "point_fits ix p" "arena_owned (ix_vectors ix)"
    "arena_ok (ix_vectors ix) (length ps) (ix_dimension ix)"
  shows "holds_points (push_point ix p) (ps @ [p])"
    "arena_owned (ix_vectors (push_point ix p))"
    "arena_ok (ix_vectors (push_point ix p)) (Suc (length ps)) (ix_dimension ix)"
    "same_setup (push_point ix p) ix"
proof -
  have p: "pp_level p \<le> max_level_limit" "prepared_ok (pp_vector p) (arena_storage (ix_vectors ix)) (ix_dimension ix)"
    using assms(2) by (simp_all add: point_fits_def)
  have len: "length (ix_nodes ix) = length ps"
    using assms(1) by (simp add: holds_points_def)
  note push = arena_push_ok [OF assms(4,3) p(2)]
  show "arena_owned (ix_vectors (push_point ix p))"
    "arena_ok (ix_vectors (push_point ix p)) (Suc (length ps)) (ix_dimension ix)"
    "same_setup (push_point ix p) ix"
    using push by (simp_all add: push_point_def same_setup_def)
  have vec: "vector_at (push_point ix p) v = prepared_ref (pp_vector ((ps @ [p]) ! v))" if "v < Suc (length ps)" for v
  proof (cases "v = length ps")
    case True
    then show ?thesis using push(4) by (simp add: vector_at_def push_point_def)
  next
    case False
    then have "v < length ps" using that by simp
    then show ?thesis
      using arena_get_push [OF assms(4,3) p(2)] assms(1)
      by (simp add: vector_at_def push_point_def holds_points_def nth_append)
  qed
  have lev: "level_of (push_point ix p) v = pp_level ((ps @ [p]) ! v)" if "v < Suc (length ps)" for v
    using that push_point_level [OF p(1), of ix v] assms(1) len
    by (auto simp: holds_points_def nth_append less_Suc_eq)
  show "holds_points (push_point ix p) (ps @ [p])"
    using vec lev assms(1) push(3) by (simp add: holds_points_def) (simp add: push_point_def)
qed

lemma holds_points_frame: "same_frame a b \<Longrightarrow> holds_points a ps = holds_points b ps"
  by (simp add: holds_points_def same_frame_def vector_at_def)

lemma level_of_entry_update [simp]:
  "level_of (ix\<lparr>ix_entry_point := e, ix_max_level := m\<rparr>) v = level_of ix v"
  "links_at (ix\<lparr>ix_entry_point := e, ix_max_level := m\<rparr>) v l = links_at ix v l"
  "link_list_ok (ix\<lparr>ix_entry_point := e, ix_max_level := m\<rparr>) v l ls = link_list_ok ix v l ls"
  "nodes_inv (ix\<lparr>ix_entry_point := e, ix_max_level := m\<rparr>) = nodes_inv ix"
  "holds_points (ix\<lparr>ix_entry_point := e, ix_max_level := m\<rparr>) ps = holds_points ix ps"
  by (simp_all add: level_of_def links_at_def link_list_ok_def nodes_inv_def holds_points_def vector_at_def)

lemma apply_insertion_eq:
  "apply_insertion ix p plan =
     (let ix2 = (if ix_entry_point ix = None then push_point ix p
        else foldl (connect_layer (length (ix_nodes ix))) (push_point ix p) (enumerate 0 plan))
      in if ix_entry_point ix = None \<or> pp_level p > ix_max_level ix
         then ix2\<lparr>ix_entry_point := Some (length (ix_nodes ix)), ix_max_level := pp_level p\<rparr> else ix2)"
  by (simp add: apply_insertion_def push_point_def Let_def)

lemma connected_point_ok:
  assumes inv: "build_inv ix ps" and p: "point_fits ix p" and small: "length ps < 2 ^ 32"
    and plan: "plan_ok ix (pp_level p) plan"
  shows "nodes_inv (foldl (connect_layer (length (ix_nodes ix))) (push_point ix p) (enumerate 0 plan)) \<and>
    same_frame (foldl (connect_layer (length (ix_nodes ix))) (push_point ix p) (enumerate 0 plan)) (push_point ix p)"
proof (rule connect_layers_ok)
  let ?new = "length (ix_nodes ix)"
  have len: "?new = length ps" and nodes: "nodes_inv ix" and lp: "pp_level p \<le> max_level_limit"
    using inv p by (simp_all add: build_inv_def holds_points_def point_fits_def)
  note lev = push_point_level [OF lp, of ix]
  have new_unat: "unat (of_nat ?new :: u32) = ?new"
    using small len by (simp add: unat_of_nat)
  show "nodes_inv (push_point ix p)"
    by (rule push_point_nodes_inv [OF nodes lp]) (use small len in simp)
  show "0 + length plan = Suc (level_of (push_point ix p) ?new)"
    using plan lev [of ?new] by (simp add: plan_ok_def)
  show "\<forall>k\<ge>0. k \<le> level_of (push_point ix p) ?new \<longrightarrow> links_at (push_point ix p) ?new k = []"
    using lev [of ?new] by (simp add: push_point_links)
  show "\<forall>u<length (ix_nodes (push_point ix p)). \<forall>k\<ge>0. k \<le> level_of (push_point ix p) u \<longrightarrow>
      of_nat ?new \<notin> set (links_at (push_point ix p) u k)"
  proof (intro allI impI)
    fix u k assume u: "u < length (ix_nodes (push_point ix p))" and k: "k \<le> level_of (push_point ix p) u"
    show "of_nat ?new \<notin> set (links_at (push_point ix p) u k)"
    proof (cases "u = ?new")
      case True
      then show ?thesis using k lev [of u] by (simp add: push_point_links)
    next
      case False
      then have u': "u < ?new" using u by simp
      then have "link_list_ok ix u k (links_at ix u k)"
        using nodes k lev [of u] by (simp add: nodes_inv_def)
      then show ?thesis
        using new_unat unfolding push_point_links(1) [OF u'] link_list_ok_def by force
    qed
  qed
  show "\<forall>k<length plan. layer_plan_ok (push_point ix p) (0 + k) (plan ! k) \<and> (\<forall>h\<in>set (plan ! k). hi_index h \<noteq> ?new)"
  proof (intro allI impI)
    fix k assume "k < length plan"
    then have ok: "layer_plan_ok ix k (plan ! k)"
      using plan by (simp add: plan_ok_def)
    moreover have "level_of (push_point ix p) v = level_of ix v" if "v < ?new" for v
      using lev [of v] that by simp
    ultimately show "layer_plan_ok (push_point ix p) (0 + k) (plan ! k) \<and> (\<forall>h\<in>set (plan ! k). hi_index h \<noteq> ?new)"
      by (auto simp: layer_plan_ok_def)
  qed
qed simp

lemma apply_insertion_ok:
  assumes inv: "build_inv ix ps" and p: "point_fits ix p" and small: "length ps < 2 ^ 32"
    and plan: "plan_ok ix (pp_level p) plan"
  shows "build_inv (apply_insertion ix p plan) (ps @ [p]) \<and> same_setup (apply_insertion ix p plan) ix \<and>
    ix_entry_point (apply_insertion ix p plan) \<noteq> None \<and>
    (\<forall>level other. plan_ok ix level other \<longrightarrow> plan_ok (apply_insertion ix p plan) level other)"
proof -
  define ix2 where "ix2 = (if ix_entry_point ix = None then push_point ix p
    else foldl (connect_layer (length (ix_nodes ix))) (push_point ix p) (enumerate 0 plan))"
  have parts: "nodes_inv ix" "entry_ok ix" "holds_points ix ps" "ix_compact_graph ix = None"
      "arena_owned (ix_vectors ix)" "arena_ok (ix_vectors ix) (length ps) (ix_dimension ix)"
      "0 < hc_ef_construction (ix_config ix)"
    using inv by (simp_all add: build_inv_def)
  have len: "length (ix_nodes ix) = length ps" and lp: "pp_level p \<le> max_level_limit"
    using parts(3) p by (simp_all add: holds_points_def point_fits_def)
  note push = push_point_holds [OF parts(3) p parts(5,6)]
  have ix2: "nodes_inv ix2" "same_frame ix2 (push_point ix p)"
    using connected_point_ok [OF assms] push_point_nodes_inv [OF parts(1) lp] small len
    by (simp_all add: ix2_def)
  have frame: "ix_vectors ix2 = ix_vectors (push_point ix p)" "ix_dimension ix2 = ix_dimension ix"
      "ix_config ix2 = ix_config ix" "ix_metric ix2 = ix_metric ix" "ix_compact_graph ix2 = None"
      "ix_entry_point ix2 = ix_entry_point ix" "ix_max_level ix2 = ix_max_level ix"
      "length (ix_nodes ix2) = Suc (length ps)"
    using ix2(2) len parts(4) by (simp_all add: same_frame_def) (simp_all add: push_point_def)
  have lev: "level_of ix2 v = (if v = length ps then pp_level p else level_of ix v)" if "v \<le> length ps" for v
  proof -
    have "level_of ix2 v = level_of (push_point ix p) v"
      using ix2(2) by (simp add: same_frame_def)
    then show ?thesis
      using push_point_level [OF lp, of ix v] that len by (cases "v = length ps") auto
  qed
  have holds: "holds_points ix2 (ps @ [p])"
    using push(1) holds_points_frame [OF ix2(2)] by simp
  have result: "apply_insertion ix p plan =
      (if ix_entry_point ix = None \<or> pp_level p > ix_max_level ix
       then ix2\<lparr>ix_entry_point := Some (length ps), ix_max_level := pp_level p\<rparr> else ix2)"
    by (simp add: apply_insertion_eq ix2_def Let_def len)
  have entry: "entry_ok (apply_insertion ix p plan)"
    using parts(2) lev len unfolding result
    by (auto simp: entry_ok_def frame less_Suc_eq_le split: option.splits)
      (metis dual_order.trans le_eq_less_or_eq nat_le_linear not_less_iff_gr_or_eq)+
  have kept: "same_setup (apply_insertion ix p plan) ix"
    using push(4) frame by (simp add: result same_setup_def)
  have mono: "plan_ok (apply_insertion ix p plan) level other" if "plan_ok ix level other" for level other
    using that lev len frame(8) by (fastforce simp: result plan_ok_def layer_plan_ok_def)
  show ?thesis
    using entry kept mono ix2(1) holds push(2,3) frame parts(7)
    by (auto simp: build_inv_def result)
qed

lemma empty_plan_ok: "plan_ok ix level (replicate (Suc level) [])"
  by (simp add: plan_ok_def layer_plan_ok_def nth_Cons' del: replicate_Suc)

lemma plan_insert_ok:
  assumes inv: "build_inv ix ps" and ws: "workspace_ok ws" and ne: "ix_entry_point ix \<noteq> None"
    and plan: "plan_insert ix p ws = (plan, ws')"
  shows "plan_ok ix (pp_level p) plan" "workspace_ok ws'"
proof -
  obtain e where e: "ix_entry_point ix = Some e" using ne by auto
  let ?query = "prepared_ref (pp_vector p)" and ?level = "pp_level p"
  define current where "current = (if ix_max_level ix > ?level
    then descend ix ?query e (ix_max_level ix) (?level + 1) else e)"
  have parts: "nodes_inv ix" "ix_compact_graph ix = None" "0 < hc_ef_construction (ix_config ix)"
      "e < length (ix_nodes ix)" "level_of ix e = ix_max_level ix"
    using inv e by (auto simp: build_inv_def entry_ok_def)
  have "current < length (ix_nodes ix)"
    using descend_range [OF links_ok_building [OF parts(1,2)] parts(4)] parts(4) by (simp add: current_def)
  moreover have "min ?level (ix_max_level ix) \<le> level_of ix current"
  proof (cases "ix_max_level ix > ?level")
    case True
    then show ?thesis
      using descend_level [OF parts(1,2,4), of "ix_max_level ix" "?level + 1" ?query] parts(5)
      by (simp add: current_def)
  next
    case False
    then show ?thesis by (simp add: current_def parts(5))
  qed
  moreover obtain c where "foldl (plan_layer ix ?query) (current, replicate (Suc ?level) [], ws)
      (rev [0..<Suc (min ?level (ix_max_level ix))]) = (c, plan, ws')"
    using plan e by (auto simp: plan_insert_def Let_def current_def simp del: replicate_Suc upt_Suc split: prod.splits if_splits)
  ultimately have "workspace_ok ws' \<and> plan_ok ix ?level plan"
    by (intro plan_layers_ok [OF parts(1-3) ws, where top_layer = "min ?level (ix_max_level ix)"])
      (simp_all add: empty_plan_ok del: replicate_Suc)
  then show "plan_ok ix ?level plan" "workspace_ok ws'" by simp_all
qed

lemma insert_prepared_ok:
  assumes inv: "build_inv ix ps" and ws: "workspace_ok ws" and p: "point_fits ix p" and small: "length ps < 2 ^ 32"
    and step: "insert_prepared (ix, ws) p = (ix', ws')"
  shows "build_inv ix' (ps @ [p])" "same_setup ix' ix" "workspace_ok ws'"
proof -
  obtain plan where plan: "plan_ok ix (pp_level p) plan" "ix' = apply_insertion ix p plan" "workspace_ok ws'"
  proof (cases "ix_entry_point ix = None")
    case True
    then show thesis
      using step ws that [of "replicate (Suc (pp_level p)) []"] empty_plan_ok
      by (simp add: insert_prepared_def del: replicate_Suc)
  next
    case False
    then obtain plan where "plan_insert ix p ws = (plan, ws')" "ix' = apply_insertion ix p plan"
      using step by (auto simp: insert_prepared_def split: prod.splits)
    then show thesis
      using plan_insert_ok [OF inv ws False] that by blast
  qed
  then show "build_inv ix' (ps @ [p])" "same_setup ix' ix" "workspace_ok ws'"
    using apply_insertion_ok [OF inv p small plan(1)] by simp_all
qed

lemma insert_all_ok:
  assumes "build_inv ix ps" "workspace_ok ws" "list_all (point_fits ix) qs" "length ps + length qs \<le> 2 ^ 32"
    and "foldl insert_prepared (ix, ws) qs = (ix', ws')"
  shows "build_inv ix' (ps @ qs) \<and> same_setup ix' ix"
  using assms
proof (induction qs arbitrary: ix ws ps)
  case Nil
  then show ?case by simp
next
  case (Cons q qs)
  obtain ix1 ws1 where step: "insert_prepared (ix, ws) q = (ix1, ws1)"
    by (cases "insert_prepared (ix, ws) q")
  have fits: "point_fits ix q" and small: "length ps < 2 ^ 32"
    using Cons.prems(3,4) by simp_all
  note ok = insert_prepared_ok [OF Cons.prems(1,2) fits small step]
  have "list_all (point_fits ix1) qs"
    using Cons.prems(3) point_fits_setup [OF ok(2)] by (simp add: list_all_iff)
  then show ?case
    using Cons.IH [OF ok(1,3)] Cons.prems(4,5) step same_setup_trans [OF _ ok(2)] by simp
qed

lemma apply_plans_ok:
  assumes "build_inv ix ps" "list_all (\<lambda>(q, plan). point_fits ix q \<and> plan_ok ix (pp_level q) plan) qs"
    "length ps + length qs \<le> 2 ^ 32"
  shows "build_inv (foldl (\<lambda>ix' (point, plan). apply_insertion ix' point plan) ix qs) (ps @ map fst qs) \<and>
    same_setup (foldl (\<lambda>ix' (point, plan). apply_insertion ix' point plan) ix qs) ix \<and>
    (qs \<noteq> [] \<longrightarrow> ix_entry_point (foldl (\<lambda>ix' (point, plan). apply_insertion ix' point plan) ix qs) \<noteq> None)"
  using assms
proof (induction qs arbitrary: ix ps)
  case Nil
  then show ?case by simp
next
  case (Cons x qs)
  obtain q plan where x: "x = (q, plan)" by (cases x)
  have fits: "point_fits ix q" "plan_ok ix (pp_level q) plan" and small: "length ps < 2 ^ 32"
    using Cons.prems(2,3) x by simp_all
  let ?ix1 = "apply_insertion ix q plan"
  have ok: "build_inv ?ix1 (ps @ [q])" "same_setup ?ix1 ix" "ix_entry_point ?ix1 \<noteq> None"
      "\<And>level other. plan_ok ix level other \<Longrightarrow> plan_ok ?ix1 level other"
    using apply_insertion_ok [OF Cons.prems(1) fits(1) small fits(2)] by blast+
  have "list_all (\<lambda>(q, plan). point_fits ?ix1 q \<and> plan_ok ?ix1 (pp_level q) plan) qs"
    using Cons.prems(2) point_fits_setup [OF ok(2)] ok(4) by (auto simp: list_all_iff)
  then show ?case
    using Cons.IH [OF ok(1)] Cons.prems(3) same_setup_trans [OF _ ok(2)] ok(3) x by (cases qs) auto
qed

lemma insert_batch_ok:
  assumes "build_inv ix ps" "ps \<noteq> []" "list_all (point_fits ix) qs" "length ps + length qs \<le> 2 ^ 32"
  shows "build_inv (insert_batch ix qs) (ps @ qs) \<and> same_setup (insert_batch ix qs) ix"
proof -
  have ne: "ix_entry_point ix \<noteq> None"
    using assms(1,2) by (auto simp: build_inv_def entry_ok_def holds_points_def split: option.splits)
  have "plan_ok ix (pp_level q) (fst (plan_insert ix q workspace_new))" for q
    using plan_insert_ok(1) [OF assms(1) _ ne, of workspace_new q]
    by (cases "plan_insert ix q workspace_new") (simp add: workspace_ok_def workspace_new_def)
  then have "list_all (\<lambda>(q, plan). point_fits ix q \<and> plan_ok ix (pp_level q) plan)
      (map (\<lambda>point. (point, fst (plan_insert ix point workspace_new))) qs)"
    using assms(3) by (simp add: list_all_iff)
  from apply_plans_ok [OF assms(1) this] assms(4) show ?thesis
    by (simp add: insert_batch_def comp_def)
qed

lemma insert_batches_ok:
  assumes "build_inv ix ps" "ps \<noteq> []" "list_all (point_fits ix) qs" "length ps + length qs \<le> 2 ^ 32"
  shows "build_inv (insert_batches ix qs) (ps @ qs) \<and> same_setup (insert_batches ix qs) ix"
  using assms
proof (induction ix qs arbitrary: ps rule: insert_batches.induct)
  case (1 ix qs)
  show ?case
  proof (cases "qs = []")
    case True
    then show ?thesis using 1(2) by (simp add: insert_batches.simps)
  next
    case False
    let ?now = "take parallel_build_batch qs" and ?later = "drop parallel_build_batch qs"
    have "list_all (point_fits ix) ?now" "length ps + length ?now \<le> 2 ^ 32"
      using 1(4,5) by (auto simp: list_all_iff dest: in_set_takeD)
    then have ok: "build_inv (insert_batch ix ?now) (ps @ ?now)" "same_setup (insert_batch ix ?now) ix"
      using insert_batch_ok [OF 1(2,3)] by blast+
    have "list_all (point_fits (insert_batch ix ?now)) ?later"
      using 1(4) point_fits_setup [OF ok(2)] by (auto simp: list_all_iff dest: in_set_dropD)
    moreover have "length (ps @ ?now) + length ?later \<le> 2 ^ 32"
      using 1(5) by simp
    ultimately have "build_inv (insert_batches (insert_batch ix ?now) ?later) ((ps @ ?now) @ ?later) \<and>
        same_setup (insert_batches (insert_batch ix ?now) ?later) (insert_batch ix ?now)"
      using 1(1) [OF False ok(1)] 1(3) by blast
    then show ?thesis
      using False same_setup_trans [OF _ ok(2)] by (subst (1 2) insert_batches.simps) simp
  qed
qed

end
