(* ===== verification/HnswCompact.thy ===== *)
theory HnswCompact
  imports HnswInvariant
begin

text \<open>
  The end of the build: pruning every list to its limit, the compact representation with
  the same links, and the theorems about a finished index.
\<close>

section \<open>Pruning every list\<close>

lemma build_inv_frame:
  assumes "build_inv b ps" "nodes_inv a" "same_frame a b"
  shows "build_inv a ps"
  using assms holds_points_frame [OF assms(3)]
  by (auto simp: build_inv_def same_frame_def entry_ok_def split: option.splits)

lemma prune_layers_ok:
  assumes "nodes_inv ix" "v < length (ix_nodes ix)" "n \<le> Suc (level_of ix v)"
  shows "nodes_inv (foldl (\<lambda>ix layer. prune ix v layer) ix [0..<n]) \<and>
    same_frame (foldl (\<lambda>ix layer. prune ix v layer) ix [0..<n]) ix \<and>
    (\<forall>l < n. length (links_at (foldl (\<lambda>ix layer. prune ix v layer) ix [0..<n]) v l)
       \<le> max_connections (ix_config ix) l) \<and>
    (\<forall>u k. length (links_at (foldl (\<lambda>ix layer. prune ix v layer) ix [0..<n]) u k) \<le> length (links_at ix u k))"
  using assms(3)
proof (induction n)
  case 0
  then show ?case using assms(1) by simp
next
  case (Suc n)
  define ix1 where "ix1 = foldl (\<lambda>ix layer. prune ix v layer) ix [0..<n]"
  have IH: "nodes_inv ix1" "same_frame ix1 ix"
    "\<And>l. l < n \<Longrightarrow> length (links_at ix1 v l) \<le> max_connections (ix_config ix) l"
    "\<And>u k. length (links_at ix1 u k) \<le> length (links_at ix u k)"
    using Suc unfolding ix1_def by simp_all
  have frame: "v < length (ix_nodes ix1)" "n \<le> level_of ix1 v" "ix_config ix1 = ix_config ix"
    using IH(2) assms(2) Suc.prems by (simp_all add: same_frame_def)
  note ok = prune_ok [OF IH(1) frame(1,2)]
  have fold: "foldl (\<lambda>ix layer. prune ix v layer) ix [0..<Suc n] = prune ix1 v n"
    by (simp add: ix1_def)
  show ?case
    unfolding fold
  proof (intro conjI allI impI)
    show "nodes_inv (prune ix1 v n)" by (rule ok(1))
    show "same_frame (prune ix1 v n) ix" by (rule same_frame_trans [OF ok(2) IH(2)])
    show "length (links_at (prune ix1 v n) v l) \<le> max_connections (ix_config ix) l" if "l < Suc n" for l
    proof (cases "l = n")
      case True
      then show ?thesis using ok(5) frame(3) by simp
    next
      case False
      then show ?thesis using that IH(3) [of l] ok(6) [of v l] by simp
    qed
    show "length (links_at (prune ix1 v n) u k) \<le> length (links_at ix u k)" for u k
      using ok(6) [of u k] IH(4) [of u k] by simp
  qed
qed

lemma compact_neighbors_ok:
  assumes inv: "nodes_inv ix"
  shows "nodes_inv (compact_neighbors ix)" "same_frame (compact_neighbors ix) ix"
    "\<And>v l. v < length (ix_nodes ix) \<Longrightarrow> l \<le> level_of ix v \<Longrightarrow>
       length (links_at (compact_neighbors ix) v l) \<le> max_connections (ix_config ix) l"
proof -
  define step where "step = (\<lambda>ix node. foldl (\<lambda>ix layer. prune ix node layer) ix
    [0..<length (n_neighbors (ix_nodes ix ! node))])"
  have "nodes_inv (foldl step ix [0..<n]) \<and> same_frame (foldl step ix [0..<n]) ix \<and>
      (\<forall>v < n. \<forall>l \<le> level_of ix v. length (links_at (foldl step ix [0..<n]) v l) \<le> max_connections (ix_config ix) l)"
    if "n \<le> length (ix_nodes ix)" for n
    using that
  proof (induction n)
    case 0
    then show ?case using inv by simp
  next
    case (Suc n)
    define ix1 where "ix1 = foldl step ix [0..<n]"
    have IH: "nodes_inv ix1" "same_frame ix1 ix"
      "\<And>v l. v < n \<Longrightarrow> l \<le> level_of ix v \<Longrightarrow> length (links_at ix1 v l) \<le> max_connections (ix_config ix) l"
      using Suc unfolding ix1_def by auto
    have frame: "n < length (ix_nodes ix1)" "level_of ix1 n = level_of ix n" "ix_config ix1 = ix_config ix"
      using IH(2) Suc.prems by (auto simp: same_frame_def)
    have len: "length (n_neighbors (ix_nodes ix1 ! n)) = Suc (level_of ix1 n)"
      using IH(1) frame(1) by (simp add: nodes_inv_def)
    have now: "nodes_inv (step ix1 n)" "same_frame (step ix1 n) ix1"
      "\<And>l. l \<le> level_of ix1 n \<Longrightarrow> length (links_at (step ix1 n) n l) \<le> max_connections (ix_config ix) l"
      "\<And>u k. length (links_at (step ix1 n) u k) \<le> length (links_at ix1 u k)"
      using prune_layers_ok [OF IH(1) frame(1) le_refl] frame(3)
      by (simp_all only: step_def len less_Suc_eq_le)
    have fold: "foldl step ix [0..<Suc n] = step ix1 n"
      by (simp add: ix1_def)
    have "length (links_at (step ix1 n) v l) \<le> max_connections (ix_config ix) l" if "v < Suc n" "l \<le> level_of ix v" for v l
      using that IH(3) [of v l] now(3,4) frame(2) by (metis le_trans less_antisym)
    then show ?case
      unfolding fold using now(1) same_frame_trans [OF now(2) IH(2)] by blast
  qed
  from this [of "length (ix_nodes ix)"]
  show "nodes_inv (compact_neighbors ix)" "same_frame (compact_neighbors ix) ix"
    "\<And>v l. v < length (ix_nodes ix) \<Longrightarrow> l \<le> level_of ix v \<Longrightarrow>
       length (links_at (compact_neighbors ix) v l) \<le> max_connections (ix_config ix) l"
    unfolding compact_neighbors_def step_def by auto
qed

section \<open>The compact graph has the same links\<close>

definition slice :: "u32 list \<Rightarrow> link_range \<Rightarrow> u32 list" where
  "slice ls r = take (unat (lr_end r) - unat (lr_start r)) (drop (unat (lr_start r)) ls)"

definition stored_at :: "link_range list \<Rightarrow> u32 list \<Rightarrow> nat \<Rightarrow> u32 list list \<Rightarrow> bool" where
  "stored_at rs ls base layers \<longleftrightarrow> base + length layers \<le> length rs \<and>
     (\<forall>l < length layers. unat (lr_end (rs ! (base + l))) \<le> length ls \<and>
        slice ls (rs ! (base + l)) = layers ! l)"

lemma slice_append: "unat (lr_end r) \<le> length ls \<Longrightarrow> slice (ls @ ls') r = slice ls r"
  by (simp add: slice_def)

lemma stored_at_append: "stored_at rs ls base layers \<Longrightarrow> stored_at (rs @ rs') (ls @ ls') base layers"
  by (auto simp: stored_at_def slice_append nth_append)

lemma compact_layers:
  "foldl compact_layer (rs, ls) layers = (rs', ls') \<Longrightarrow> length (ls @ concat layers) < 2 ^ 32 \<Longrightarrow>
   prefix rs rs' \<and> length rs' = length rs + length layers \<and>
   ls' = ls @ concat layers \<and> stored_at rs' ls' (length rs) layers"
proof (induction layers arbitrary: rs' ls' rule: rev_induct)
  case Nil
  then show ?case by (simp add: stored_at_def)
next
  case (snoc x layers)
  obtain r1 l1 where fold: "foldl compact_layer (rs, ls) layers = (r1, l1)"
    by (cases "foldl compact_layer (rs, ls) layers")
  have IH: "prefix rs r1" "length r1 = length rs + length layers"
      "l1 = ls @ concat layers" "stored_at r1 l1 (length rs) layers"
  proof -
    have "length (ls @ concat layers) < 2 ^ 32" using snoc.prems(2) by simp
    from snoc.IH [OF fold this] show "prefix rs r1" "length r1 = length rs + length layers"
      "l1 = ls @ concat layers" "stored_at r1 l1 (length rs) layers" by blast+
  qed
  have out: "rs' = r1 @ [\<lparr>lr_start = of_nat (length l1), lr_end = of_nat (length (l1 @ x))\<rparr>]" "ls' = l1 @ x"
  proof -
    have "compact_layer (r1, l1) x = (rs', ls')"
      using snoc.prems(1) fold by simp
    then show "rs' = r1 @ [\<lparr>lr_start = of_nat (length l1), lr_end = of_nat (length (l1 @ x))\<rparr>]" "ls' = l1 @ x"
      by (auto simp: compact_layer_def)
  qed
  have "length l1 + length x < 2 ^ 32"
    using snoc.prems(2) by (simp add: IH(3))
  then have "unat (of_nat (length l1) :: u32) = length l1" "unat (of_nat (length l1 + length x) :: u32) = length l1 + length x"
    by (simp_all only: unat_of_nat take_bit_eq_mod) simp_all
  then have new: "slice ls' (rs' ! length r1) = x" "unat (lr_end (rs' ! length r1)) \<le> length ls'"
    by (simp_all add: out slice_def)
  have old: "stored_at rs' ls' (length rs) layers"
    using stored_at_append [OF IH(4)] by (simp add: out)
  have "stored_at rs' ls' (length rs) (layers @ [x])"
    unfolding stored_at_def
  proof (intro conjI allI impI)
    show "length rs + length (layers @ [x]) \<le> length rs'"
      using IH(2) by (simp add: out)
    fix l assume "l < length (layers @ [x])"
    then consider "l < length layers" | "l = length layers" by fastforce
    then show "unat (lr_end (rs' ! (length rs + l))) \<le> length ls'"
      "slice ls' (rs' ! (length rs + l)) = (layers @ [x]) ! l"
      using old new IH(2) by (cases, simp_all add: stored_at_def nth_append)+
  qed
  moreover have "prefix rs rs'" "length rs' = length rs + length (layers @ [x])" "ls' = ls @ concat (layers @ [x])"
    using IH(1-3) by (simp_all add: out)
  ultimately show ?case by blast
qed

lemma compact_nodes:
  "foldl compact_node (ns0, rs, ls) nodes = (ns', rs', ls') \<Longrightarrow>
   length rs + (\<Sum>n \<leftarrow> nodes. length (n_neighbors n)) < 2 ^ 32 \<Longrightarrow>
   length ls + (\<Sum>n \<leftarrow> nodes. length (concat (n_neighbors n))) < 2 ^ 32 \<Longrightarrow>
   length rs' = length rs + (\<Sum>n \<leftarrow> nodes. length (n_neighbors n)) \<and>
   length ls' = length ls + (\<Sum>n \<leftarrow> nodes. length (concat (n_neighbors n))) \<and>
   length ns' = length ns0 + length nodes \<and> take (length ns0) ns' = ns0 \<and>
   (\<forall>i < length nodes. n_level (ns' ! (length ns0 + i)) = n_level (nodes ! i) \<and>
      stored_at rs' ls' (unat (range_start (ns' ! (length ns0 + i)))) (n_neighbors (nodes ! i)))"
proof (induction nodes arbitrary: ns' rs' ls' rule: rev_induct)
  case Nil
  then show ?case by simp
next
  case (snoc x nodes)
  obtain n1 r1 l1 where fold: "foldl compact_node (ns0, rs, ls) nodes = (n1, r1, l1)"
    by (cases "foldl compact_node (ns0, rs, ls) nodes")
  have IH: "length r1 = length rs + (\<Sum>n \<leftarrow> nodes. length (n_neighbors n))"
      "length l1 = length ls + (\<Sum>n \<leftarrow> nodes. length (concat (n_neighbors n)))"
      "length n1 = length ns0 + length nodes" "take (length ns0) n1 = ns0"
      "\<And>i. i < length nodes \<Longrightarrow> n_level (n1 ! (length ns0 + i)) = n_level (nodes ! i) \<and>
        stored_at r1 l1 (unat (range_start (n1 ! (length ns0 + i)))) (n_neighbors (nodes ! i))"
    using snoc.IH [OF fold] snoc.prems(2,3) by simp_all
  obtain r2 l2 where layers: "foldl compact_layer (r1, l1) (n_neighbors x) = (r2, l2)"
    by (cases "foldl compact_layer (r1, l1) (n_neighbors x)")
  have out: "ns' = n1 @ [x\<lparr>range_start := of_nat (length r1), n_neighbors := []\<rparr>]" "rs' = r2" "ls' = l2"
  proof -
    have "compact_node (n1, r1, l1) x = (ns', rs', ls')"
      using snoc.prems(1) fold by simp
    then show "ns' = n1 @ [x\<lparr>range_start := of_nat (length r1), n_neighbors := []\<rparr>]" "rs' = r2" "ls' = l2"
      by (simp_all add: compact_node_def layers)
  qed
  have small: "length r1 < 2 ^ 32" "length (l1 @ concat (n_neighbors x)) < 2 ^ 32"
    using snoc.prems(2,3) IH(1,2) by simp_all
  note new = compact_layers [OF layers small(2)]
  obtain r where app: "r2 = r1 @ r" "l2 = l1 @ concat (n_neighbors x)"
    using new by (auto simp: prefix_def)
  have start: "unat (of_nat (length r1) :: u32) = length r1"
    using small(1) by (simp add: unat_of_nat)
  have "n_level (ns' ! (length ns0 + i)) = n_level ((nodes @ [x]) ! i) \<and>
      stored_at rs' ls' (unat (range_start (ns' ! (length ns0 + i)))) (n_neighbors ((nodes @ [x]) ! i))"
    if "i < length (nodes @ [x])" for i
  proof (cases "i = length nodes")
    case True
    moreover have "stored_at r2 l2 (length r1) (n_neighbors x)" using new by blast
    ultimately show ?thesis using IH(3) start by (simp add: out nth_append)
  next
    case False
    then have "i < length nodes" using that by simp
    then show ?thesis
      using IH(3,5) stored_at_append [of r1 l1 _ _ r "concat (n_neighbors x)"] by (simp add: out app nth_append)
  qed
  moreover have "length ns' = length ns0 + length (nodes @ [x])" "take (length ns0) ns' = ns0"
    using IH(3,4) by (simp_all add: out)
  moreover have "length rs' = length rs + (\<Sum>n \<leftarrow> nodes @ [x]. length (n_neighbors n))"
    "length ls' = length ls + (\<Sum>n \<leftarrow> nodes @ [x]. length (concat (n_neighbors n)))"
    using IH(1,2) new by (simp_all add: out)
  ultimately show ?case by blast
qed

lemma finalize_ok:
  assumes fin: "finalize_compact_graph ix = Inr ix'" and inv: "layered ix" and none: "ix_compact_graph ix = None"
  shows "neighbors ix' v l = neighbors ix v l" "length (ix_nodes ix') = length (ix_nodes ix)"
    "v < length (ix_nodes ix) \<Longrightarrow> level_of ix' v = level_of ix v"
    "ix_ids ix' = ix_ids ix" "ix_vectors ix' = ix_vectors ix" "ix_entry_point ix' = ix_entry_point ix"
    "ix_max_level ix' = ix_max_level ix" "ix_config ix' = ix_config ix" "ix_dimension ix' = ix_dimension ix"
    "ix_metric ix' = ix_metric ix" "length (ix_nodes ix) < 2 ^ 32" "ix_compact_graph ix' \<noteq> None"
proof -
  obtain ns rs ls where fold: "foldl compact_node ([], [], []) (ix_nodes ix) = (ns, rs, ls)"
    by (cases "foldl compact_node ([], [], []) (ix_nodes ix)")
  have links: "(\<Sum>n \<leftarrow> ix_nodes ix. length (concat (n_neighbors n))) = (\<Sum>n \<leftarrow> ix_nodes ix. \<Sum>l \<leftarrow> n_neighbors n. length l)"
    by (simp add: length_concat)
  have res: "ix' = ix\<lparr>ix_nodes := ns, ix_compact_graph := Some \<lparr>ranges = rs, links = ls\<rparr>\<rparr>"
    and small: "(\<Sum>n \<leftarrow> ix_nodes ix. length (n_neighbors n)) < 2 ^ 32"
      "(\<Sum>n \<leftarrow> ix_nodes ix. length (concat (n_neighbors n))) < 2 ^ 32"
    using fin none unfolding links by (auto simp: finalize_compact_graph_def Let_def fold split: if_splits)
  have nodes: "length ns = length (ix_nodes ix)"
    "\<And>i. i < length (ix_nodes ix) \<Longrightarrow> n_level (ns ! i) = n_level (ix_nodes ix ! i) \<and>
      stored_at rs ls (unat (range_start (ns ! i))) (n_neighbors (ix_nodes ix ! i))"
    using compact_nodes [OF fold] small by auto
  show "length (ix_nodes ix') = length (ix_nodes ix)" "ix_compact_graph ix' \<noteq> None"
    "ix_ids ix' = ix_ids ix" "ix_vectors ix' = ix_vectors ix" "ix_entry_point ix' = ix_entry_point ix"
    "ix_max_level ix' = ix_max_level ix" "ix_config ix' = ix_config ix" "ix_dimension ix' = ix_dimension ix"
    "ix_metric ix' = ix_metric ix"
    by (simp_all add: res nodes)
  show "v < length (ix_nodes ix) \<Longrightarrow> level_of ix' v = level_of ix v"
    using nodes(2) by (simp add: res level_of_def)
  have "length (ix_nodes ix) = (\<Sum>n \<leftarrow> ix_nodes ix. 1)"
    by (simp add: sum_list_triv)
  also have "\<dots> \<le> (\<Sum>n \<leftarrow> ix_nodes ix. length (n_neighbors n))"
  proof (rule sum_list_mono)
    fix n assume "n \<in> set (ix_nodes ix)"
    then obtain i where "i < length (ix_nodes ix)" "n = ix_nodes ix ! i" by (metis in_set_conv_nth)
    then show "1 \<le> length (n_neighbors n)" using inv by (simp add: layered_def)
  qed
  finally show "length (ix_nodes ix) < 2 ^ 32"
    using small(1) by simp
  show "neighbors ix' v l = neighbors ix v l"
  proof (cases "v < length (ix_nodes ix) \<and> l \<le> level_of ix v")
    case True
    then have "l < length (n_neighbors (ix_nodes ix ! v))"
      using inv by (simp add: layered_def)
    then have "slice ls (rs ! (unat (range_start (ns ! v)) + l)) = n_neighbors (ix_nodes ix ! v) ! l"
      using nodes(2) [of v] True by (simp add: stored_at_def)
    then have "neighbors ix' v l = links_at ix v l"
      using True nodes by (simp add: neighbors_def Let_def res slice_def level_of_def links_at_def)
    then show ?thesis
      using True by (simp add: neighbors_building [OF inv none])
  next
    case False
    then show ?thesis
      using nodes by (auto simp: neighbors_def Let_def res level_of_def)
  qed
qed

section \<open>The number of layers\<close>

text \<open>
  The numbers of layers of the nodes need no assumption: so the check at the end of the
  build also bounds the number of nodes during the build.
\<close>

definition layer_counts :: "hnsw_index \<Rightarrow> nat list" where
  "layer_counts ix = map (\<lambda>n. length (n_neighbors n)) (ix_nodes ix)"

lemma layer_counts_set_links [simp]: "layer_counts (set_links ix v l ls) = layer_counts ix"
  unfolding layer_counts_def by (rule nth_equalityI) simp_all

text \<open>Nor does any step before the last make a compact graph.\<close>

lemma prune_counts [simp]:
  "layer_counts (prune ix v l) = layer_counts ix"
  "ix_compact_graph (prune ix v l) = ix_compact_graph ix"
  by (simp_all add: prune_def Let_def)

lemma connect_neighbors_counts [simp]:
  "layer_counts (foldl (connect_neighbor new l) ix sel) = layer_counts ix"
  "ix_compact_graph (foldl (connect_neighbor new l) ix sel) = ix_compact_graph ix"
  by (induction sel arbitrary: ix) (simp_all add: connect_neighbor_def Let_def)

lemma connect_layers_counts [simp]:
  "layer_counts (foldl (connect_layer new) ix xs) = layer_counts ix"
  "ix_compact_graph (foldl (connect_layer new) ix xs) = ix_compact_graph ix"
  by (induction xs arbitrary: ix) (auto simp: connect_layer_def)

lemma layer_counts_entry [simp]:
  "layer_counts (ix\<lparr>ix_entry_point := e, ix_max_level := m\<rparr>) = layer_counts ix"
  by (simp add: layer_counts_def)

lemma apply_insertion_counts [simp]:
  "layer_counts (apply_insertion ix p plan) = layer_counts ix @ [Suc (pp_level p)]"
  "ix_compact_graph (apply_insertion ix p plan) = ix_compact_graph ix"
proof -
  have "layer_counts (push_point ix p) = layer_counts ix @ [Suc (pp_level p)]"
    "ix_compact_graph (push_point ix p) = ix_compact_graph ix"
    by (simp_all add: push_point_def layer_counts_def)
  then show "layer_counts (apply_insertion ix p plan) = layer_counts ix @ [Suc (pp_level p)]"
    "ix_compact_graph (apply_insertion ix p plan) = ix_compact_graph ix"
    by (simp_all add: apply_insertion_eq Let_def)
qed

lemma insert_prepared_counts:
  "layer_counts (fst (foldl insert_prepared s ps)) = layer_counts (fst s) @ map (\<lambda>p. Suc (pp_level p)) ps \<and>
   ix_compact_graph (fst (foldl insert_prepared s ps)) = ix_compact_graph (fst s)"
proof (induction ps arbitrary: s)
  case (Cons p ps)
  have "layer_counts (fst (insert_prepared s p)) = layer_counts (fst s) @ [Suc (pp_level p)]"
    "ix_compact_graph (fst (insert_prepared s p)) = ix_compact_graph (fst s)"
    by (cases s; simp add: insert_prepared_def split: prod.splits)+
  then show ?case
    using Cons.IH [of "insert_prepared s p"] by simp
qed simp

lemma insert_batch_counts:
  "layer_counts (insert_batch ix qs) = layer_counts ix @ map (\<lambda>p. Suc (pp_level p)) qs"
  "ix_compact_graph (insert_batch ix qs) = ix_compact_graph ix"
proof -
  have "layer_counts (foldl (\<lambda>ix' (point, plan). apply_insertion ix' point plan) ix qs) =
      layer_counts ix @ map (\<lambda>(p, plan). Suc (pp_level p)) qs"
    "ix_compact_graph (foldl (\<lambda>ix' (point, plan). apply_insertion ix' point plan) ix qs) = ix_compact_graph ix" for ix qs
    by (induction qs arbitrary: ix) auto
  then show "layer_counts (insert_batch ix qs) = layer_counts ix @ map (\<lambda>p. Suc (pp_level p)) qs"
    "ix_compact_graph (insert_batch ix qs) = ix_compact_graph ix"
    by (simp_all add: insert_batch_def comp_def)
qed

lemma insert_batches_counts:
  "layer_counts (insert_batches ix ps) = layer_counts ix @ map (\<lambda>p. Suc (pp_level p)) ps \<and>
   ix_compact_graph (insert_batches ix ps) = ix_compact_graph ix"
proof (induction ix ps rule: insert_batches.induct)
  case (1 ix ps)
  show ?case
  proof (cases "ps = []")
    case True
    then show ?thesis by (simp add: insert_batches.simps)
  next
    case False
    have "map (\<lambda>p. Suc (pp_level p)) ps = map (\<lambda>p. Suc (pp_level p)) (take parallel_build_batch ps) @
        map (\<lambda>p. Suc (pp_level p)) (drop parallel_build_batch ps)"
      by (metis append_take_drop_id map_append)
    then show ?thesis
      using 1 [OF False] False insert_batch_counts [of ix "take parallel_build_batch ps"]
      by (subst (1 2) insert_batches.simps) simp
  qed
qed

lemma compact_neighbors_counts [simp]:
  "layer_counts (compact_neighbors ix) = layer_counts ix"
  "ix_compact_graph (compact_neighbors ix) = ix_compact_graph ix"
proof -
  have layers: "layer_counts (foldl (\<lambda>ix layer. prune ix v layer) ix ls) = layer_counts ix"
    "ix_compact_graph (foldl (\<lambda>ix layer. prune ix v layer) ix ls) = ix_compact_graph ix" for v ls ix
    by (induction ls arbitrary: ix) simp_all
  have "layer_counts (foldl (\<lambda>ix node. foldl (\<lambda>ix layer. prune ix node layer) ix (f ix node)) ix vs) = layer_counts ix"
    "ix_compact_graph (foldl (\<lambda>ix node. foldl (\<lambda>ix layer. prune ix node layer) ix (f ix node)) ix vs) = ix_compact_graph ix" for f vs ix
    by (induction vs arbitrary: ix) (simp_all add: layers)
  then show "layer_counts (compact_neighbors ix) = layer_counts ix"
    "ix_compact_graph (compact_neighbors ix) = ix_compact_graph ix"
    by (simp_all only: compact_neighbors_def)
qed

section \<open>The finished index\<close>

definition empty_index :: "nat \<Rightarrow> metric \<Rightarrow> hnsw_config \<Rightarrow> hnsw_vector_storage \<Rightarrow> hnsw_index" where
  "empty_index dim m cfg storage = \<lparr>ix_dimension = dim, ix_metric = m, ix_config = cfg, ix_nodes = [], ix_ids = [],
     ix_vectors = arena_new storage, ix_entry_point = None, ix_max_level = 0, ix_compact_graph = None\<rparr>"

definition inserted :: "nat \<Rightarrow> metric \<Rightarrow> hnsw_config \<Rightarrow> hnsw_vector_storage \<Rightarrow> prepared_point list \<Rightarrow> hnsw_index" where
  "inserted dim m cfg storage ps =
     insert_batches (fst (foldl insert_prepared (empty_index dim m cfg storage, workspace_new)
       (take parallel_build_seed ps))) (drop parallel_build_seed ps)"

lemma build_prepared_points_eq:
  "build_prepared_points dim m cfg storage ps = finalize_compact_graph (compact_neighbors (inserted dim m cfg storage ps))"
  by (simp add: build_prepared_points_def inserted_def empty_index_def Let_def)

lemma inserted_counts:
  "layer_counts (inserted dim m cfg storage ps) = map (\<lambda>p. Suc (pp_level p)) ps"
  "ix_compact_graph (inserted dim m cfg storage ps) = None"
proof -
  have "map (\<lambda>p. Suc (pp_level p)) ps = map (\<lambda>p. Suc (pp_level p)) (take parallel_build_seed ps) @
      map (\<lambda>p. Suc (pp_level p)) (drop parallel_build_seed ps)"
    by (metis append_take_drop_id map_append)
  moreover have "layer_counts (empty_index dim m cfg storage) = []"
    by (simp add: layer_counts_def empty_index_def)
  ultimately show "layer_counts (inserted dim m cfg storage ps) = map (\<lambda>p. Suc (pp_level p)) ps"
    by (simp add: inserted_def insert_batches_counts insert_prepared_counts)
  show "ix_compact_graph (inserted dim m cfg storage ps) = None"
    by (simp add: inserted_def insert_batches_counts insert_prepared_counts) (simp add: empty_index_def)
qed

lemma inserted_ok:
  assumes cfg: "0 < hc_ef_construction cfg"
    and fits: "list_all (point_fits (empty_index dim m cfg storage)) ps" and small: "length ps \<le> 2 ^ 32"
  shows "build_inv (inserted dim m cfg storage ps) ps \<and>
    same_setup (inserted dim m cfg storage ps) (empty_index dim m cfg storage)"
proof -
  let ?e = "empty_index dim m cfg storage"
  let ?seed = "take parallel_build_seed ps" and ?rest = "drop parallel_build_seed ps"
  obtain ix1 ws1 where seed: "foldl insert_prepared (?e, workspace_new) ?seed = (ix1, ws1)"
    by (cases "foldl insert_prepared (?e, workspace_new) ?seed")
  have start: "build_inv ?e []"
    using cfg by (cases storage)
      (simp_all add: build_inv_def nodes_inv_def entry_ok_def holds_points_def empty_index_def)
  have ws: "workspace_ok workspace_new"
    by (simp add: workspace_ok_def workspace_new_def)
  have "list_all (point_fits ?e) ?seed"
    using fits by (auto simp: list_all_iff dest: in_set_takeD)
  then have ok1: "build_inv ix1 ?seed" "same_setup ix1 ?e"
    using insert_all_ok [OF start ws _ _ seed] small by simp_all
  have res: "inserted dim m cfg storage ps = insert_batches ix1 ?rest"
    by (simp add: inserted_def seed)
  show ?thesis
  proof (cases "?rest = []")
    case True
    then have "?seed = ps" by simp
    then show ?thesis
      using ok1 unfolding res True by (simp add: insert_batches.simps)
  next
    case False
    then have "?seed \<noteq> []" by (auto simp: parallel_build_seed_def)
    moreover have "list_all (point_fits ix1) ?rest"
      using fits point_fits_setup [OF ok1(2)] by (auto simp: list_all_iff dest: in_set_dropD)
    moreover have "length ?seed + length ?rest \<le> 2 ^ 32"
      using small by simp
    ultimately have "build_inv (insert_batches ix1 ?rest) (?seed @ ?rest) \<and> same_setup (insert_batches ix1 ?rest) ix1"
      using insert_batches_ok [OF ok1(1)] by blast
    then show ?thesis
      using same_setup_trans [OF _ ok1(2)] by (simp add: res)
  qed
qed

definition well_linked :: "hnsw_index \<Rightarrow> bool" where
  "well_linked ix \<longleftrightarrow> (\<forall>v l. length (neighbors ix v l) \<le> max_connections (ix_config ix) l \<and>
     link_list_ok ix v l (neighbors ix v l)) \<and>
     (\<forall>v < length (ix_nodes ix). level_of ix v \<le> max_level_limit)"

lemma deterministic_level_le: "deterministic_level i m \<le> max_level_limit"
proof -
  have "level_loop n hash threshold \<le> n" for n hash threshold
    by (induction n arbitrary: hash) auto
  then show ?thesis by (simp add: deterministic_level_def)
qed

lemma link_list_ok_cong:
  assumes "length (ix_nodes a) = length (ix_nodes b)" "\<And>v. v < length (ix_nodes b) \<Longrightarrow> level_of a v = level_of b v"
  shows "link_list_ok a v l ls = link_list_ok b v l ls"
  using assms by (auto simp: link_list_ok_def)

lemma build_prepared_points_small:
  assumes "build_prepared_points dim m cfg storage ps = Inr ix"
  shows "length ps \<le> 2 ^ 32"
proof -
  let ?ix = "compact_neighbors (inserted dim m cfg storage ps)"
  have "ix_compact_graph ?ix = None"
    by (simp add: inserted_counts)
  then have "sum_list (layer_counts ?ix) < 2 ^ 32"
    using assms by (auto simp: build_prepared_points_eq finalize_compact_graph_def Let_def layer_counts_def
        split: if_splits)
  moreover have "length ps \<le> sum_list (map (\<lambda>p. Suc (pp_level p)) ps)"
    by (induction ps) auto
  ultimately show ?thesis
    by (simp add: inserted_counts)
qed

lemma build_prepared_points_ok:
  assumes build: "build_prepared_points dim m cfg storage ps = Inr ix"
    and cfg: "0 < hc_ef_construction cfg"
    and fits: "\<And>p. p \<in> set ps \<Longrightarrow> pp_level p \<le> max_level_limit \<and> prepared_ok (pp_vector p) storage dim"
  shows "links_ok ix" "entry_ok ix" "well_linked ix" "holds_points ix ps"
    "ix_config ix = cfg" "ix_dimension ix = dim" "ix_metric ix = m" "arena_storage (ix_vectors ix) = storage"
proof -
  let ?ins = "inserted dim m cfg storage ps"
  let ?ix = "compact_neighbors ?ins"
  have "arena_storage (arena_new storage) = storage"
    by (cases storage) simp_all
  then have "list_all (point_fits (empty_index dim m cfg storage)) ps"
    using fits by (simp add: list_all_iff point_fits_def empty_index_def)
  then have ins: "build_inv ?ins ps" "same_setup ?ins (empty_index dim m cfg storage)"
    using inserted_ok [OF cfg _ build_prepared_points_small [OF build]] by blast+
  have nodes: "nodes_inv ?ins" using ins(1) by (simp add: build_inv_def)
  note pruned = compact_neighbors_ok [OF nodes]
  have inv: "build_inv ?ix ps"
    by (rule build_inv_frame [OF ins(1) pruned(1,2)])
  have parts: "nodes_inv ?ix" "entry_ok ?ix" "holds_points ?ix ps" "ix_compact_graph ?ix = None"
    using inv by (simp_all add: build_inv_def)
  have frame: "length (ix_nodes ?ix) = length (ix_nodes ?ins)" "level_of ?ix v = level_of ?ins v"
    "ix_config ?ix = ix_config ?ins" "ix_dimension ?ix = ix_dimension ?ins"
    "ix_metric ?ix = ix_metric ?ins" "ix_vectors ?ix = ix_vectors ?ins" for v
    using pruned(2) by (simp_all add: same_frame_def)
  have cfgs: "ix_config ?ins = cfg" "ix_dimension ?ins = dim" "ix_metric ?ins = m"
    "arena_storage (ix_vectors ?ins) = storage"
    using ins(2) by (cases storage; simp add: same_setup_def empty_index_def)+
  have fin: "finalize_compact_graph ?ix = Inr ix"
    using build by (simp add: build_prepared_points_eq)
  note out = finalize_ok [OF fin nodes_inv_layered [OF parts(1)] parts(4)]
  have level: "level_of ix v = level_of ?ix v" if "v < length (ix_nodes ?ix)" for v
    by (rule out(3) [OF that])
  show "ix_config ix = cfg" "ix_dimension ix = dim" "ix_metric ix = m" "arena_storage (ix_vectors ix) = storage"
    using out(5,8-10) frame(3-6) cfgs by simp_all
  show "links_ok ix"
    using links_ok_building [OF parts(1,4)] out(1,2) by (simp add: links_ok_def)
  show "entry_ok ix"
    using parts(2) level out(2,6,7) by (auto simp: entry_ok_def split: option.splits)
  show "holds_points ix ps"
    using parts(3) level out(2,4,5,9) by (simp add: holds_points_def vector_at_def)
  have "length (neighbors ?ix v l) \<le> max_connections cfg l \<and> link_list_ok ?ix v l (neighbors ?ix v l)" for v l
    using parts(1) pruned(3) [of v l] frame cfgs(1)
    by (auto simp: neighbors_building [OF nodes_inv_layered [OF parts(1)] parts(4)] nodes_inv_def link_list_ok_def)
  then show "well_linked ix"
    using link_list_ok_cong [of ix ?ix, OF out(2) level] level out(1,2,8) frame(3) cfgs(1) parts(1)
    by (simp add: well_linked_def nodes_inv_def)
qed

text \<open>Both ways to build an index prepare its points, each with the level of its ID.\<close>

definition prepared_of :: "nat \<Rightarrow> metric \<Rightarrow> hnsw_config \<Rightarrow> hnsw_vector_storage \<Rightarrow> string \<times> f32 list \<Rightarrow> prepared_point result" where
  "prepared_of dim m cfg storage p = (case p of (i, v) \<Rightarrow>
     if length v \<noteq> dim then Inl (InvalidDimension dim (length v))
     else rbind (prepare m v) (\<lambda>w. Inr \<lparr>pp_id = i, pp_vector = prepared_new w storage,
       pp_level = deterministic_level i (hc_m cfg)\<rparr>))"

lemma build_with_storage_eq:
  "build_with_storage dim m cfg storage ps =
     rbind (validate_config dim cfg) (\<lambda>_. rbind (check_point_ids [] (map fst ps)) (\<lambda>_.
     rbind (try_map (prepared_of dim m cfg storage) ps) (build_prepared_points dim m cfg storage)))"
  unfolding build_with_storage_def prepared_of_def by (simp add: case_prod_unfold)

lemma check_point_ids_Inr: "check_point_ids known is = Inr u \<longleftrightarrow> [] \<notin> set is \<and> distinct is \<and> set known \<inter> set is = {}"
  by (induction known "is" rule: check_point_ids.induct) auto

lemma check_prepared_Inr:
  "check_prepared dim known ps = Inr u \<longleftrightarrow> [] \<notin> set (map fst ps) \<and> distinct (map fst ps) \<and>
     set known \<inter> set (map fst ps) = {} \<and> (\<forall>p \<in> set ps. length (snd p) = dim \<and> list_all f32_is_finite (snd p))"
  by (induction dim known ps rule: check_prepared.induct) (auto simp: list_ex_iff list_all_iff)

lemma validate_config_Inr:
  "validate_config dim cfg = Inr u \<longleftrightarrow> 0 < dim \<and> 2 \<le> hc_m cfg \<and> hc_m cfg \<le> hc_ef_construction cfg"
  by (auto simp: validate_config_def)

lemma prepared_of_Inr:
  "prepared_of dim m cfg storage p = Inr q \<Longrightarrow> pp_id q = fst p \<and> length (snd p) = dim \<and>
     pp_level q = deterministic_level (fst p) (hc_m cfg) \<and> prepared_ok (pp_vector q) storage dim \<and>
     (\<exists>w. prepare m (snd p) = Inr w \<and> pp_vector q = prepared_new w storage)"
  using prepared_new_ok prepare_length
  by (auto simp: prepared_of_def rbind_eq_Inr split: prod.splits if_splits) metis

lemma build_with_storage_points:
  assumes "build_with_storage dim m cfg storage ps = Inr ix"
  obtains qs where "build_prepared_points dim m cfg storage qs = Inr ix" "0 < hc_ef_construction cfg"
    "length qs = length ps" "map pp_id qs = map fst ps" "distinct (map fst ps)"
    "\<And>v. v < length ps \<Longrightarrow> prepared_of dim m cfg storage (ps ! v) = Inr (qs ! v)"
proof -
  obtain qs where qs: "try_map (prepared_of dim m cfg storage) ps = Inr qs"
    and build: "build_prepared_points dim m cfg storage qs = Inr ix"
    and valid: "validate_config dim cfg = Inr ()" "check_point_ids [] (map fst ps) = Inr ()"
    using assms by (auto simp: build_with_storage_eq rbind_eq_Inr)
  have all: "length qs = length ps" "\<And>v. v < length ps \<Longrightarrow> prepared_of dim m cfg storage (ps ! v) = Inr (qs ! v)"
    using qs by (auto simp: try_map_eq_Inr list_all2_conv_all_nth)
  have "map pp_id qs = map fst ps"
  proof (rule nth_equalityI)
    show "map pp_id qs ! i = map fst ps ! i" if "i < length (map pp_id qs)" for i
      using that all(1) prepared_of_Inr [OF all(2), of i] by simp
  qed (simp add: all(1))
  then show thesis
    using that [OF build] valid all by (simp add: check_point_ids_Inr validate_config_Inr)
qed

lemma graph_ok_built: "links_ok ix \<Longrightarrow> entry_ok ix \<Longrightarrow> holds_points ix ps \<Longrightarrow> distinct (map pp_id ps) \<Longrightarrow> graph_ok ix"
  by (auto simp: graph_ok_def entry_ok_def holds_points_def split: option.splits)

lemma build_with_storage_ok:
  assumes "build_with_storage dim m cfg storage ps = Inr ix"
  shows "graph_ok ix" "entry_ok ix" "well_linked ix" "ix_ids ix = map fst ps"
    "ix_config ix = cfg" "ix_dimension ix = dim" "ix_metric ix = m" "arena_storage (ix_vectors ix) = storage"
    "length (ix_nodes ix) = length ps"
    "\<And>v. v < length ps \<Longrightarrow> level_of ix v = deterministic_level (fst (ps ! v)) (hc_m cfg) \<and>
       (\<exists>w. prepare m (snd (ps ! v)) = Inr w \<and> vector_at ix v = prepared_ref (prepared_new w storage))"
proof -
  obtain qs where qs: "build_prepared_points dim m cfg storage qs = Inr ix" "0 < hc_ef_construction cfg"
    "length qs = length ps" "map pp_id qs = map fst ps" "distinct (map fst ps)"
    "\<And>v. v < length ps \<Longrightarrow> prepared_of dim m cfg storage (ps ! v) = Inr (qs ! v)"
    using build_with_storage_points [OF assms] by metis
  have "pp_level q \<le> max_level_limit \<and> prepared_ok (pp_vector q) storage dim" if q: "q \<in> set qs" for q
  proof -
    obtain v where "v < length ps" "q = qs ! v" using q qs(3) by (metis in_set_conv_nth)
    then show ?thesis using prepared_of_Inr [OF qs(6)] deterministic_level_le by simp
  qed
  note ok = build_prepared_points_ok [OF qs(1,2) this]
  show "graph_ok ix"
    using graph_ok_built [OF ok(1,2,4)] qs(4,5) by simp
  show "entry_ok ix" "well_linked ix" "ix_config ix = cfg" "ix_dimension ix = dim" "ix_metric ix = m"
    "arena_storage (ix_vectors ix) = storage"
    using ok by blast+
  show "ix_ids ix = map fst ps" "length (ix_nodes ix) = length ps"
    using ok(4) qs(3,4) by (simp_all add: holds_points_def)
  show "level_of ix v = deterministic_level (fst (ps ! v)) (hc_m cfg) \<and>
       (\<exists>w. prepare m (snd (ps ! v)) = Inr w \<and> vector_at ix v = prepared_ref (prepared_new w storage))"
    if "v < length ps" for v
    using ok(4) qs(3) that prepared_of_Inr [OF qs(6) [OF that]] by (auto simp: holds_points_def)
qed

lemma build_quantized_prepared_ok:
  assumes "build_quantized_prepared dim m cfg ps = Inr ix"
  shows "graph_ok ix" "entry_ok ix" "well_linked ix" "ix_ids ix = map fst ps"
    "ix_config ix = cfg" "ix_dimension ix = dim" "ix_metric ix = m"
    "arena_storage (ix_vectors ix) = ScalarInt8Storage" "length (ix_nodes ix) = length ps"
    "\<And>v. v < length ps \<Longrightarrow> vector_at ix v = prepared_ref (PreparedInt8 (quantize (snd (ps ! v))))"
proof -
  let ?qs = "map (\<lambda>(i, v). \<lparr>pp_id = i, pp_vector = PreparedInt8 (quantize v),
    pp_level = deterministic_level i (hc_m cfg)\<rparr>) ps"
  have valid: "validate_config dim cfg = Inr ()" "check_prepared dim [] ps = Inr ()"
    and build: "build_prepared_points dim m cfg ScalarInt8Storage ?qs = Inr ix"
    using assms by (auto simp: build_quantized_prepared_def rbind_eq_Inr)
  have ids: "map pp_id ?qs = map fst ps" "distinct (map fst ps)"
    using valid(2) by (auto simp: check_prepared_Inr)
  have "pp_level q \<le> max_level_limit \<and> prepared_ok (pp_vector q) ScalarInt8Storage dim" if "q \<in> set ?qs" for q
    using that valid(2) deterministic_level_le by (auto simp: check_prepared_Inr quantize_def Let_def)
  moreover have "0 < hc_ef_construction cfg"
    using valid(1) by (simp add: validate_config_Inr)
  ultimately have ok: "links_ok ix" "entry_ok ix" "well_linked ix" "holds_points ix ?qs"
    "ix_config ix = cfg" "ix_dimension ix = dim" "ix_metric ix = m"
    "arena_storage (ix_vectors ix) = ScalarInt8Storage"
    using build_prepared_points_ok [OF build] by blast+
  show "graph_ok ix"
    by (rule graph_ok_built [OF ok(1,2,4)]) (simp only: ids)
  show "entry_ok ix" "well_linked ix" "ix_config ix = cfg" "ix_dimension ix = dim" "ix_metric ix = m"
    "arena_storage (ix_vectors ix) = ScalarInt8Storage"
    using ok by blast+
  show "ix_ids ix = map fst ps" "length (ix_nodes ix) = length ps"
    using ok(4) ids(1) by (simp_all add: holds_points_def)
  show "vector_at ix v = prepared_ref (PreparedInt8 (quantize (snd (ps ! v))))" if "v < length ps" for v
    using ok(4) that by (simp add: holds_points_def case_prod_unfold)
qed

section \<open>Building succeeds\<close>

lemma links_of_node_le:
  assumes "length ls \<le> 33" "\<And>l. l < length ls \<Longrightarrow> length (ls ! l) \<le> (if l = 0 then 2 * m else m)"
  shows "(\<Sum>l \<leftarrow> ls. length l) \<le> 34 * m"
proof (cases ls)
  case (Cons x xs)
  have "(\<Sum>l \<leftarrow> xs. length l) \<le> (\<Sum>l \<leftarrow> xs. m)"
  proof (rule sum_list_mono)
    fix y assume "y \<in> set xs"
    then obtain i where "i < length xs" "y = xs ! i" by (metis in_set_conv_nth)
    then show "length y \<le> m" using assms(2) [of "Suc i"] Cons by simp
  qed
  also have "\<dots> \<le> 32 * m"
    using assms(1) Cons by (simp add: sum_list_triv)
  finally have "(\<Sum>l \<leftarrow> xs. length l) \<le> 32 * m" .
  moreover have "length x \<le> 2 * m"
    using assms(2) [of 0] Cons by simp
  ultimately show ?thesis using Cons by simp
qed simp

lemma finalize_total:
  assumes "nodes_inv ix"
    and "\<And>v l. v < length (ix_nodes ix) \<Longrightarrow> l \<le> level_of ix v \<Longrightarrow>
      length (links_at ix v l) \<le> max_connections (ix_config ix) l"
    and "length (ix_nodes ix) * 34 * hc_m (ix_config ix) < 2 ^ 32" "2 \<le> hc_m (ix_config ix)"
  shows "\<exists>ix'. finalize_compact_graph ix = Inr ix'"
proof -
  let ?n = "length (ix_nodes ix)" and ?m = "hc_m (ix_config ix)"
  have node: "length (n_neighbors n) \<le> 33" "(\<Sum>l \<leftarrow> n_neighbors n. length l) \<le> 34 * ?m" if n: "n \<in> set (ix_nodes ix)" for n
  proof -
    obtain v where v: "v < ?n" "n = ix_nodes ix ! v" using n by (metis in_set_conv_nth)
    have len: "length (n_neighbors n) = Suc (level_of ix v)" "level_of ix v \<le> 32"
    proof -
      have "level_of ix v \<le> max_level_limit \<and> length (n_neighbors (ix_nodes ix ! v)) = Suc (level_of ix v)"
        using assms(1) v(1) unfolding nodes_inv_def by blast
      then show "length (n_neighbors n) = Suc (level_of ix v)" "level_of ix v \<le> 32"
        by (simp_all add: v(2) max_level_limit_def)
    qed
    then show "length (n_neighbors n) \<le> 33" by simp
    show "(\<Sum>l \<leftarrow> n_neighbors n. length l) \<le> 34 * ?m"
    proof (rule links_of_node_le)
      fix l assume "l < length (n_neighbors n)"
      then have "l \<le> level_of ix v" by (simp add: len(1))
      then have "length (links_at ix v l) \<le> max_connections (ix_config ix) l"
        by (rule assms(2) [OF v(1)])
      then show "length (n_neighbors n ! l) \<le> (if l = 0 then 2 * ?m else ?m)"
        unfolding v(2) links_at_def max_connections_def saturating_mul_def by (auto split: if_splits)
    qed (simp add: len)
  qed
  define layers where "layers = (\<Sum>n \<leftarrow> ix_nodes ix. length (n_neighbors n))"
  define lks where "lks = (\<Sum>n \<leftarrow> ix_nodes ix. \<Sum>l \<leftarrow> n_neighbors n. length l)"
  have "layers \<le> (\<Sum>n \<leftarrow> ix_nodes ix. 34)"
    unfolding layers_def by (rule sum_list_mono) (rule le_SucI [of _ 33, simplified], rule node(1))
  then have "layers \<le> ?n * 34"
    by (simp add: sum_list_triv)
  moreover have "?n * 34 * 1 \<le> ?n * 34 * ?m"
    by (rule mult_le_mono2) (use assms(4) in simp)
  ultimately have "layers < 2 ^ 32"
    using assms(3) by linarith
  have "lks \<le> (\<Sum>n \<leftarrow> ix_nodes ix. 34 * ?m)"
    unfolding lks_def by (rule sum_list_mono) (rule node(2))
  then have "lks \<le> ?n * 34 * ?m"
    by (simp add: sum_list_triv)
  then have "lks < 2 ^ 32"
    using assms(3) by linarith
  moreover note \<open>layers < 2 ^ 32\<close>
  ultimately have "\<not> layers > usize_max" "\<not> lks > usize_max" "\<not> (layers \<ge> 2 ^ 32 \<or> lks \<ge> 2 ^ 32)"
    by (simp_all add: usize_max_def)
  then show ?thesis
    unfolding finalize_compact_graph_def Let_def layers_def [symmetric] lks_def [symmetric]
    by (cases "foldl compact_node ([], [], []) (ix_nodes ix)") auto
qed

lemma build_prepared_points_total:
  assumes cfg: "2 \<le> hc_m cfg" "hc_m cfg \<le> hc_ef_construction cfg" and small: "length ps * 34 * hc_m cfg < 2 ^ 32"
    and fits: "\<And>p. p \<in> set ps \<Longrightarrow> pp_level p \<le> max_level_limit \<and> prepared_ok (pp_vector p) storage dim"
  shows "\<exists>ix. build_prepared_points dim m cfg storage ps = Inr ix"
proof -
  let ?ins = "inserted dim m cfg storage ps"
  have "length ps \<le> length ps * 34 * hc_m cfg"
    using cfg(1) by simp
  then have len: "length ps \<le> 2 ^ 32"
    by (rule order.trans [OF _ less_imp_le [OF small]])
  have "arena_storage (arena_new storage) = storage"
    by (cases storage) simp_all
  then have "list_all (point_fits (empty_index dim m cfg storage)) ps"
    using fits by (simp add: list_all_iff point_fits_def empty_index_def)
  moreover have "0 < hc_ef_construction cfg" using cfg by simp
  ultimately have ins: "build_inv ?ins ps" "same_setup ?ins (empty_index dim m cfg storage)"
    using inserted_ok len by blast+
  have nodes: "nodes_inv ?ins" "length (ix_nodes ?ins) = length ps" "ix_config ?ins = cfg"
    using ins by (simp_all add: build_inv_def holds_points_def same_setup_def empty_index_def)
  note pruned = compact_neighbors_ok [OF nodes(1)]
  have frame: "length (ix_nodes (compact_neighbors ?ins)) = length ps" "ix_config (compact_neighbors ?ins) = cfg"
    "level_of (compact_neighbors ?ins) v = level_of ?ins v" for v
    using pruned(2) nodes by (simp_all add: same_frame_def)
  have "\<exists>ix'. finalize_compact_graph (compact_neighbors ?ins) = Inr ix'"
    by (rule finalize_total [OF pruned(1)]) (use pruned(3) frame nodes small cfg in simp_all)
  then show ?thesis by (simp add: build_prepared_points_eq)
qed

lemma build_with_storage_total:
  assumes "0 < dim" "2 \<le> hc_m cfg" "hc_m cfg \<le> hc_ef_construction cfg" "length ps * 34 * hc_m cfg < 2 ^ 32"
    and "[] \<notin> fst ` set ps" "distinct (map fst ps)"
    and "\<forall>(i, v) \<in> set ps. length v = dim \<and> (\<exists>w. prepare m v = Inr w)"
  shows "\<exists>ix. build_with_storage dim m cfg storage ps = Inr ix"
proof -
  have "\<exists>q. prepared_of dim m cfg storage p = Inr q" if "p \<in> set ps" for p
    using assms(7) that by (fastforce simp: prepared_of_def split: prod.splits)
  then obtain f where "\<forall>p \<in> set ps. prepared_of dim m cfg storage p = Inr (f p)"
    by metis
  then have "list_all2 (\<lambda>p q. prepared_of dim m cfg storage p = Inr q) ps (map f ps)"
    by (simp add: list_all2_conv_all_nth)
  then obtain qs where qs: "list_all2 (\<lambda>p q. prepared_of dim m cfg storage p = Inr q) ps qs"
    by blast
  then have tried: "try_map (prepared_of dim m cfg storage) ps = Inr qs"
    by (simp add: try_map_eq_Inr)
  have len: "length qs = length ps"
    using qs by (simp add: list_all2_lengthD)
  have "pp_level q \<le> max_level_limit \<and> prepared_ok (pp_vector q) storage dim" if q: "q \<in> set qs" for q
  proof -
    obtain v where "v < length ps" "q = qs ! v" using q len by (metis in_set_conv_nth)
    then have "prepared_of dim m cfg storage (ps ! v) = Inr q"
      using qs by (simp add: list_all2_conv_all_nth)
    then show ?thesis using prepared_of_Inr deterministic_level_le by metis
  qed
  then have "\<exists>ix. build_prepared_points dim m cfg storage qs = Inr ix"
    using build_prepared_points_total [OF assms(2,3)] assms(4) len by simp
  moreover have "validate_config dim cfg = Inr ()"
    using assms(1-3) by (simp add: validate_config_Inr)
  moreover have "check_point_ids [] (map fst ps) = Inr ()"
    using assms(5,6) by (simp add: check_point_ids_Inr)
  ultimately show ?thesis
    by (simp add: build_with_storage_eq tried)
qed

section \<open>Properties of a built index\<close>

text \<open>
  C16: every index the builder returns is well formed. Its entry point is a node of the
  highest layer, all links stay inside the graph and on layers their targets have, no node
  links to itself or twice to another node, and no list is longer than its layer allows.
\<close>

theorem hnsw_build_graph:
  assumes "build_with_storage dim m cfg storage ps = Inr ix \<or> build_quantized_prepared dim m cfg ps = Inr ix"
  shows "graph_ok ix \<and> entry_ok ix \<and> well_linked ix"
  using assms
proof
  assume built: "build_with_storage dim m cfg storage ps = Inr ix"
  show ?thesis using build_with_storage_ok(1-3) [OF built] by simp
next
  assume built: "build_quantized_prepared dim m cfg ps = Inr ix"
  show ?thesis using build_quantized_prepared_ok(1-3) [OF built] by simp
qed

definition demo_config :: hnsw_config where
  "demo_config = \<lparr>hc_m = 2, hc_ef_construction = 4\<rparr>"

definition demo_points :: "(string \<times> f32 list) list" where
  "demo_points = [(''a'', [0x3f800000]), (''b'', [0x40000000])]"

lemma demo_build: "\<exists>ix. build_with_storage 1 DotProduct demo_config F32Storage demo_points = Inr ix"
  by (rule build_with_storage_total)
    (auto simp: demo_config_def demo_points_def prepare_plain f32_is_finite_def, code_simp+)

theorem hnsw_build_graph_witness:
  "\<exists>ix. build_with_storage 1 DotProduct demo_config F32Storage demo_points = Inr ix \<and> graph_ok ix \<and>
     entry_ok ix \<and> well_linked ix"
  using demo_build hnsw_build_graph by blast

text \<open>
  C17: the index holds exactly the given points, in the given order: every ID, and for each
  its vector as the metric prepares it and the storage keeps it, on the layer its ID
  determines.
\<close>

theorem hnsw_build_points:
  assumes "build_with_storage dim m cfg storage ps = Inr ix"
  shows "ix_ids ix = map fst ps \<and> length (ix_nodes ix) = length ps \<and>
    (\<forall>v < length ps. level_of ix v = deterministic_level (fst (ps ! v)) (hc_m cfg) \<and>
       (\<exists>w. prepare m (snd (ps ! v)) = Inr w \<and> vector_at ix v = prepared_ref (prepared_new w storage)))"
  using build_with_storage_ok(4,9,10) [OF assms] by blast

theorem hnsw_build_points_witness:
  "\<exists>ix. build_with_storage 1 DotProduct demo_config F32Storage demo_points = Inr ix \<and>
     ix_ids ix = [''a'', ''b''] \<and> vector_at ix 1 = F32Ref [0x40000000]"
proof -
  obtain ix where ix: "build_with_storage 1 DotProduct demo_config F32Storage demo_points = Inr ix"
    using demo_build by blast
  have all: "ix_ids ix = map fst demo_points"
    "\<forall>v < length demo_points. \<exists>w. prepare DotProduct (snd (demo_points ! v)) = Inr w \<and>
       vector_at ix v = prepared_ref (prepared_new w F32Storage)"
    using hnsw_build_points [OF ix] by blast+
  have "1 < length demo_points"
    by (simp add: demo_points_def)
  with all(2) have "\<exists>w. prepare DotProduct (snd (demo_points ! 1)) = Inr w \<and> vector_at ix 1 = prepared_ref (prepared_new w F32Storage)"
    by blast
  then show ?thesis
    using ix all(1) by (auto simp: demo_points_def prepare_plain)
qed

text \<open>
  C18: building succeeds for every valid configuration and every list of points with
  different IDs, the right dimension and preparable vectors, as long as the links fit the
  32-bit addresses of the compact graph. The build terminates on every input.
\<close>

theorem hnsw_build_total:
  assumes "0 < dim" "2 \<le> hc_m cfg" "hc_m cfg \<le> hc_ef_construction cfg" "length ps * 34 * hc_m cfg < 2 ^ 32"
    and "[] \<notin> fst ` set ps" "distinct (map fst ps)"
    and "\<forall>(i, v) \<in> set ps. length v = dim \<and> (\<exists>w. prepare m v = Inr w)"
  shows "\<exists>ix. build_with_storage dim m cfg storage ps = Inr ix"
  by (rule build_with_storage_total [OF assms])

theorem hnsw_build_total_witness:
  "\<exists>ix. build_with_storage 1 DotProduct demo_config ScalarInt8Storage demo_points = Inr ix"
  by (rule hnsw_build_total)
    (auto simp: demo_config_def demo_points_def prepare_plain f32_is_finite_def, code_simp+)

lemma best_nodes:
  assumes "finite V"
  shows "distinct (take k (map hi_index (sort_items ix (best_of ix q ef V))))"
    "set (take k (map hi_index (sort_items ix (best_of ix q ef V)))) \<subseteq> V"
    "sorted (map (node_key ix q) (take k (map hi_index (sort_items ix (best_of ix q ef V)))))"
    "V \<noteq> {} \<Longrightarrow> 0 < k \<Longrightarrow> 0 < ef \<Longrightarrow> take k (map hi_index (sort_items ix (best_of ix q ef V))) \<noteq> []"
proof -
  let ?items = "sort_items ix (best_of ix q ef V)"
  note facts = scored_facts [OF assms, of ix q]
  have item: "\<exists>v \<in> V. i = layer_item ix q v" if "i \<in> set ?items" for i
    using that facts(3) by (auto simp: sort_items_key best_of_def dest!: in_set_takeD)
  have "distinct ?items"
    using facts(1) by (simp add: sort_items_key best_of_def)
  moreover have "inj_on hi_index (set ?items)"
    by (rule inj_onI) (metis item hi_index_layer_item)
  ultimately show "distinct (take k (map hi_index ?items))"
    by (simp add: distinct_map)
  show "set (take k (map hi_index ?items)) \<subseteq> V"
    using item by (fastforce simp: take_map dest!: in_set_takeD)
  have "map (node_key ix q) (map hi_index ?items) = map (id_key ix) ?items"
    using item by (fastforce simp: id_key_layer_item)
  then have "sorted (map (node_key ix q) (map hi_index ?items))"
    by (simp only: sort_items_key sorted_sort_key)
  then show "sorted (map (node_key ix q) (take k (map hi_index ?items)))"
    by (metis sorted_wrt_take take_map)
  have "length ?items = min ef (card V)"
    using facts(4) by (simp add: sort_items_key best_of_def min.commute)
  then show "V \<noteq> {} \<Longrightarrow> 0 < k \<Longrightarrow> 0 < ef \<Longrightarrow> take k (map hi_index ?items) \<noteq> []"
    using assms by (auto simp: card_eq_0_iff min_def split: if_splits)
qed

text \<open>
  C19: a search of a built index, for any valid query, returns at most \<open>k\<close> hits, and at
  least one if there is a point. The hits are different points of the index, each with its
  own score against the prepared query, best first, ties by ID.
\<close>

theorem hnsw_build_search:
  assumes "build_with_storage dim m cfg storage ps = Inr ix" "pool_ok pool" "0 < k" "k \<le> ef"
    and "length query = dim" "prepare m query = Inr w"
  defines "q \<equiv> prepared_ref (prepared_new w storage)"
  shows "\<exists>hits pool'. hnsw_search pool ix query k ef = Inr (hits, pool') \<and> pool_ok pool' \<and>
    length hits \<le> k \<and> (ps \<noteq> [] \<longrightarrow> hits \<noteq> []) \<and> distinct (map hh_id hits) \<and>
    sorted (map (\<lambda>h. (- f32_key (hh_score h), hh_id h)) hits) \<and>
    (\<forall>h \<in> set hits. \<exists>v < length ps. \<exists>u. hh_id h = fst (ps ! v) \<and> prepare m (snd (ps ! v)) = Inr u \<and>
       hh_score h = score_vectors m q (prepared_ref (prepared_new u storage)))"
proof -
  note ok = build_with_storage_ok [OF assms(1)]
  have query: "length query = ix_dimension ix" "prepare (ix_metric ix) query = Inr w"
    and q: "q = prepared_ref (prepared_new w (arena_storage (ix_vectors ix)))"
    using assms(5,6) ok(6-8) by (simp_all add: q_def)
  show ?thesis
  proof (cases "ix_entry_point ix")
    case None
    then have "ps = []"
      using ok(2,9) by (simp add: entry_ok_def)
    moreover have "hnsw_search pool ix query k ef = Inr ([], pool)"
      using None assms(3,4) query by (simp add: hnsw_search_def Let_def)
    ultimately show ?thesis using assms(2) by simp
  next
    case (Some e)
    obtain V pool' where V: "V \<noteq> {}" "finite V" "pool_ok pool'"
      "hnsw_search pool ix query k ef = Inr (map (node_hit ix q)
         (take k (map hi_index (sort_items ix (best_of ix q ef V)))), pool')"
      "\<And>u. u \<in> V \<Longrightarrow> u < length (ix_nodes ix)"
      using hnsw_search_run [OF ok(1) assms(2-4) query Some] unfolding q by (metis empty_iff)
    define ns where "ns = take k (map hi_index (sort_items ix (best_of ix q ef V)))"
    note found = best_nodes [OF V(2), where k = k and ef = ef and ix = ix and q = q, folded ns_def]
    have range: "n < length ps" if "n \<in> set ns" for n
      using found(2) V(5) ok(9) that by auto
    have ids: "map hh_id (map (node_hit ix q) ns) = map (\<lambda>n. ix_ids ix ! n) ns"
      by (simp add: node_hit_def)
    have "distinct (map hh_id (map (node_hit ix q) ns))"
      unfolding ids using found(1) ok(1,9) range by (auto simp: distinct_map graph_ok_def inj_on_def nth_eq_iff_index_eq)
    moreover have "sorted (map (\<lambda>h. (- f32_key (hh_score h), hh_id h)) (map (node_hit ix q) ns))"
      using found(3) unfolding map_map comp_def node_key_def by (simp add: node_hit_def)
    moreover have "\<exists>v < length ps. \<exists>u. hh_id h = fst (ps ! v) \<and> prepare m (snd (ps ! v)) = Inr u \<and>
        hh_score h = score_vectors m q (prepared_ref (prepared_new u storage))" if h: "h \<in> set (map (node_hit ix q) ns)" for h
    proof -
      obtain n where n: "n < length ps" "h = node_hit ix q n" using h range by auto
      then show ?thesis
        using ok(10) [OF n(1)] ok(4,7) by (auto simp: node_hit_def score_node_def)
    qed
    moreover have "ns \<noteq> []" "length ns \<le> k"
      using found(4) V(1) assms(3,4) by (auto simp: ns_def)
    ultimately show ?thesis
      using V(3,4) unfolding ns_def [symmetric] by (intro exI [of _ "map (node_hit ix q) ns"] exI [of _ pool']) simp
  qed
qed

theorem hnsw_build_search_witness:
  "\<exists>ix hits pool'. build_with_storage 1 DotProduct demo_config F32Storage demo_points = Inr ix \<and>
     hnsw_search [] ix [0x3f800000] 1 2 = Inr (hits, pool') \<and> length hits \<le> 1 \<and> hits \<noteq> []"
proof -
  obtain ix where ix: "build_with_storage 1 DotProduct demo_config F32Storage demo_points = Inr ix"
    using demo_build by blast
  have prep: "prepare DotProduct [0x3f800000] = Inr [0x3f800000]"
    by code_simp
  have "demo_points \<noteq> []"
    by (simp add: demo_points_def)
  then show ?thesis
    using hnsw_build_search [OF ix _ _ _ _ prep, of "[]" 1 2] ix by (auto simp: pool_ok_def)
qed

end
