(* ===== verification/HnswView.thy ===== *)
theory HnswView
  imports HnswCompact
begin

text \<open>
  A search sees an index only through its IDs, its links and its vectors. Indexes that
  agree on these give the same answers, whatever their representation of links and vectors.
\<close>

definition same_view :: "hnsw_index \<Rightarrow> hnsw_index \<Rightarrow> bool" where
  "same_view a b \<longleftrightarrow> length (ix_nodes a) = length (ix_nodes b) \<and> ix_ids a = ix_ids b \<and> ix_metric a = ix_metric b \<and>
     ix_dimension a = ix_dimension b \<and> ix_config a = ix_config b \<and> ix_entry_point a = ix_entry_point b \<and>
     ix_max_level a = ix_max_level b \<and> arena_storage (ix_vectors a) = arena_storage (ix_vectors b) \<and>
     (\<forall>v l. neighbors a v l = neighbors b v l) \<and>
     (\<forall>v < length (ix_nodes b). level_of a v = level_of b v \<and> vector_at a v = vector_at b v)"

lemma same_view_refl [simp]: "same_view a a"
  by (simp add: same_view_def)

lemma same_view_graph_ok: "same_view a b \<Longrightarrow> graph_ok a = graph_ok b"
  by (auto simp: same_view_def graph_ok_def links_ok_def split: option.splits)

lemma score_view: "same_view a b \<Longrightarrow> v < length (ix_nodes b) \<Longrightarrow> score_node a q v = score_node b q v"
  by (simp add: same_view_def score_node_def)

lemma neighbors_view: "same_view a b \<Longrightarrow> neighbors a v l = neighbors b v l"
  by (simp add: same_view_def)

lemma greedy_fold_view:
  assumes view: "same_view a b" and "\<forall>n \<in> set ns. unat n < length (ix_nodes b)" "best < length (ix_nodes b)"
  shows "foldl (greedy_pick a q) (best, s) ns = foldl (greedy_pick b q) (best, s) ns"
  using assms(2,3)
proof (induction ns arbitrary: best s)
  case (Cons n ns)
  have eq: "greedy_pick a q (best, s) n = greedy_pick b q (best, s) n"
    using view Cons.prems score_view [OF view] by (simp add: greedy_pick_def Let_def same_view_def)
  have "fst (greedy_pick b q (best, s) n) < length (ix_nodes b)"
    using Cons.prems by (simp add: greedy_pick_def Let_def)
  then show ?case
    using Cons.IH [of "fst (greedy_pick b q (best, s) n)" "snd (greedy_pick b q (best, s) n)"] Cons.prems(1) eq by simp
qed simp

lemma greedy_step_view:
  assumes "same_view a b" "links_ok b" "current < length (ix_nodes b)"
  shows "greedy_step a q current l = greedy_step b q current l" "greedy_step b q current l < length (ix_nodes b)"
proof -
  show "greedy_step a q current l = greedy_step b q current l"
    using assms greedy_fold_view [OF assms(1) _ assms(3)] score_view [OF assms(1,3)]
    by (simp add: greedy_step_def neighbors_view [OF assms(1)] links_ok_def)
  show "greedy_step b q current l < length (ix_nodes b)"
    using assms(2,3) greedy_step_better(1) [of b q current l]
    by (cases "greedy_step b q current l = current") (auto simp: links_ok_def)
qed

lemma greedy_closest_view:
  assumes "same_view a b" "links_ok b"
  shows "current < length (ix_nodes b) \<Longrightarrow> greedy_closest a q current l = greedy_closest b q current l"
  using assms
proof (induction b q current l rule: greedy_closest.induct)
  case (1 b q current l)
  note step = greedy_step_view [OF 1(3,4,2), of q l]
  show ?case
  proof (cases "greedy_step b q current l = current")
    case True
    then show ?thesis
      using step(1) by (subst (1 2) greedy_closest.simps) (simp add: Let_def)
  next
    case False
    then have "greedy_closest a q (greedy_step b q current l) l = greedy_closest b q (greedy_step b q current l) l"
      using 1(1) [OF refl False step(2) 1(3,4)] by simp
    then show ?thesis
      using False step(1) by (subst (1 2) greedy_closest.simps) (simp add: Let_def)
  qed
qed

lemma descend_view:
  assumes "same_view a b" "links_ok b" "start < length (ix_nodes b)"
  shows "descend a q start high low = descend b q start high low"
proof -
  have "foldl (greedy_closest a q) start ls = foldl (greedy_closest b q) start ls" for ls
    using assms(3)
  proof (induction ls arbitrary: start)
    case (Cons l ls)
    have "descend b q start l l < length (ix_nodes b)"
      using descend_range [OF assms(2) Cons.prems] .
    then have "greedy_closest b q start l < length (ix_nodes b)"
      by (simp add: descend_def)
    then show ?case
      using Cons.IH greedy_closest_view [OF assms(1,2) Cons.prems] by simp
  qed simp
  then show ?thesis by (simp add: descend_def)
qed

section \<open>The beam search\<close>

definition frontier_ok :: "hnsw_index \<Rightarrow> beam \<Rightarrow> bool" where
  "frontier_ok ix b \<longleftrightarrow> (\<forall>i \<in> set (fst b). hi_index i < length (ix_nodes ix))"

lemma visit_neighbor_view:
  assumes "same_view a b" "unat n < length (ix_nodes b)" "frontier_ok b s"
  shows "visit_neighbor a q ef s n = visit_neighbor b q ef s n" "frontier_ok b (visit_neighbor b q ef s n)"
proof -
  have "layer_item a q (unat n) = layer_item b q (unat n)"
    using score_view [OF assms(1,2)] by (simp add: layer_item_def)
  then show "visit_neighbor a q ef s n = visit_neighbor b q ef s n"
    by (simp add: visit_neighbor_def split: prod.split)
  show "frontier_ok b (visit_neighbor b q ef s n)"
    using assms(2,3)
    by (auto simp: visit_neighbor_def frontier_ok_def Let_def heap_push_def layer_item_def split: prod.splits if_splits)
qed

lemma visit_all_view:
  assumes "same_view a b" "\<forall>n \<in> set ns. unat n < length (ix_nodes b)" "frontier_ok b s"
  shows "foldl (visit_neighbor a q ef) s ns = foldl (visit_neighbor b q ef) s ns \<and>
    frontier_ok b (foldl (visit_neighbor b q ef) s ns)"
  using assms(2,3)
proof (induction ns arbitrary: s)
  case (Cons n ns)
  then show ?case
    using visit_neighbor_view [OF assms(1), of n s q ef] by simp
qed simp

lemma search_loop_view:
  assumes "same_view a b" "links_ok b" "frontier_ok b s"
  shows "search_loop a q ef layer s = search_loop b q ef layer s"
  using assms
proof (induction b q ef layer s rule: search_loop.induct)
  case (1 b q ef layer frontier results ws)
  show ?case
  proof (cases "heap_peek frontier")
    case None
    then show ?thesis by (subst (1 2) search_loop.simps) simp
  next
    case (Some c)
    show ?thesis
    proof (cases "length results \<ge> ef \<and> is_some_and (heap_peek results) (\<lambda>worst. item_cmp c worst = Less)")
      case True
      then show ?thesis by (subst (1 2) search_loop.simps) (simp add: Some)
    next
      case False
      have loop: "search_loop ix q ef layer (frontier, results, ws) = search_loop ix q ef layer
          (foldl (visit_neighbor ix q ef) (heap_pop frontier, results, ws) (neighbors ix (hi_index c) layer))" for ix
        using False by (subst search_loop.simps) (simp only: Some option.case if_False)
      have "frontier_ok b (heap_pop frontier, results, ws)"
        using 1(4) by (auto simp: frontier_ok_def heap_pop_def dest: in_set_butlastD)
      then have "foldl (visit_neighbor a q ef) (heap_pop frontier, results, ws) (neighbors b (hi_index c) layer) =
          foldl (visit_neighbor b q ef) (heap_pop frontier, results, ws) (neighbors b (hi_index c) layer)"
        "frontier_ok b (foldl (visit_neighbor b q ef) (heap_pop frontier, results, ws) (neighbors b (hi_index c) layer))"
        using visit_all_view [OF 1(2)] 1(3) by (simp_all add: links_ok_def)
      then show ?thesis
        unfolding loop neighbors_view [OF 1(2)] using 1(1) [OF Some False 1(2,3)] by simp
    qed
  qed
qed

lemma search_layer_view:
  assumes "same_view a b" "links_ok b" "entry < length (ix_nodes b)"
  shows "search_layer a q entry ef layer ws = search_layer b q entry ef layer ws"
proof -
  have item: "layer_item a q entry = layer_item b q entry"
    using score_view [OF assms(1,3)] by (simp add: layer_item_def)
  have "frontier_ok b ([layer_item b q entry], [layer_item b q entry], ws')" for ws'
    using assms(3) by (simp add: frontier_ok_def layer_item_def)
  moreover have "ix_ids a = ix_ids b" "length (ix_nodes a) = length (ix_nodes b)"
    using assms(1) by (simp_all add: same_view_def)
  ultimately show ?thesis
    by (simp add: search_layer_def Let_def item search_loop_view [OF assms(1,2)] sort_items_def split: prod.splits)
qed

lemma hnsw_search_view:
  assumes "same_view a b" "graph_ok b"
  shows "hnsw_search pool a query k ef = hnsw_search pool b query k ef"
proof (cases "ix_entry_point b")
  case None
  then show ?thesis
    using assms(1) by (simp add: hnsw_search_def same_view_def)
next
  case (Some e)
  have e: "e < length (ix_nodes b)" "links_ok b"
    using assms(2) Some by (simp_all add: graph_ok_def)
  have eqs: "ix_ids a = ix_ids b" "ix_metric a = ix_metric b" "ix_dimension a = ix_dimension b"
    "ix_entry_point a = ix_entry_point b" "ix_max_level a = ix_max_level b"
    "arena_storage (ix_vectors a) = arena_storage (ix_vectors b)"
    using assms(1) by (simp_all add: same_view_def)
  show ?thesis
    by (simp add: hnsw_search_def eqs Some descend_view [OF assms(1) e(2,1)]
        search_layer_view [OF assms(1) e(2) descend_range [OF e(2,1)]])
qed

end
