(* ===== verification/HnswCodec.thy ===== *)
theory HnswCodec
  imports HnswView
begin

text \<open>
  The file format of the graph index (\<open>encode_into\<close>, \<open>encoded_len\<close>, \<open>decode_inner\<close> and
  \<open>GraphDecoder\<close> of \<open>src/hnsw.rs\<close>): an index is read back unchanged, and whatever bytes are
  decoded, the result is an error or a graph that can be searched safely.
\<close>

section \<open>Encoding\<close>

definition graph_magic :: bytes where
  "graph_magic = as_bytes ''FVHG''"

definition graph_version :: u8 where
  "graph_version = 2"

definition legacy_graph_version :: u8 where
  "legacy_graph_version = 1"

fun graph_metric_tag :: "metric \<Rightarrow> u8" where
  "graph_metric_tag Cosine = 1"
| "graph_metric_tag DotProduct = 2"
| "graph_metric_tag Euclidean = 3"

definition graph_parse_metric :: "u8 \<Rightarrow> metric result" where
  "graph_parse_metric tag =
     (if tag = 1 then Inr Cosine else if tag = 2 then Inr DotProduct else if tag = 3 then Inr Euclidean
      else Inl (CorruptStorage (''unknown HNSW metric tag '' @ decimal (unat tag))))"

fun storage_tag :: "hnsw_vector_storage \<Rightarrow> u8" where
  "storage_tag F32Storage = 1"
| "storage_tag ScalarInt8Storage = 2"

definition parse_storage :: "u8 \<Rightarrow> hnsw_vector_storage result" where
  "parse_storage tag =
     (if tag = 1 then Inr F32Storage else if tag = 2 then Inr ScalarInt8Storage
      else Inl (CorruptStorage (''unknown HNSW vector storage tag '' @ decimal (unat tag))))"

text \<open>The writers, on a sink that accepts what it is given.\<close>

definition put_u32_writer :: "nat \<Rightarrow> bytes result" where
  "put_u32_writer v = (if v < 2 ^ 32 then Inr (u32_le (of_nat v))
     else Inl (InvalidQuery ''HNSW graph value exceeds format limit''))"

definition put_bytes_writer :: "bytes \<Rightarrow> bytes result" where
  "put_bytes_writer v = rbind (put_u32_writer (length v)) (\<lambda>n. Inr (n @ v))"

fun encode_vector :: "vector_ref \<Rightarrow> bytes" where
  "encode_vector (F32Ref v) = f32s_le v"
| "encode_vector (Int8Ref codes scale norm) = u32_le scale @ codes"

definition encode_layer :: "u32 list \<Rightarrow> bytes result" where
  "encode_layer layer =
     rbind (put_u32_writer (length layer)) (\<lambda>n.
     rbind (put_all (\<lambda>j. put_u32_writer (unat j)) layer) (\<lambda>bs. Inr (n @ bs)))"

definition encode_node :: "hnsw_index \<Rightarrow> nat \<Rightarrow> bytes result" where
  "encode_node ix i =
     (let level = n_level (ix_nodes ix ! i) in
      rbind (put_bytes_writer (as_bytes (ix_ids ix ! i))) (\<lambda>name.
      rbind (put_u32_writer (level + 1)) (\<lambda>n.
      rbind (put_all (\<lambda>layer. encode_layer (neighbors ix i layer)) [0..<Suc level]) (\<lambda>ls.
      Inr (name @ encode_vector (vector_at ix i) @ n @ ls)))))"

definition encode_into :: "hnsw_index \<Rightarrow> bytes result" where
  "encode_into ix =
     rbind (put_u32_writer (hc_m (ix_config ix))) (\<lambda>m.
     rbind (put_u32_writer (hc_ef_construction (ix_config ix))) (\<lambda>ef.
     rbind (put_u32_writer (length (ix_nodes ix))) (\<lambda>n.
     rbind (put_u32_writer (ix_max_level ix)) (\<lambda>l.
     rbind (put_all (encode_node ix) [0..<length (ix_nodes ix)]) (\<lambda>nodes.
     Inr (graph_magic @ [graph_version] @ u64_le (of_nat (ix_dimension ix)) @
       [graph_metric_tag (ix_metric ix)] @ [storage_tag (arena_storage (ix_vectors ix))] @ m @ ef @ n @
       u64_le (case ix_entry_point ix of None \<Rightarrow> - 1 | Some e \<Rightarrow> of_nat e) @ l @ nodes))))))"

definition add_len :: "nat \<Rightarrow> nat \<Rightarrow> nat result" where
  "add_len a b = ok_or (checked_add_usize a b) (ResourceExhausted ''HNSW encoded size overflows'')"

definition encoded_layer_len :: "hnsw_index \<Rightarrow> nat \<Rightarrow> nat \<Rightarrow> nat \<Rightarrow> nat result" where
  "encoded_layer_len ix i len layer =
     rbind (add_len len 4) (\<lambda>len.
     rbind (ok_or (checked_mul_usize (length (neighbors ix i layer)) 4)
       (ResourceExhausted ''HNSW encoded size overflows'')) (\<lambda>n. add_len len n))"

definition encoded_node_len :: "hnsw_index \<Rightarrow> nat \<Rightarrow> nat \<Rightarrow> nat \<Rightarrow> nat result" where
  "encoded_node_len ix vector_bytes len i =
     rbind (add_len len 4) (\<lambda>len.
     rbind (add_len len (length (ix_ids ix ! i))) (\<lambda>len.
     rbind (add_len len vector_bytes) (\<lambda>len.
     rbind (add_len len 4) (\<lambda>len.
     try_fold (encoded_layer_len ix i) len [0..<Suc (n_level (ix_nodes ix ! i))]))))"

definition encoded_len :: "hnsw_index \<Rightarrow> nat result" where
  "encoded_len ix =
     rbind (case arena_storage (ix_vectors ix) of
         F32Storage \<Rightarrow> ok_or (checked_mul_usize (ix_dimension ix) 4) (ResourceExhausted ''HNSW encoded size overflows'')
       | ScalarInt8Storage \<Rightarrow> add_len (ix_dimension ix) 4) (\<lambda>vector_bytes.
     try_fold (encoded_node_len ix vector_bytes) 39 [0..<length (ix_ids ix)])"

definition hnsw_encode :: "hnsw_index \<Rightarrow> bytes result" where
  "hnsw_encode ix = rbind (encoded_len ix) (\<lambda>_. encode_into ix)"

section \<open>Decoding\<close>

text \<open>\<open>GraphDecoder\<close> has the fields of \<open>Decoder\<close> and its own messages.\<close>

definition graph_take :: "nat \<Rightarrow> bytes decode" where
  "graph_take len d =
     rbind (ok_or (checked_add_usize (d_position d) len) (CorruptStorage ''HNSW graph length overflow''))
       (\<lambda>stop. if stop \<le> length (d_bytes d)
         then Inr (take len (drop (d_position d) (d_bytes d)), d\<lparr>d_position := stop\<rparr>)
         else Inl (CorruptStorage ''truncated HNSW graph''))"

definition graph_position :: "nat decode" where
  "graph_position d = Inr (d_position d, d)"

definition graph_byte :: "u8 decode" where
  "graph_byte = dbind (graph_take 1) (\<lambda>bs. dreturn (hd bs))"

definition graph_u64 :: "u64 decode" where
  "graph_u64 = dbind (graph_take 8) (\<lambda>bs. dreturn (le_u64 bs))"

definition graph_usize :: "nat decode" where
  "graph_usize = dbind (graph_take 4) (\<lambda>bs. dreturn (unat (le_u32 bs)))"

definition graph_f32 :: "f32 decode" where
  "graph_f32 = dbind (graph_take 4) (\<lambda>bs. dreturn (le_u32 bs))"

definition graph_string :: "string decode" where
  "graph_string = dbind graph_usize (\<lambda>len.
     dbind (graph_take len) (\<lambda>bs.
     case from_utf8 bs of None \<Rightarrow> dfail (CorruptStorage ''HNSW graph contains invalid UTF-8'')
     | Some s \<Rightarrow> dreturn s))"

definition graph_finish :: "decoder \<Rightarrow> unit result" where
  "graph_finish d = (if d_position d = length (d_bytes d) then Inr ()
     else Inl (CorruptStorage ''trailing bytes in HNSW graph''))"

definition dlift :: "'a result \<Rightarrow> 'a decode" where
  "dlift r d = rbind r (\<lambda>x. Inr (x, d))"

text \<open>A loop that threads a state through \<open>n\<close> rounds of reading.\<close>

primrec decode_loop :: "nat \<Rightarrow> ('s \<Rightarrow> 's decode) \<Rightarrow> 's \<Rightarrow> 's decode" where
  "decode_loop 0 f s = dreturn s"
| "decode_loop (Suc n) f s = dbind (f s) (\<lambda>s'. decode_loop n f s')"

definition decode_component :: "f32 decode" where
  "decode_component = dbind graph_f32 (\<lambda>v.
     if f32_is_finite v then dreturn v
     else dfail (CorruptStorage ''HNSW graph contains a non-finite vector''))"

text \<open>
  A vector is pushed to the arena, or its place in the mapped file is. The mapping is the
  file and the offset of the graph in it.
\<close>

definition decode_vector ::
    "(bytes \<times> nat) option \<Rightarrow> nat \<Rightarrow> hnsw_vector_storage \<Rightarrow> vector_arena \<Rightarrow> vector_arena decode" where
  "decode_vector mapping dim storage vectors =
     (case storage of
        F32Storage \<Rightarrow> dbind (decode_n dim decode_component) (\<lambda>v. dreturn (arena_push vectors (PreparedF32 v)))
      | ScalarInt8Storage \<Rightarrow> dbind graph_f32 (\<lambda>scale.
          if \<not> f32_is_finite scale \<or> f32_le scale f32_zero
          then dfail (CorruptStorage ''HNSW graph contains invalid quantization parameters'')
          else dbind graph_position (\<lambda>code_position. dbind (graph_take dim) (\<lambda>codes.
            case mapping of
              Some (_, mapping_offset) \<Rightarrow> dlift (push_mapped vectors (mapping_offset + code_position) scale
                (quantized_squared_norm_bytes codes scale))
            | None \<Rightarrow> dreturn (arena_push vectors (PreparedInt8 \<lparr>qv_codes = codes, qv_scale = scale,
                qv_squared_norm = quantized_squared_norm codes scale\<rparr>))))))"

definition decode_neighbor :: "u32 decode" where
  "decode_neighbor = dbind graph_usize (\<lambda>v.
     if v < 2 ^ 32 then dreturn (of_nat v)
     else dfail (CorruptStorage ''HNSW neighbor index exceeds u32''))"

primrec decode_layers :: "hnsw_config \<Rightarrow> nat \<Rightarrow> nat \<Rightarrow> u32 list list decode" where
  "decode_layers cfg 0 layer = dreturn []"
| "decode_layers cfg (Suc n) layer = dbind graph_usize (\<lambda>count.
     if count > max_connections cfg layer
     then dfail (CorruptStorage ''HNSW neighbor list exceeds its configured layer limit'')
     else dbind (decode_n count decode_neighbor) (\<lambda>ls.
       dbind (decode_layers cfg n (Suc layer)) (\<lambda>rest. dreturn (ls # rest))))"

type_synonym graph_state = "vector_arena \<times> string list \<times> node list"

definition decode_node ::
    "(bytes \<times> nat) option \<Rightarrow> nat \<Rightarrow> hnsw_vector_storage \<Rightarrow> hnsw_config \<Rightarrow> graph_state \<Rightarrow> graph_state decode" where
  "decode_node mapping dim storage cfg s = (case s of (vectors, ids, nodes) \<Rightarrow>
     dbind graph_string (\<lambda>i.
     if i = [] \<or> i \<in> set ids
     then dfail (CorruptStorage ''HNSW graph contains an empty or duplicate ID'')
     else dbind (decode_vector mapping dim storage vectors) (\<lambda>vectors'.
     dbind graph_usize (\<lambda>layer_count.
     if layer_count = 0 \<or> layer_count > max_level_limit + 1
     then dfail (CorruptStorage ''HNSW node has an invalid layer count'')
     else dbind (decode_layers cfg layer_count 0) (\<lambda>ls.
     dreturn (vectors', ids @ [i],
       nodes @ [\<lparr>n_level = (layer_count - 1) mod 256, range_start = 0, n_neighbors = ls\<rparr>]))))))"

definition check_entry :: "nat \<Rightarrow> node list \<Rightarrow> nat option \<Rightarrow> nat \<Rightarrow> unit result" where
  "check_entry node_count nodes entry_point max_level =
     (if node_count = 0
      then (if entry_point \<noteq> None \<or> max_level \<noteq> 0
        then Inl (CorruptStorage ''empty HNSW graph has an entry point'') else Inr ())
      else rbind (ok_or entry_point (CorruptStorage ''non-empty HNSW graph has no entry point'')) (\<lambda>entry.
        if entry \<ge> node_count \<or> n_level (nodes ! entry) < max_level
        then Inl (CorruptStorage ''invalid HNSW entry point'') else Inr ()))"

definition check_neighbors :: "nat \<Rightarrow> node list \<Rightarrow> unit result" where
  "check_neighbors node_count nodes =
     (if list_ex (\<lambda>(i, n). list_ex (list_ex (\<lambda>j. unat j \<ge> node_count \<or> unat j = i)) (n_neighbors n))
        (enumerate 0 nodes)
      then Inl (CorruptStorage ''HNSW graph contains an invalid neighbor'') else Inr ())"

record graph_header =
  gh_dimension :: nat
  gh_metric :: metric
  gh_storage :: hnsw_vector_storage
  gh_config :: hnsw_config
  gh_node_count :: nat
  gh_entry_point :: "nat option"
  gh_max_level :: nat

text \<open>The conversions of 64-bit values to \<open>usize\<close> cannot fail on the 64-bit targets.\<close>

definition decode_header :: "graph_header decode" where
  "decode_header =
     dbind (graph_take 4) (\<lambda>magic.
     if magic \<noteq> graph_magic then dfail (CorruptStorage ''invalid HNSW graph header'')
     else dbind graph_byte (\<lambda>version.
     if version \<noteq> legacy_graph_version \<and> version \<noteq> graph_version
     then dfail (CorruptStorage ''invalid HNSW graph header'')
     else dbind graph_u64 (\<lambda>dim.
     dbind graph_byte (\<lambda>mtag. dbind (dlift (graph_parse_metric mtag)) (\<lambda>m.
     dbind (if version = legacy_graph_version then dreturn F32Storage
       else dbind graph_byte (\<lambda>stag. dlift (parse_storage stag))) (\<lambda>storage.
     dbind graph_usize (\<lambda>cm. dbind graph_usize (\<lambda>ef.
     dbind (dlift (map_err (\<lambda>e. CorruptStorage (error_to_string e))
       (validate_config (unat dim) \<lparr>hc_m = cm, hc_ef_construction = ef\<rparr>))) (\<lambda>_.
     dbind graph_usize (\<lambda>node_count.
     if node_count > 100000000 then dfail (CorruptStorage ''HNSW node count exceeds limit'')
     else dbind graph_u64 (\<lambda>entry_raw.
     dbind graph_usize (\<lambda>max_level.
     if max_level > max_level_limit then dfail (CorruptStorage ''HNSW level exceeds limit'')
     else dreturn \<lparr>gh_dimension = unat dim, gh_metric = m, gh_storage = storage,
       gh_config = \<lparr>hc_m = cm, hc_ef_construction = ef\<rparr>, gh_node_count = node_count,
       gh_entry_point = (if entry_raw = - 1 then None else Some (unat entry_raw)),
       gh_max_level = max_level\<rparr>))))))))))))"

definition start_arena :: "(bytes \<times> nat) option \<Rightarrow> hnsw_vector_storage \<Rightarrow> vector_arena" where
  "start_arena mapping storage = (case (mapping, storage) of
     (Some (file, _), ScalarInt8Storage) \<Rightarrow> MappedInt8Arena file [] [] [] | _ \<Rightarrow> arena_new storage)"

definition decode_nodes :: "(bytes \<times> nat) option \<Rightarrow> graph_header \<Rightarrow> graph_state decode" where
  "decode_nodes mapping h = decode_loop (gh_node_count h)
     (decode_node mapping (gh_dimension h) (gh_storage h) (gh_config h)) (start_arena mapping (gh_storage h), [], [])"

definition decoded_index :: "graph_header \<Rightarrow> graph_state \<Rightarrow> hnsw_index" where
  "decoded_index h s = (case s of (vectors, ids, nodes) \<Rightarrow>
     \<lparr>ix_dimension = gh_dimension h, ix_metric = gh_metric h, ix_config = gh_config h, ix_nodes = nodes,
      ix_ids = ids, ix_vectors = vectors, ix_entry_point = gh_entry_point h,
      ix_max_level = gh_max_level h, ix_compact_graph = None\<rparr>)"

definition finish_decoding :: "graph_header \<Rightarrow> graph_state \<Rightarrow> decoder \<Rightarrow> hnsw_index result" where
  "finish_decoding h s d =
     (let nodes = snd (snd s) in
      rbind (graph_finish d) (\<lambda>_.
      rbind (check_entry (gh_node_count h) nodes (gh_entry_point h) (gh_max_level h)) (\<lambda>_.
      rbind (check_neighbors (gh_node_count h) nodes) (\<lambda>_.
      map_err (\<lambda>e. CorruptStorage (''could not compact decoded HNSW graph: '' @ error_to_string e))
        (finalize_compact_graph (decoded_index h s))))))"

definition decode_inner :: "bytes \<Rightarrow> (bytes \<times> nat) option \<Rightarrow> hnsw_index result" where
  "decode_inner bs mapping =
     rbind (decode_header (decoder_new bs)) (\<lambda>(h, d).
     rbind (ok_or (checked_mul_usize (gh_node_count h) (gh_dimension h))
       (CorruptStorage ''HNSW vector storage size overflows address space'')) (\<lambda>_.
     rbind (decode_nodes mapping h d) (\<lambda>(s, d). finish_decoding h s d)))"

definition hnsw_decode :: "bytes \<Rightarrow> hnsw_index result" where
  "hnsw_decode bs = decode_inner bs None"

definition decode_mapped :: "bytes \<Rightarrow> bytes \<Rightarrow> nat \<Rightarrow> hnsw_index result" where
  "decode_mapped bs file offset = decode_inner bs (Some (file, offset))"

section \<open>What any input decodes to\<close>

text \<open>Reading from \<open>bs\<close>: what holds of the value read and the position afterwards.\<close>

definition reading :: "bytes \<Rightarrow> nat \<Rightarrow> decoder \<Rightarrow> bool" where
  "reading bs pos d \<longleftrightarrow> d_bytes d = bs \<and> d_position d = pos \<and> pos \<le> length bs"

definition reads :: "bytes \<Rightarrow> nat \<Rightarrow> 'a decode \<Rightarrow> ('a \<Rightarrow> nat \<Rightarrow> bool) \<Rightarrow> bool" where
  "reads bs pos p Q \<longleftrightarrow> (\<forall>d x d'. reading bs pos d \<longrightarrow> p d = Inr (x, d') \<longrightarrow>
     (\<exists>pos'. reading bs pos' d' \<and> pos \<le> pos' \<and> Q x pos'))"

lemma reads_dbind:
  assumes "reads bs pos p Q" "\<And>x mid. Q x mid \<Longrightarrow> pos \<le> mid \<Longrightarrow> mid \<le> length bs \<Longrightarrow> reads bs mid (f x) R"
  shows "reads bs pos (dbind p f) R"
  unfolding reads_def
proof (intro allI impI)
  fix d y d'
  assume d: "reading bs pos d" and "dbind p f d = Inr (y, d')"
  then obtain x d1 where x: "p d = Inr (x, d1)" "f x d1 = Inr (y, d')"
    by (auto simp: dbind_def rbind_eq_Inr)
  then obtain mid where mid: "reading bs mid d1" "pos \<le> mid" "Q x mid"
    using assms(1) d unfolding reads_def by blast
  then have "mid \<le> length bs" by (simp add: reading_def)
  then obtain pos' where "reading bs pos' d'" "mid \<le> pos'" "R y pos'"
    using assms(2) [OF mid(3,2)] mid(1) x(2) unfolding reads_def by blast
  then show "\<exists>pos'. reading bs pos' d' \<and> pos \<le> pos' \<and> R y pos'"
    using mid(2) le_trans by blast
qed

lemma reads_dreturn: "Q x pos \<Longrightarrow> reads bs pos (dreturn x) Q"
  by (auto simp: reads_def dreturn_def)

lemma reads_dfail: "reads bs pos (dfail e) Q"
  by (simp add: reads_def dfail_def)

lemma reads_dlift: "(\<And>x. r = Inr x \<Longrightarrow> Q x pos) \<Longrightarrow> reads bs pos (dlift r) Q"
  by (auto simp: reads_def dlift_def rbind_eq_Inr)

lemma reads_if:
  "(c \<Longrightarrow> reads bs pos p Q) \<Longrightarrow> (\<not> c \<Longrightarrow> reads bs pos q Q) \<Longrightarrow> reads bs pos (if c then p else q) Q"
  by simp

lemma reads_graph_take:
  "reads bs pos (graph_take n) (\<lambda>x pos'. x = take n (drop pos bs) \<and> length x = n \<and> pos' = pos + n \<and> pos' \<le> length bs)"
  by (auto simp: reads_def graph_take_def reading_def rbind_eq_Inr ok_or_eq_Inr checked_add_usize_def split: if_splits)

lemma reads_graph_position: "reads bs pos graph_position (\<lambda>x pos'. x = pos \<and> pos' = pos)"
  by (auto simp: reads_def graph_position_def reading_def)

lemma reads_graph_byte: "reads bs pos graph_byte (\<lambda>_ _. True)"
  unfolding graph_byte_def by (rule reads_dbind [OF reads_graph_take]) (rule reads_dreturn, simp)

lemma reads_graph_u64: "reads bs pos graph_u64 (\<lambda>_ _. True)"
  unfolding graph_u64_def by (rule reads_dbind [OF reads_graph_take]) (rule reads_dreturn, simp)

lemma reads_graph_f32: "reads bs pos graph_f32 (\<lambda>_ _. True)"
  unfolding graph_f32_def by (rule reads_dbind [OF reads_graph_take]) (rule reads_dreturn, simp)

lemma reads_graph_usize: "reads bs pos graph_usize (\<lambda>_ _. True)"
  unfolding graph_usize_def by (rule reads_dbind [OF reads_graph_take]) (rule reads_dreturn, simp)

lemma reads_graph_string: "reads bs pos graph_string (\<lambda>_ _. True)"
  unfolding graph_string_def
  by (intro reads_dbind [OF reads_graph_usize] reads_dbind [OF reads_graph_take])
    (auto intro: reads_dreturn reads_dfail split: option.splits)

lemma reads_decode_n:
  assumes "\<And>pos. reads bs pos p (\<lambda>x _. P x)"
  shows "reads bs pos (decode_n n p) (\<lambda>xs _. length xs = n \<and> list_all P xs)"
proof (induction n arbitrary: pos)
  case 0
  then show ?case by (simp add: reads_dreturn)
next
  case (Suc n)
  then show ?case
    unfolding decode_n.simps
    by (intro reads_dbind [OF assms] reads_dbind [OF Suc] reads_dreturn) simp
qed

lemma reads_decode_component: "reads bs pos decode_component (\<lambda>x _. f32_is_finite x)"
  unfolding decode_component_def
  by (intro reads_dbind [OF reads_graph_f32] reads_if reads_dreturn reads_dfail)

lemma reads_decode_layers:
  "reads bs pos (decode_layers cfg n layer)
     (\<lambda>ls _. length ls = n \<and> (\<forall>i < n. length (ls ! i) \<le> max_connections cfg (layer + i)))"
proof (induction n arbitrary: layer pos)
  case 0
  then show ?case by (simp add: reads_dreturn)
next
  case (Suc n)
  have neighbor: "reads bs pos decode_neighbor (\<lambda>_ _. True)" for pos
    unfolding decode_neighbor_def
    by (intro reads_dbind [OF reads_graph_usize] reads_if reads_dreturn reads_dfail TrueI)
  show ?case
    unfolding decode_layers.simps
    by (intro reads_dbind [OF reads_graph_usize] reads_if reads_dfail
        reads_dbind [OF reads_decode_n [OF neighbor]] reads_dbind [OF Suc] reads_dreturn)
      (auto simp: nth_Cons split: nat.splits)
qed

text \<open>The arena a graph is decoded into, and the part of the mapped file it is decoded from.\<close>

definition mapping_ok :: "(bytes \<times> nat) option \<Rightarrow> bytes \<Rightarrow> bool" where
  "mapping_ok mapping bs \<longleftrightarrow> (case mapping of None \<Rightarrow> True
     | Some (file, off) \<Rightarrow> off + length bs \<le> length file \<and> length file < 2 ^ 64 \<and>
         take (length bs) (drop off file) = bs)"

fun arena_for :: "(bytes \<times> nat) option \<Rightarrow> hnsw_vector_storage \<Rightarrow> vector_arena \<Rightarrow> bool" where
  "arena_for mapping F32Storage (F32Arena _) = True"
| "arena_for None ScalarInt8Storage (Int8Arena _ _ _) = True"
| "arena_for (Some (file, _)) ScalarInt8Storage (MappedInt8Arena bs _ _ _) = (bs = file)"
| "arena_for _ _ _ = False"

definition decoded_node_ok :: "hnsw_config \<Rightarrow> node \<Rightarrow> bool" where
  "decoded_node_ok cfg n \<longleftrightarrow> n_level n \<le> max_level_limit \<and> length (n_neighbors n) = Suc (n_level n) \<and>
     (\<forall>l \<le> n_level n. length (n_neighbors n ! l) \<le> max_connections cfg l)"

definition graph_state_ok ::
    "(bytes \<times> nat) option \<Rightarrow> nat \<Rightarrow> hnsw_vector_storage \<Rightarrow> hnsw_config \<Rightarrow> nat \<Rightarrow> graph_state \<Rightarrow> bool" where
  "graph_state_ok mapping dim storage cfg n s \<longleftrightarrow> (case s of (vectors, ids, nodes) \<Rightarrow>
     arena_for mapping storage vectors \<and> arena_ok vectors n dim \<and> length ids = n \<and> distinct ids \<and> [] \<notin> set ids \<and>
     length nodes = n \<and> list_all (decoded_node_ok cfg) nodes)"

lemma push_mapped_ok:
  assumes arena: "arena_for (Some (whole, off)) ScalarInt8Storage vectors" "arena_ok vectors n dim"
    and bound: "mapping_ok (Some (whole, off)) bs" "pos + dim \<le> length bs"
    and push: "push_mapped vectors (off + pos) scale norm = Inr vectors'"
  shows "arena_for (Some (whole, off)) ScalarInt8Storage vectors'" "arena_ok vectors' (Suc n) dim"
    "arena_get vectors' n dim = Int8Ref (take dim (drop pos bs)) scale norm"
    "i < n \<Longrightarrow> arena_get vectors' i dim = arena_get vectors i dim"
proof -
  obtain offsets scales norms where v: "vectors = MappedInt8Arena whole offsets scales norms"
    using arena(1) by (cases vectors) auto
  have range: "off + pos + dim \<le> length whole" "off + pos < 2 ^ 64"
    and slice: "take (length bs) (drop off whole) = bs"
    using bound by (auto simp: mapping_ok_def)
  have small: "unat (of_nat (off + pos) :: u64) = off + pos"
    using range(2) by (simp only: unat_of_nat take_bit_eq_mod) simp
  have v': "vectors' = MappedInt8Arena whole (offsets @ [of_nat (off + pos)]) (scales @ [scale]) (norms @ [norm])"
    using push by (auto simp: v split: if_splits)
  show "arena_for (Some (whole, off)) ScalarInt8Storage vectors'"
    by (simp add: v')
  show "arena_ok vectors' (Suc n) dim"
    using arena(2) range(1) small unfolding v' v by simp
  have "take dim (drop pos bs) = take dim (drop (off + pos) whole)"
    using bound(2) by (subst slice [symmetric]) (simp add: drop_take add.commute min_def)
  then show "arena_get vectors' n dim = Int8Ref (take dim (drop pos bs)) scale norm"
    using arena(2) small unfolding v' v by (simp add: nth_append)
  show "i < n \<Longrightarrow> arena_get vectors' i dim = arena_get vectors i dim"
    using arena(2) unfolding v' v by (simp add: nth_append)
qed

lemma reads_decode_vector:
  assumes arena: "arena_for mapping storage vectors" "arena_ok vectors n dim" and bound: "mapping_ok mapping bs"
  shows "reads bs pos (decode_vector mapping dim storage vectors)
    (\<lambda>vectors' _. arena_for mapping storage vectors' \<and> arena_ok vectors' (Suc n) dim)"
proof (cases storage)
  case F32Storage
  then obtain vs where vs: "vectors = F32Arena vs"
    using arena(1) by (cases vectors) auto
  show ?thesis
    unfolding decode_vector_def F32Storage hnsw_vector_storage.case
    using arena by (intro reads_dbind [OF reads_decode_n [OF reads_decode_component]] reads_dreturn) (simp add: vs)
next
  case ScalarInt8Storage
  have last: "reads bs mid (case mapping of Some (_, mapping_offset) \<Rightarrow>
        dlift (push_mapped vectors (mapping_offset + pos) scale (quantized_squared_norm_bytes codes scale))
      | None \<Rightarrow> dreturn (arena_push vectors (PreparedInt8 \<lparr>qv_codes = codes, qv_scale = scale,
          qv_squared_norm = quantized_squared_norm codes scale\<rparr>)))
      (\<lambda>vectors' _. arena_for mapping storage vectors' \<and> arena_ok vectors' (Suc n) dim)"
    if "length codes = dim" "pos + dim \<le> length bs" for mid pos scale codes
  proof (cases mapping)
    case None
    then obtain cs scales norms where "vectors = Int8Arena cs scales norms"
      using arena(1) ScalarInt8Storage by (cases vectors) auto
    then show ?thesis
      using arena(2) that ScalarInt8Storage by (auto simp: None intro!: reads_dreturn)
  next
    case (Some fo)
    then obtain whole off where fo: "mapping = Some (whole, off)" by (cases fo) auto
    have all: "arena_for (Some (whole, off)) ScalarInt8Storage vectors" "mapping_ok (Some (whole, off)) bs"
      using arena(1) bound by (simp_all add: fo ScalarInt8Storage)
    show ?thesis
      unfolding fo option.case prod.case ScalarInt8Storage
      using push_mapped_ok(1,2) [OF all(1) arena(2) all(2) that(2)] by (intro reads_dlift) blast
  qed
  show ?thesis
    using last unfolding decode_vector_def ScalarInt8Storage hnsw_vector_storage.case
    by (intro reads_dbind [OF reads_graph_f32] reads_if reads_dfail reads_dbind [OF reads_graph_position]
      reads_dbind [OF reads_graph_take]) auto
qed

lemma reads_decode_node:
  assumes s: "graph_state_ok mapping dim storage cfg n s" and bound: "mapping_ok mapping bs"
  shows "reads bs pos (decode_node mapping dim storage cfg s) (\<lambda>s' _. graph_state_ok mapping dim storage cfg (Suc n) s')"
proof -
  obtain vectors ids nodes where s_def: "s = (vectors, ids, nodes)" by (cases s)
  have arena: "arena_for mapping storage vectors" "arena_ok vectors n dim"
    using s by (simp_all add: graph_state_ok_def s_def)
  have add: "graph_state_ok mapping dim storage cfg (Suc n)
      (vectors', ids @ [i], nodes @ [\<lparr>n_level = (length ls - 1) mod 256, range_start = 0, n_neighbors = ls\<rparr>])"
    if "arena_for mapping storage vectors'" "arena_ok vectors' (Suc n) dim" "i \<noteq> []" "i \<notin> set ids"
      "ls \<noteq> []" "length ls \<le> max_level_limit + 1" "\<forall>l < length ls. length (ls ! l) \<le> max_connections cfg l"
    for vectors' i ls
  proof -
    have "\<exists>k. length ls = Suc k"
      using that(5) by (cases ls) auto
    then obtain k where k: "length ls = Suc k" ..
    then have "k \<le> max_level_limit" "k mod 256 = k" "\<forall>l \<le> k. length (ls ! l) \<le> max_connections cfg l"
      using that(6,7) by (simp_all add: max_level_limit_def less_Suc_eq_le)
    then have "decoded_node_ok cfg \<lparr>n_level = (length ls - 1) mod 256, range_start = 0, n_neighbors = ls\<rparr>"
      by (simp add: decoded_node_ok_def k)
    then show ?thesis
      using s that(1-4) by (simp add: graph_state_ok_def s_def)
  qed
  show ?thesis
    unfolding decode_node_def s_def prod.case
    by (intro reads_dbind [OF reads_graph_string] reads_if reads_dfail
        reads_dbind [OF reads_decode_vector [OF arena bound]] reads_dbind [OF reads_graph_usize]
        reads_dbind [OF reads_decode_layers] reads_dreturn) (auto intro: add [unfolded One_nat_def add_0])
qed

lemma reads_decode_loop:
  assumes "\<And>n s pos. I n s \<Longrightarrow> reads bs pos (f s) (\<lambda>s' _. I (Suc n) s')" "I n s"
  shows "reads bs pos (decode_loop k f s) (\<lambda>s' _. I (n + k) s')"
  using assms(2)
proof (induction k arbitrary: n s pos)
  case 0
  then show ?case by (simp add: reads_dreturn)
next
  case (Suc k)
  show ?case
    unfolding decode_loop.simps
    using Suc.IH [of "Suc n"] by (intro reads_dbind [OF assms(1) [OF Suc.prems]]) simp
qed

lemma start_state_ok: "graph_state_ok mapping dim storage cfg 0 (start_arena mapping storage, [], [])"
  by (cases mapping; cases storage) (auto simp: graph_state_ok_def start_arena_def)

lemma decoded_index_simps [simp]:
  "ix_dimension (decoded_index h s) = gh_dimension h" "ix_metric (decoded_index h s) = gh_metric h"
  "ix_config (decoded_index h s) = gh_config h" "ix_nodes (decoded_index h s) = snd (snd s)"
  "ix_ids (decoded_index h s) = fst (snd s)" "ix_vectors (decoded_index h s) = fst s"
  "ix_entry_point (decoded_index h s) = gh_entry_point h" "ix_max_level (decoded_index h s) = gh_max_level h"
  "ix_compact_graph (decoded_index h s) = None"
  by (simp_all add: decoded_index_def split: prod.splits)

text \<open>The stages of a successful decoding.\<close>

lemma decode_inner_Inr:
  "decode_inner bs mapping = Inr ix \<longleftrightarrow>
     (\<exists>h d s d'. decode_header (decoder_new bs) = Inr (h, d) \<and> gh_node_count h * gh_dimension h \<le> usize_max \<and>
        decode_nodes mapping h d = Inr (s, d') \<and> finish_decoding h s d' = Inr ix)"
proof (cases "decode_header (decoder_new bs)")
  case (Inr hd)
  obtain h d where hd: "hd = (h, d)" by (cases hd)
  show ?thesis
  proof (cases "decode_nodes mapping h d")
    case (Inr sd)
    then show ?thesis
      using \<open>decode_header (decoder_new bs) = Inr hd\<close> hd
      by (cases sd) (auto simp: decode_inner_def checked_mul_usize_def)
  qed (auto simp: decode_inner_def Inr hd rbind_eq_Inr)
qed (simp add: decode_inner_def)

lemma finish_decoding_Inr:
  "finish_decoding h s d = Inr ix \<longleftrightarrow> d_position d = length (d_bytes d) \<and>
     check_entry (gh_node_count h) (snd (snd s)) (gh_entry_point h) (gh_max_level h) = Inr () \<and>
     check_neighbors (gh_node_count h) (snd (snd s)) = Inr () \<and>
     finalize_compact_graph (decoded_index h s) = Inr ix"
  by (auto simp: finish_decoding_def Let_def rbind_eq_Inr graph_finish_def map_err_eq_Inr)

lemma reads_decode_header: "reads bs pos decode_header (\<lambda>h _. gh_node_count h \<le> 100000000)"
proof -
  have unit: "reads bs pos (dlift r) (\<lambda>_ _. True)" for pos and r :: "unit result"
    by (rule reads_dlift) simp
  have metric: "reads bs pos (dlift r) (\<lambda>_ _. True)" for pos and r :: "metric result"
    by (rule reads_dlift) simp
  have storage: "reads bs pos (if v = legacy_graph_version then dreturn F32Storage
      else dbind graph_byte (\<lambda>stag. dlift (parse_storage stag))) (\<lambda>_ _. True)" for pos v
    by (intro reads_if reads_dreturn reads_dbind [OF reads_graph_byte] reads_dlift) simp_all
  show ?thesis
    unfolding decode_header_def
    by (intro reads_dbind [OF reads_graph_take] reads_dbind [OF reads_graph_byte] reads_dbind [OF reads_graph_u64]
        reads_dbind [OF reads_graph_usize] reads_dbind [OF storage] reads_dbind [OF metric] reads_dbind [OF unit]
        reads_if reads_dfail reads_dreturn) simp
qed

lemma decode_nodes_ok:
  assumes "decode_header (decoder_new bs) = Inr (h, d)" "decode_nodes mapping h d = Inr (s, d')" "mapping_ok mapping bs"
  shows "graph_state_ok mapping (gh_dimension h) (gh_storage h) (gh_config h) (gh_node_count h) s"
proof -
  let ?I = "graph_state_ok mapping (gh_dimension h) (gh_storage h) (gh_config h)"
  have "reading bs 0 (decoder_new bs)"
    by (simp add: reading_def decoder_new_def)
  then obtain pos where pos: "reading bs pos d"
    using reads_decode_header [of bs 0] assms(1) unfolding reads_def by blast
  have "reads bs pos (decode_nodes mapping h) (\<lambda>s' _. ?I (0 + gh_node_count h) s')"
    unfolding decode_nodes_def
    by (rule reads_decode_loop [where I = ?I]) (use reads_decode_node assms(3) start_state_ok in blast)+
  then have "?I (0 + gh_node_count h) s"
    using pos assms(2) unfolding reads_def by blast
  then show ?thesis by simp
qed

lemma check_neighbors_Inr:
  "check_neighbors n nodes = Inr () \<longleftrightarrow>
     (\<forall>v < length nodes. \<forall>l < length (n_neighbors (nodes ! v)). \<forall>j \<in> set (n_neighbors (nodes ! v) ! l).
        unat j < n \<and> unat j \<noteq> v)"
  by (auto simp: check_neighbors_def list_ex_iff in_set_enumerate_eq all_set_conv_all_nth Ball_def not_le
      split: prod.splits) (metis in_set_conv_nth not_le)+

lemma check_entry_Inr:
  "check_entry n nodes e l = Inr () \<longleftrightarrow>
     (if n = 0 then e = None \<and> l = 0 else \<exists>v. e = Some v \<and> v < n \<and> l \<le> n_level (nodes ! v))"
  by (auto simp: check_entry_def rbind_eq_Inr ok_or_eq_Inr not_le not_less)

lemma decoded_graph:
  assumes "decode_inner bs mapping = Inr ix" "mapping_ok mapping bs"
  obtains h d s d' where "decode_header (decoder_new bs) = Inr (h, d)" "decode_nodes mapping h d = Inr (s, d')"
    "graph_state_ok mapping (gh_dimension h) (gh_storage h) (gh_config h) (gh_node_count h) s"
    "check_entry (gh_node_count h) (snd (snd s)) (gh_entry_point h) (gh_max_level h) = Inr ()"
    "check_neighbors (gh_node_count h) (snd (snd s)) = Inr ()"
    "finalize_compact_graph (decoded_index h s) = Inr ix" "layered (decoded_index h s)"
    "length (snd (snd s)) = gh_node_count h"
proof -
  obtain h d s d' where *: "decode_header (decoder_new bs) = Inr (h, d)" "decode_nodes mapping h d = Inr (s, d')"
    "finish_decoding h s d' = Inr ix"
    using assms(1) by (auto simp: decode_inner_Inr)
  have ok: "graph_state_ok mapping (gh_dimension h) (gh_storage h) (gh_config h) (gh_node_count h) s"
    by (rule decode_nodes_ok [OF *(1,2) assms(2)])
  then have "layered (decoded_index h s)" "length (snd (snd s)) = gh_node_count h"
    by (auto simp: graph_state_ok_def layered_def level_of_def list_all_length decoded_node_ok_def split: prod.splits)
  then show thesis
    using that [OF *(1,2) ok] *(3) by (simp add: finish_decoding_Inr)
qed

lemma decode_inner_ok:
  assumes "decode_inner bs mapping = Inr ix" "mapping_ok mapping bs"
  shows "graph_ok ix" "[] \<notin> set (ix_ids ix)"
    "arena_ok (ix_vectors ix) (length (ix_nodes ix)) (ix_dimension ix)"
    "length (neighbors ix v l) \<le> max_connections (ix_config ix) l"
    "j \<in> set (neighbors ix v l) \<Longrightarrow> unat j \<noteq> v"
    "ix_entry_point ix = Some e \<Longrightarrow> ix_max_level ix \<le> level_of ix e"
proof -
  obtain h d s d' where ok: "graph_state_ok mapping (gh_dimension h) (gh_storage h) (gh_config h) (gh_node_count h) s"
    and entry: "check_entry (gh_node_count h) (snd (snd s)) (gh_entry_point h) (gh_max_level h) = Inr ()"
    and links: "check_neighbors (gh_node_count h) (snd (snd s)) = Inr ()"
    and fin: "finalize_compact_graph (decoded_index h s) = Inr ix" and layered: "layered (decoded_index h s)"
    and len: "length (snd (snd s)) = gh_node_count h"
    using decoded_graph [OF assms] by metis
  have none: "ix_compact_graph (decoded_index h s) = None" by simp
  note out = finalize_ok [OF fin layered none]
  note neighbors = neighbors_building [OF layered none]
  have link: "unat j < gh_node_count h \<and> unat j \<noteq> v" if "j \<in> set (neighbors ix v l)" for v l j
    using that links layered len
    by (auto simp: out(1) neighbors check_neighbors_Inr links_at_def layered_def less_Suc_eq_le split: if_splits)
  show "length (neighbors ix v l) \<le> max_connections (ix_config ix) l"
    using ok len unfolding out(1,8) neighbors
    by (auto simp: graph_state_ok_def list_all_length decoded_node_ok_def links_at_def level_of_def split: prod.splits)
  have "gh_node_count h = 0 \<Longrightarrow> ix_nodes ix = []"
    using out(2) len by auto
  then show "graph_ok ix"
    using ok entry link len unfolding graph_ok_def links_ok_def out(2,4,6)
    by (auto simp: graph_state_ok_def check_entry_Inr split: prod.splits if_splits option.splits)
  show "ix_entry_point ix = Some e \<Longrightarrow> ix_max_level ix \<le> level_of ix e"
    using entry out(3) len unfolding out(6,7) by (auto simp: check_entry_Inr level_of_def split: if_splits)
  show "[] \<notin> set (ix_ids ix)" "arena_ok (ix_vectors ix) (length (ix_nodes ix)) (ix_dimension ix)"
    using ok unfolding out(2,4,5,9) by (auto simp: graph_state_ok_def split: prod.splits)
  show "j \<in> set (neighbors ix v l) \<Longrightarrow> unat j \<noteq> v"
    using link by blast
qed

section \<open>Decoding from a mapped file\<close>

text \<open>Two decoders in step: the same error, or the same position with related values.\<close>

definition both :: "bytes \<Rightarrow> nat \<Rightarrow> 'a decode \<Rightarrow> 'b decode \<Rightarrow> ('a \<Rightarrow> 'b \<Rightarrow> nat \<Rightarrow> bool) \<Rightarrow> bool" where
  "both bs pos p q R \<longleftrightarrow> (\<forall>d. reading bs pos d \<longrightarrow> (case p d of Inl e \<Rightarrow> q d = Inl e
     | Inr (x, d') \<Rightarrow> \<exists>y pos'. q d = Inr (y, d') \<and> reading bs pos' d' \<and> R x y pos'))"

lemma both_same: "reads bs pos p S \<Longrightarrow> both bs pos p p (\<lambda>x y pos'. y = x \<and> S x pos')"
  unfolding both_def reads_def by (fastforce split: sum.splits)

lemma both_dbind:
  assumes "both bs pos p q Q" "\<And>x y mid. Q x y mid \<Longrightarrow> both bs mid (f x) (g y) R"
  shows "both bs pos (dbind p f) (dbind q g) R"
  unfolding both_def
proof (intro allI impI)
  fix d assume d: "reading bs pos d"
  show "case dbind p f d of Inl e \<Rightarrow> dbind q g d = Inl e
     | Inr (x, d') \<Rightarrow> \<exists>y pos'. dbind q g d = Inr (y, d') \<and> reading bs pos' d' \<and> R x y pos'"
  proof (cases "p d")
    case (Inl e)
    then show ?thesis using assms(1) d by (auto simp: both_def dbind_def)
  next
    case (Inr xd)
    then obtain x d' where x: "p d = Inr (x, d')" by (cases xd) auto
    then obtain y mid where y: "q d = Inr (y, d')" "reading bs mid d'" "Q x y mid"
      using assms(1) d by (fastforce simp: both_def)
    have eqs: "dbind p f d = f x d'" "dbind q g d = g y d'"
      by (simp_all add: dbind_def x y(1))
    show ?thesis
      unfolding eqs using assms(2) [OF y(3)] y(2) unfolding both_def by blast
  qed
qed

lemma both_dfail: "both bs pos (dfail e) (dfail e) R"
  by (simp add: both_def dfail_def)

lemma both_dreturn: "R x y pos \<Longrightarrow> both bs pos (dreturn x) (dreturn y) R"
  by (auto simp: both_def dreturn_def)

lemma both_if:
  "(c \<Longrightarrow> both bs pos p p' R) \<Longrightarrow> (\<not> c \<Longrightarrow> both bs pos q q' R) \<Longrightarrow>
   both bs pos (if c then p else q) (if c then p' else q') R"
  by simp

definition arenas_agree :: "bytes \<times> nat \<Rightarrow> hnsw_vector_storage \<Rightarrow> nat \<Rightarrow> nat \<Rightarrow> vector_arena \<Rightarrow> vector_arena \<Rightarrow> bool" where
  "arenas_agree mp storage dim n a b \<longleftrightarrow> arena_for None storage a \<and> arena_ok a n dim \<and>
     arena_for (Some mp) storage b \<and> arena_ok b n dim \<and> (\<forall>i < n. arena_get a i dim = arena_get b i dim)"

lemma arena_for_None: "arena_for None storage a \<Longrightarrow> arena_owned a \<and> arena_storage a = storage"
  by (cases a; cases storage) auto

lemma arena_for_F32: "arena_for mapping F32Storage a \<Longrightarrow> arena_owned a \<and> arena_storage a = F32Storage"
  by (cases a; cases mapping) auto

lemma arenas_agree_F32:
  assumes "arenas_agree mp F32Storage dim n a b" "length v = dim"
  shows "arenas_agree mp F32Storage dim (Suc n) (arena_push a (PreparedF32 v)) (arena_push b (PreparedF32 v))"
proof -
  have a: "arena_owned a" "arena_storage a = F32Storage" "arena_ok a n dim"
    and b: "arena_owned b" "arena_storage b = F32Storage" "arena_ok b n dim"
    and get: "\<And>i. i < n \<Longrightarrow> arena_get a i dim = arena_get b i dim"
    using assms(1) arena_for_F32 by (auto simp: arenas_agree_def)
  have v: "prepared_ok (PreparedF32 v) (arena_storage a) dim" "prepared_ok (PreparedF32 v) (arena_storage b) dim"
    using a(2) b(2) assms(2) by simp_all
  note pa = arena_push_ok [OF a(3,1) v(1)] and pb = arena_push_ok [OF b(3,1) v(2)]
  have "arena_get (arena_push a (PreparedF32 v)) i dim = arena_get (arena_push b (PreparedF32 v)) i dim" if "i < Suc n" for i
    using that pa(4) pb(4) get [of i] arena_get_push [OF a(3,1) v(1), of i] arena_get_push [OF b(3,1) v(2), of i]
    by (cases "i = n") auto
  moreover have "arena_for None F32Storage (arena_push a (PreparedF32 v))"
    "arena_for (Some mp) F32Storage (arena_push b (PreparedF32 v))"
    using a(2) b(2) by (cases a; cases b; simp)+
  ultimately show ?thesis
    using pa(1) pb(1) by (simp add: arenas_agree_def)
qed

lemma arenas_agree_Int8:
  assumes agree: "arenas_agree (whole, off) ScalarInt8Storage dim n a b" and codes: "codes = take dim (drop pos bs)"
    and range: "pos + dim \<le> length bs" and ok: "mapping_ok (Some (whole, off)) bs"
  shows "\<exists>b'. push_mapped b (off + pos) scale (quantized_squared_norm_bytes codes scale) = Inr b' \<and>
    arenas_agree (whole, off) ScalarInt8Storage dim (Suc n)
      (arena_push a (PreparedInt8 \<lparr>qv_codes = codes, qv_scale = scale,
         qv_squared_norm = quantized_squared_norm codes scale\<rparr>)) b'"
proof -
  let ?q = "PreparedInt8 \<lparr>qv_codes = codes, qv_scale = scale, qv_squared_norm = quantized_squared_norm codes scale\<rparr>"
  have a: "arena_owned a" "arena_storage a = ScalarInt8Storage" "arena_ok a n dim" "arena_for None ScalarInt8Storage a"
    and b: "arena_for (Some (whole, off)) ScalarInt8Storage b" "arena_ok b n dim"
    and get: "\<And>i. i < n \<Longrightarrow> arena_get a i dim = arena_get b i dim"
    using agree arena_for_None by (auto simp: arenas_agree_def)
  have len: "length codes = dim" using codes range by simp
  have "off + pos < 2 ^ 64"
    using ok range by (auto simp: mapping_ok_def)
  then obtain b' where b': "push_mapped b (off + pos) scale (quantized_squared_norm_bytes codes scale) = Inr b'"
    using b(1) by (cases b) auto
  note pb = push_mapped_ok [OF b ok range b']
  have v: "prepared_ok ?q (arena_storage a) dim" using a(2) len by simp
  note pa = arena_push_ok [OF a(3,1) v]
  have "arena_get (arena_push a ?q) i dim = arena_get b' i dim" if "i < Suc n" for i
    using that pa(4) pb(3) pb(4) [of i] get [of i] arena_get_push [OF a(3,1) v, of i] codes
    by (cases "i = n") (auto simp: squared_norm_bytes)
  moreover have "arena_for None ScalarInt8Storage (arena_push a ?q)"
    using a(4) by (cases a) auto
  ultimately show ?thesis
    using pa(1) pb(1,2) b' by (auto simp: arenas_agree_def)
qed

lemma both_decode_vector:
  assumes agree: "arenas_agree (whole, off) storage dim n a b" and ok: "mapping_ok (Some (whole, off)) bs"
  shows "both bs pos (decode_vector None dim storage a) (decode_vector (Some (whole, off)) dim storage b)
    (\<lambda>a' b' _. arenas_agree (whole, off) storage dim (Suc n) a' b')"
proof (cases storage)
  case F32Storage
  have all: "reads bs pos (decode_n dim decode_component) (\<lambda>v _. length v = dim \<and> list_all f32_is_finite v)"
    by (rule reads_decode_n [OF reads_decode_component])
  show ?thesis
    unfolding decode_vector_def F32Storage hnsw_vector_storage.case
    using arenas_agree_F32 agree F32Storage
    by (intro both_dbind [OF both_same [OF all]]) (auto intro!: both_dreturn)
next
  case ScalarInt8Storage
  have lift: "both bs mid (dreturn x) (dlift r) R" if "\<exists>y. r = Inr y \<and> R x y mid" for mid x r R
    using that by (auto simp: both_def dreturn_def dlift_def)
  have last: "both bs mid
      (dreturn (arena_push a (PreparedInt8 \<lparr>qv_codes = codes, qv_scale = scale,
         qv_squared_norm = quantized_squared_norm codes scale\<rparr>)))
      (dlift (push_mapped b (off + p) scale (quantized_squared_norm_bytes codes scale)))
      (\<lambda>a' b' _. arenas_agree (whole, off) ScalarInt8Storage dim (Suc n) a' b')"
    if "codes = take dim (drop p bs)" "p + dim \<le> length bs" for mid scale codes p
    by (rule lift) (rule arenas_agree_Int8 [OF agree [unfolded ScalarInt8Storage] that ok])
  show ?thesis
    unfolding decode_vector_def ScalarInt8Storage hnsw_vector_storage.case
    by (intro both_dbind [OF both_same [OF reads_graph_f32]]) (auto intro!: both_dfail
        both_dbind [OF both_same [OF reads_graph_position]] both_dbind [OF both_same [OF reads_graph_take]] last)
qed

definition states_agree :: "bytes \<times> nat \<Rightarrow> hnsw_vector_storage \<Rightarrow> nat \<Rightarrow> nat \<Rightarrow> graph_state \<Rightarrow> graph_state \<Rightarrow> bool" where
  "states_agree mp storage dim n s t \<longleftrightarrow> snd s = snd t \<and> arenas_agree mp storage dim n (fst s) (fst t)"

lemma both_decode_node:
  assumes "states_agree (whole, off) storage dim n s t" "mapping_ok (Some (whole, off)) bs"
  shows "both bs pos (decode_node None dim storage cfg s) (decode_node (Some (whole, off)) dim storage cfg t)
    (\<lambda>s' t' _. states_agree (whole, off) storage dim (Suc n) s' t')"
proof -
  obtain a ids nodes where s: "s = (a, ids, nodes)" by (cases s)
  then obtain b where t: "t = (b, ids, nodes)" and agree: "arenas_agree (whole, off) storage dim n a b"
    using assms(1) by (cases t) (auto simp: states_agree_def)
  show ?thesis
    unfolding decode_node_def s t prod.case
    by (intro both_dbind [OF both_same [OF reads_graph_string]])
      (auto intro!: both_dfail both_dbind [OF both_decode_vector [OF agree assms(2)]]
        both_dbind [OF both_same [OF reads_graph_usize]] both_dbind [OF both_same [OF reads_decode_layers]]
        both_dreturn simp: states_agree_def)
qed

lemma both_decode_loop:
  assumes "\<And>n s t pos. I n s t \<Longrightarrow> both bs pos (f s) (g t) (\<lambda>s' t' _. I (Suc n) s' t')" "I n s t"
  shows "both bs pos (decode_loop k f s) (decode_loop k g t) (\<lambda>s' t' _. I (n + k) s' t')"
  using assms(2)
proof (induction k arbitrary: n s t pos)
  case 0
  then show ?case by (simp add: both_dreturn)
next
  case (Suc k)
  show ?case
    unfolding decode_loop.simps
    using Suc.IH [of "Suc n"] by (intro both_dbind [OF assms(1) [OF Suc.prems]]) simp
qed

lemma finalize_vectors:
  "finalize_compact_graph (ix\<lparr>ix_vectors := v\<rparr>) = rbind (finalize_compact_graph ix) (\<lambda>r. Inr (r\<lparr>ix_vectors := v\<rparr>))"
  by (simp add: finalize_compact_graph_def Let_def split: prod.splits)

lemma decode_mapped_agrees:
  assumes ok: "mapping_ok (Some (whole, off)) bs"
  shows "case decode_inner bs None of Inl e \<Rightarrow> decode_inner bs (Some (whole, off)) = Inl e
    | Inr ix \<Rightarrow> \<exists>ix'. decode_inner bs (Some (whole, off)) = Inr ix' \<and> same_view ix' ix"
proof (cases "decode_header (decoder_new bs)")
  case (Inl e)
  then show ?thesis by (simp add: decode_inner_def)
next
  case (Inr hd)
  then obtain h d where h: "decode_header (decoder_new bs) = Inr (h, d)" by (cases hd) auto
  have "reading bs 0 (decoder_new bs)"
    by (simp add: reading_def decoder_new_def)
  then obtain pos where pos: "reading bs pos d"
    using reads_decode_header [of bs 0] h unfolding reads_def by blast
  let ?dim = "gh_dimension h" and ?st = "gh_storage h" and ?n = "gh_node_count h"
  have "states_agree (whole, off) ?st ?dim 0 (start_arena None ?st, [], []) (start_arena (Some (whole, off)) ?st, [], [])"
    by (cases "gh_storage h") (simp_all add: states_agree_def arenas_agree_def start_arena_def)
  then have "both bs pos (decode_nodes None h) (decode_nodes (Some (whole, off)) h)
      (\<lambda>s t _. states_agree (whole, off) ?st ?dim (0 + ?n) s t)"
    unfolding decode_nodes_def
    by (intro both_decode_loop [where I = "states_agree (whole, off) ?st ?dim"] both_decode_node ok)
  then have nodes: "case decode_nodes None h d of Inl e \<Rightarrow> decode_nodes (Some (whole, off)) h d = Inl e
      | Inr (s, d') \<Rightarrow> \<exists>t. decode_nodes (Some (whole, off)) h d = Inr (t, d') \<and> states_agree (whole, off) ?st ?dim ?n s t"
    using pos unfolding both_def by (fastforce split: sum.splits)
  show ?thesis
  proof (cases "decode_nodes None h d")
    case (Inl e)
    then show ?thesis
      using nodes by (simp add: decode_inner_def h checked_mul_usize_def)
  next
    case (Inr sd)
    then obtain s d' where s: "decode_nodes None h d = Inr (s, d')" by (cases sd) auto
    then obtain t where t: "decode_nodes (Some (whole, off)) h d = Inr (t, d')" and agree: "states_agree (whole, off) ?st ?dim ?n s t"
      using nodes by auto
    have eq: "decoded_index h t = (decoded_index h s)\<lparr>ix_vectors := fst t\<rparr>" "snd (snd t) = snd (snd s)"
      using agree by (auto simp: decoded_index_def states_agree_def split: prod.splits)
    have fin: "finish_decoding h t d' = rbind (finish_decoding h s d') (\<lambda>r. Inr (r\<lparr>ix_vectors := fst t\<rparr>))"
      unfolding finish_decoding_def Let_def eq finalize_vectors
      by (cases "graph_finish d'"; cases "check_entry ?n (snd (snd s)) (gh_entry_point h) (gh_max_level h)";
          cases "check_neighbors ?n (snd (snd s))"; cases "finalize_compact_graph (decoded_index h s)") simp_all
    have run: "decode_inner bs (Some (whole, off)) = rbind (decode_inner bs None) (\<lambda>r. Inr (r\<lparr>ix_vectors := fst t\<rparr>))"
      by (simp add: decode_inner_def h s t fin checked_mul_usize_def)
    show ?thesis
    proof (cases "decode_inner bs None")
      case (Inr ix)
      have none: "mapping_ok None bs" by (simp add: mapping_ok_def)
      have ix: "finalize_compact_graph (decoded_index h s) = Inr ix" "ix_vectors ix = fst s" "ix_dimension ix = ?dim"
        "length (ix_nodes ix) = ?n"
      proof -
        have "finish_decoding h s d' = Inr ix"
          using Inr by (auto simp: decode_inner_def h s checked_mul_usize_def split: if_splits)
        then show fin: "finalize_compact_graph (decoded_index h s) = Inr ix"
          by (simp add: finish_decoding_Inr)
        have state: "graph_state_ok None ?dim ?st (gh_config h) ?n s"
          by (rule decode_nodes_ok [OF h s none])
        then have "layered (decoded_index h s)"
          by (auto simp: graph_state_ok_def layered_def level_of_def list_all_length decoded_node_ok_def split: prod.splits)
        from finalize_ok(2,5,9) [OF fin this] state show "ix_vectors ix = fst s" "ix_dimension ix = ?dim" "length (ix_nodes ix) = ?n"
          by (auto simp: graph_state_ok_def split: prod.splits)
      qed
      have "arena_storage (fst t) = arena_storage (fst s)"
        using agree unfolding states_agree_def arenas_agree_def
        by (cases "fst s"; cases "fst t"; cases "gh_storage h") auto
      then have "same_view (ix\<lparr>ix_vectors := fst t\<rparr>) ix"
        using agree ix by (auto simp: same_view_def neighbors_def Let_def level_of_def vector_at_def states_agree_def arenas_agree_def)
      then show ?thesis using run Inr by simp
    qed (simp add: run)
  qed
qed

section \<open>The encoded length\<close>

lemma put_u32_writer_Inr: "put_u32_writer v = Inr bs \<longleftrightarrow> v < 2 ^ 32 \<and> bs = u32_le (of_nat v)"
  by (auto simp: put_u32_writer_def)

lemma add_len_Inr: "add_len a b = Inr n \<longleftrightarrow> n = a + b \<and> a + b \<le> usize_max"
  by (auto simp: add_len_def ok_or_eq_Inr checked_add_usize_def)

lemma put_all_Inr: "put_all enc xs = Inr bs \<longleftrightarrow> (\<exists>bss. list_all2 (\<lambda>x b. enc x = Inr b) xs bss \<and> bs = concat bss)"
  by (auto simp: put_all_def rbind_eq_Inr try_map_eq_Inr)

lemma put_all_length:
  assumes "put_all enc xs = Inr bs" "\<And>x b. x \<in> set xs \<Longrightarrow> enc x = Inr b \<Longrightarrow> length b = len x"
  shows "length bs = (\<Sum>x \<leftarrow> xs. len x)"
proof -
  obtain bss where "list_all2 (\<lambda>x b. enc x = Inr b) xs bss" "bs = concat bss"
    using assms(1) by (auto simp: put_all_Inr)
  then have "length (concat bss) = (\<Sum>x \<leftarrow> xs. len x)"
    using assms(2)
  proof (induction arbitrary: bs rule: list_all2_induct)
    case (Cons x xs b bss)
    then show ?case by simp
  qed simp
  then show ?thesis using \<open>bs = concat bss\<close> by simp
qed

lemma encode_layer_length: "encode_layer ls = Inr bs \<Longrightarrow> length bs = 4 + 4 * length ls"
  using put_all_length [of "\<lambda>j. put_u32_writer (unat j)" ls _ "\<lambda>_. 4"]
  by (auto simp: encode_layer_def rbind_eq_Inr put_u32_writer_Inr sum_list_triv)

lemma try_fold_len:
  assumes "try_fold f start xs = Inr n" "start \<le> usize_max"
    and "\<And>s x m. x \<in> set xs \<Longrightarrow> f s x = Inr m \<Longrightarrow> m = s + len x \<and> m \<le> usize_max"
  shows "n = start + (\<Sum>x \<leftarrow> xs. len x) \<and> n \<le> usize_max"
  using assms
proof (induction xs arbitrary: start)
  case (Cons x xs)
  then obtain m where m: "f start x = Inr m" "try_fold f m xs = Inr n"
    by (auto simp: rbind_eq_Inr)
  then have now: "m = start + len x" "m \<le> usize_max"
    using Cons.prems(3) [OF _ m(1)] by simp_all
  have "n = m + (\<Sum>x \<leftarrow> xs. len x) \<and> n \<le> usize_max"
    by (rule Cons.IH [OF m(2) now(2)]) (rule Cons.prems(3), simp_all)
  then show ?case
    using now(1) by simp
qed simp

definition node_length :: "hnsw_index \<Rightarrow> nat \<Rightarrow> nat \<Rightarrow> nat" where
  "node_length ix vector_bytes i = 4 + length (ix_ids ix ! i) + vector_bytes + 4 +
     (\<Sum>l \<leftarrow> [0..<Suc (n_level (ix_nodes ix ! i))]. 4 + 4 * length (neighbors ix i l))"

lemma encoded_node_len_Inr:
  assumes "encoded_node_len ix vb len i = Inr n"
  shows "n = len + node_length ix vb i \<and> n \<le> usize_max"
proof -
  let ?ls = "[0..<Suc (n_level (ix_nodes ix ! i))]"
  have start: "len + 4 + length (ix_ids ix ! i) + vb + 4 \<le> usize_max"
    and fold: "try_fold (encoded_layer_len ix i) (len + 4 + length (ix_ids ix ! i) + vb + 4) ?ls = Inr n"
    using assms by (auto simp: encoded_node_len_def rbind_eq_Inr add_len_Inr)
  have "m = s + (4 + 4 * length (neighbors ix i l)) \<and> m \<le> usize_max" if "encoded_layer_len ix i s l = Inr m" for s l m
    using that by (auto simp: encoded_layer_len_def rbind_eq_Inr add_len_Inr ok_or_eq_Inr checked_mul_usize_def split: if_splits)
  then have "n = len + 4 + length (ix_ids ix ! i) + vb + 4 + (\<Sum>l \<leftarrow> ?ls. 4 + 4 * length (neighbors ix i l)) \<and> n \<le> usize_max"
    by (intro try_fold_len [OF fold start])
  then show ?thesis
    unfolding node_length_def by linarith
qed

lemma encode_node_length:
  assumes "encode_node ix i = Inr bs" "length (encode_vector (vector_at ix i)) = vb"
  shows "length bs = node_length ix vb i"
proof -
  let ?level = "n_level (ix_nodes ix ! i)"
  obtain name n ls where *: "put_bytes_writer (as_bytes (ix_ids ix ! i)) = Inr name" "put_u32_writer (?level + 1) = Inr n"
    "put_all (\<lambda>layer. encode_layer (neighbors ix i layer)) [0..<Suc ?level] = Inr ls"
    "bs = name @ encode_vector (vector_at ix i) @ n @ ls"
    using assms(1) by (auto simp: encode_node_def Let_def rbind_eq_Inr simp del: upt_Suc)
  have "length ls = (\<Sum>l \<leftarrow> [0..<Suc ?level]. 4 + 4 * length (neighbors ix i l))"
    by (rule put_all_length [OF *(3)]) (rule encode_layer_length)
  then show ?thesis
    using *(1,2,4) assms(2)
    by (auto simp: node_length_def put_bytes_writer_def put_u32_writer_Inr rbind_eq_Inr simp del: upt_Suc)
qed

lemma encoded_len_ok:
  assumes len: "encoded_len ix = Inr n" and enc: "encode_into ix = Inr bs"
    and arena: "arena_ok (ix_vectors ix) (length (ix_nodes ix)) (ix_dimension ix)"
    and ids: "length (ix_ids ix) = length (ix_nodes ix)"
  shows "length bs = n \<and> n \<le> usize_max"
proof -
  let ?dim = "ix_dimension ix"
  define vb where "vb = (case arena_storage (ix_vectors ix) of F32Storage \<Rightarrow> ?dim * 4 | ScalarInt8Storage \<Rightarrow> ?dim + 4)"
  have fold: "try_fold (encoded_node_len ix vb) 39 [0..<length (ix_nodes ix)] = Inr n"
    using len unfolding encoded_len_def ids
    by (cases "arena_storage (ix_vectors ix)")
      (auto simp: rbind_eq_Inr ok_or_eq_Inr checked_mul_usize_def add_len_Inr vb_def split: if_splits)
  have n: "n = 39 + (\<Sum>i \<leftarrow> [0..<length (ix_nodes ix)]. node_length ix vb i) \<and> n \<le> usize_max"
    by (rule try_fold_len [OF fold]) (simp add: usize_max_def, rule encoded_node_len_Inr)
  have vec: "length (encode_vector (vector_at ix i)) = vb" if "i < length (ix_nodes ix)" for i
  proof -
    have "i * ?dim + ?dim \<le> length (ix_nodes ix) * ?dim"
      using that by (metis Suc_leI add.commute mult_Suc mult_le_mono1)
    then show ?thesis
      using arena that unfolding vector_at_def vb_def
      by (cases "ix_vectors ix") (auto simp: f32s_le_def length_concat sum_list_triv comp_def list_all_length)
  qed
  obtain m ef c l nodes where e: "put_u32_writer (hc_m (ix_config ix)) = Inr m"
    "put_u32_writer (hc_ef_construction (ix_config ix)) = Inr ef" "put_u32_writer (length (ix_nodes ix)) = Inr c"
    "put_u32_writer (ix_max_level ix) = Inr l" "put_all (encode_node ix) [0..<length (ix_nodes ix)] = Inr nodes"
    "bs = graph_magic @ [graph_version] @ u64_le (of_nat ?dim) @ [graph_metric_tag (ix_metric ix)] @
       [storage_tag (arena_storage (ix_vectors ix))] @ m @ ef @ c @
       u64_le (case ix_entry_point ix of None \<Rightarrow> - 1 | Some e \<Rightarrow> of_nat e) @ l @ nodes"
    using enc by (auto simp: encode_into_def rbind_eq_Inr)
  have "length nodes = (\<Sum>i \<leftarrow> [0..<length (ix_nodes ix)]. node_length ix vb i)"
    using vec by (intro put_all_length [OF e(5)] encode_node_length) auto
  then show ?thesis
    using n e(1-4) by (auto simp: e(6) put_u32_writer_Inr graph_magic_def)
qed

section \<open>Decoding what was encoded\<close>

lemma decodes_graph_take: "length xs = n \<Longrightarrow> decodes (graph_take n) xs xs"
proof -
  assume n: "length xs = n"
  have "graph_take n d = Inr (xs, d\<lparr>d_position := d_position d + length xs\<rparr>)" if "at_bytes d xs" for d
  proof -
    have "decoder_take n d = Inr (xs, d\<lparr>d_position := d_position d + length xs\<rparr>)"
      using decodes_take [OF n] that by (simp add: decodes_def)
    then show ?thesis
      by (cases "checked_add_usize (d_position d) n")
        (simp_all add: decoder_take_def graph_take_def split: if_splits)
  qed
  then show ?thesis
    by (simp add: decodes_def)
qed

lemma decodes_graph_byte: "decodes graph_byte [b] b"
  unfolding graph_byte_def by (rule decodes_map [OF decodes_graph_take]) simp_all

lemma decodes_graph_u64: "decodes graph_u64 (u64_le w) w"
  unfolding graph_u64_def by (rule decodes_map [OF decodes_graph_take]) simp_all

lemma decodes_graph_f32: "decodes graph_f32 (u32_le w) w"
  unfolding graph_f32_def by (rule decodes_map [OF decodes_graph_take]) simp_all

lemma decodes_graph_usize: "n < 2 ^ 32 \<Longrightarrow> decodes graph_usize (u32_le (of_nat n)) n"
  unfolding graph_usize_def by (rule decodes_map [OF decodes_graph_take]) (simp_all add: unat_of_nat)

lemma decodes_dlift: "r = Inr x \<Longrightarrow> decodes (f x) ys y \<Longrightarrow> decodes (dbind (dlift r) f) ys y"
  by (simp add: decodes_def dbind_def dlift_def)

lemma decodes_position: "(\<And>p. decodes (f p) ys y) \<Longrightarrow> decodes (dbind graph_position f) ys y"
  by (simp add: decodes_def dbind_def graph_position_def)

lemma decodes_graph_string:
  assumes "put_bytes_writer (as_bytes s) = Inr bs" "is_string s"
  shows "decodes graph_string bs s"
proof -
  have bs: "bs = u32_le (of_nat (length s)) @ as_bytes s" "length s < 2 ^ 32"
    using assms(1) by (auto simp: put_bytes_writer_def put_u32_writer_Inr rbind_eq_Inr)
  have "decodes (dbind (graph_take (length s)) (\<lambda>bs. case from_utf8 bs of
      None \<Rightarrow> dfail (CorruptStorage ''HNSW graph contains invalid UTF-8'') | Some s \<Rightarrow> dreturn s)) (as_bytes s) s"
    using assms(2) by (intro decodes_map [OF decodes_graph_take]) (simp_all add: from_utf8_as_bytes)
  then show ?thesis
    unfolding graph_string_def bs(1) by (rule decodes_dbind [OF decodes_graph_usize [OF bs(2)]])
qed

lemma decodes_neighbor: "decodes decode_neighbor (u32_le j) j"
proof -
  have "unat j < 2 ^ 32" using unsigned_less [of j] by simp
  moreover have "u32_le j = u32_le (of_nat (unat j))" by simp
  ultimately show ?thesis
    unfolding decode_neighbor_def using decodes_graph_usize [of "unat j"] by (intro decodes_map [where x = "unat j"]) simp_all
qed

lemma decodes_layer:
  assumes "encode_layer ls = Inr bs"
  shows "\<exists>n xs. bs = n @ xs \<and> decodes graph_usize n (length ls) \<and> decodes (decode_n (length ls) decode_neighbor) xs ls"
proof -
  obtain n xs where bs: "put_u32_writer (length ls) = Inr n" "put_all (\<lambda>j. put_u32_writer (unat j)) ls = Inr xs" "bs = n @ xs"
    using assms by (auto simp: encode_layer_def rbind_eq_Inr)
  obtain bss where bss: "list_all2 (\<lambda>j b. put_u32_writer (unat j) = Inr b) ls bss" "xs = concat bss"
    using bs(2) by (auto simp: put_all_Inr)
  have "list_all2 (decodes decode_neighbor) bss ls"
    using bss(1) decodes_neighbor by (auto simp: list_all2_conv_all_nth put_u32_writer_Inr)
  from decodes_n [OF this] have "decodes (decode_n (length ls) decode_neighbor) xs ls"
    by (simp add: bss(2))
  then show ?thesis
    using bs(1,3) decodes_graph_usize [of "length ls"] by (auto simp: put_u32_writer_Inr)
qed

lemma decodes_layers:
  assumes "list_all2 (\<lambda>ls b. encode_layer ls = Inr b) lss bss"
    and "\<And>i. i < length lss \<Longrightarrow> length (lss ! i) \<le> max_connections cfg (k + i)"
  shows "decodes (decode_layers cfg (length lss) k) (concat bss) lss"
  using assms
proof (induction lss bss arbitrary: k rule: list_all2_induct)
  case Nil
  then show ?case by (simp add: decodes_dreturn)
next
  case (Cons ls lss b bss)
  obtain n xs where b: "b = n @ xs" "decodes graph_usize n (length ls)" "decodes (decode_n (length ls) decode_neighbor) xs ls"
    using decodes_layer [OF Cons.hyps(1)] by blast
  have small: "\<not> length ls > max_connections cfg k"
    using Cons.prems [of 0] by simp
  have "decodes (decode_layers cfg (length lss) (Suc k)) (concat bss) lss"
    using Cons.prems [of "Suc i" for i] by (intro Cons.IH) fastforce
  then have rest: "decodes (dbind (decode_layers cfg (length lss) (Suc k)) (\<lambda>rest. dreturn (ls # rest))) (concat bss) (ls # lss)"
    by (rule decodes_map) simp
  show ?case
    unfolding decode_layers.simps list.size add_0_right add_Suc_right concat.simps b(1) append_assoc
    by (rule decodes_dbind [OF b(2)]) (simp only: small if_False, rule decodes_dbind [OF b(3)], rule rest)
qed

lemma decodes_loop:
  assumes "\<And>i. i < n \<Longrightarrow> decodes (f (st i)) (xs i) (st (Suc i))"
  shows "decodes (decode_loop n f (st 0)) (concat (map xs [0..<n])) (st n)"
proof -
  have "i + k \<le> n \<Longrightarrow> decodes (decode_loop k f (st i)) (concat (map xs [i..<i + k])) (st (i + k))" for i k
  proof (induction k arbitrary: i)
    case 0
    then show ?case by (simp add: decodes_dreturn)
  next
    case (Suc k)
    have "decodes (decode_loop k f (st (Suc i))) (concat (map xs [Suc i..<Suc i + k])) (st (Suc i + k))"
      by (rule Suc.IH) (use Suc.prems in simp)
    moreover have "[i..<i + Suc k] = i # [Suc i..<Suc i + k]"
      by (simp add: upt_conv_Cons)
    ultimately show ?case
      using decodes_dbind [OF assms [of i], of "decode_loop k f" "concat (map xs [Suc i..<Suc i + k])" "st (Suc i + k)"] Suc.prems
      by (simp del: upt_Suc)
  qed
  from this [of 0 n] show ?thesis by simp
qed

text \<open>A vector the decoder accepts, as the index shows it, and as it is pushed.\<close>

fun ref_ok :: "hnsw_vector_storage \<Rightarrow> nat \<Rightarrow> vector_ref \<Rightarrow> bool" where
  "ref_ok F32Storage dim (F32Ref v) = (length v = dim \<and> list_all f32_is_finite v)"
| "ref_ok ScalarInt8Storage dim (Int8Ref codes scale norm) = (length codes = dim \<and> f32_is_finite scale \<and>
     \<not> f32_le scale f32_zero \<and> norm = quantized_squared_norm codes scale)"
| "ref_ok _ _ _ = False"

fun owned :: "vector_ref \<Rightarrow> prepared_vector" where
  "owned (F32Ref v) = PreparedF32 v"
| "owned (Int8Ref codes scale norm) = PreparedInt8 \<lparr>qv_codes = codes, qv_scale = scale, qv_squared_norm = norm\<rparr>"

lemma prepared_ref_owned [simp]: "prepared_ref (owned r) = r"
  by (cases r) simp_all

lemma owned_ok: "ref_ok st dim r \<Longrightarrow> prepared_ok (owned r) st dim"
  by (cases r; cases st) simp_all

lemma decodes_vector:
  assumes "ref_ok st dim r"
  shows "decodes (decode_vector None dim st a) (encode_vector r) (arena_push a (owned r))"
proof (cases r)
  case (F32Ref v)
  then have st: "st = F32Storage" "length v = dim" "list_all f32_is_finite v"
    using assms by (cases st; simp)+
  have "decodes decode_component (u32_le x) x" if "f32_is_finite x" for x
    unfolding decode_component_def by (rule decodes_map [OF decodes_graph_f32]) (simp add: that)
  then have "list_all2 (decodes decode_component) (map u32_le v) v"
    using st(3) by (simp add: list_all2_conv_all_nth list_all_length)
  from decodes_n [OF this] have "decodes (decode_n dim decode_component) (f32s_le v) v"
    by (simp add: f32s_le_def st(2))
  then show ?thesis
    unfolding decode_vector_def st(1) hnsw_vector_storage.case F32Ref by (simp add: decodes_map)
next
  case (Int8Ref codes scale norm)
  then have st: "st = ScalarInt8Storage" "length codes = dim" "f32_is_finite scale" "\<not> f32_le scale f32_zero"
      "norm = quantized_squared_norm codes scale"
    using assms by (cases st; simp)+
  have "decodes (dbind (graph_take dim) (\<lambda>codes. dreturn (arena_push a (PreparedInt8 \<lparr>qv_codes = codes,
      qv_scale = scale, qv_squared_norm = quantized_squared_norm codes scale\<rparr>)))) codes (arena_push a (owned r))"
    by (rule decodes_map [OF decodes_graph_take [OF st(2)]]) (simp add: Int8Ref st(5))
  then show ?thesis
    unfolding decode_vector_def st(1) hnsw_vector_storage.case Int8Ref encode_vector.simps option.case
    using st(3,4) Int8Ref by (intro decodes_dbind [OF decodes_graph_f32]) (auto intro!: decodes_position)
qed

lemma arena_of_refs:
  assumes "list_all (ref_ok st dim) rs"
  shows "arena_ok (foldl arena_push (arena_new st) (map owned rs)) (length rs) dim \<and>
    arena_owned (foldl arena_push (arena_new st) (map owned rs)) \<and>
    arena_storage (foldl arena_push (arena_new st) (map owned rs)) = st \<and>
    (\<forall>i < length rs. arena_get (foldl arena_push (arena_new st) (map owned rs)) i dim = rs ! i)"
  using assms
proof (induction rs rule: rev_induct)
  case Nil
  then show ?case by (cases st) simp_all
next
  case (snoc r rs)
  let ?a = "foldl arena_push (arena_new st) (map owned rs)"
  have a: "arena_ok ?a (length rs) dim" "arena_owned ?a" "arena_storage ?a = st"
      "\<And>i. i < length rs \<Longrightarrow> arena_get ?a i dim = rs ! i"
    using snoc by simp_all
  have r: "prepared_ok (owned r) (arena_storage ?a) dim"
    using snoc.prems a(3) owned_ok by simp
  show ?case
    using arena_push_ok [OF a(1,2) r] a(3,4) arena_get_push [OF a(1,2) r]
    by (auto simp: nth_append less_Suc_eq)
qed

definition decoded_node :: "hnsw_index \<Rightarrow> nat \<Rightarrow> node" where
  "decoded_node ix i = \<lparr>n_level = level_of ix i, range_start = 0,
     n_neighbors = map (neighbors ix i) [0..<Suc (level_of ix i)]\<rparr>"

lemma decodes_node:
  assumes enc: "encode_node ix i = Inr bs"
    and name: "is_string (ix_ids ix ! i)" "ix_ids ix ! i \<noteq> []" "ix_ids ix ! i \<notin> set ids"
    and ref: "ref_ok st dim (vector_at ix i)" and level: "level_of ix i \<le> max_level_limit"
    and degree: "\<And>l. l \<le> level_of ix i \<Longrightarrow> length (neighbors ix i l) \<le> max_connections cfg l"
  shows "decodes (decode_node None dim st cfg (a, ids, ns)) bs
    (arena_push a (owned (vector_at ix i)), ids @ [ix_ids ix ! i], ns @ [decoded_node ix i])"
proof -
  let ?level = "level_of ix i"
  obtain nm n ls where *: "put_bytes_writer (as_bytes (ix_ids ix ! i)) = Inr nm" "put_u32_writer (?level + 1) = Inr n"
    "put_all (\<lambda>layer. encode_layer (neighbors ix i layer)) [0..<Suc ?level] = Inr ls"
    "bs = nm @ encode_vector (vector_at ix i) @ n @ ls"
    using enc by (auto simp: encode_node_def level_of_def Let_def rbind_eq_Inr simp del: upt_Suc)
  have count: "n = u32_le (of_nat (?level + 1))" "?level + 1 < 2 ^ 32"
    using *(2) by (simp_all only: put_u32_writer_Inr)
  obtain bss where bss: "list_all2 (\<lambda>l b. encode_layer (neighbors ix i l) = Inr b) [0..<Suc ?level] bss" "ls = concat bss"
    using *(3) by (auto simp: put_all_Inr simp del: upt_Suc)
  have "list_all2 (\<lambda>ls b. encode_layer ls = Inr b) (map (neighbors ix i) [0..<Suc ?level]) bss"
    using bss(1) by (simp only: list_all2_map1)
  from decodes_layers [OF this, of cfg 0]
  have layers: "decodes (decode_layers cfg (?level + 1) 0) ls (map (neighbors ix i) [0..<Suc ?level])"
    using degree by (simp add: bss(2) del: upt_Suc)
  have valid: "\<not> (?level + 1 = 0 \<or> ?level + 1 > max_level_limit + 1)" "(?level + 1 - 1) mod 256 = ?level"
    using level by (simp_all add: max_level_limit_def)
  have fresh: "\<not> (ix_ids ix ! i = [] \<or> ix_ids ix ! i \<in> set ids)"
    using name by simp
  have "decodes (dbind (decode_layers cfg (?level + 1) 0) (\<lambda>ls. dreturn (arena_push a (owned (vector_at ix i)), ids @ [ix_ids ix ! i],
      ns @ [\<lparr>n_level = (?level + 1 - 1) mod 256, range_start = 0, n_neighbors = ls\<rparr>]))) ls
    (arena_push a (owned (vector_at ix i)), ids @ [ix_ids ix ! i], ns @ [decoded_node ix i])"
    by (rule decodes_map [OF layers]) (simp only: valid(2) decoded_node_def)
  then have tail: "decodes (dbind graph_usize (\<lambda>layer_count. if layer_count = 0 \<or> layer_count > max_level_limit + 1
      then dfail (CorruptStorage ''HNSW node has an invalid layer count'')
      else dbind (decode_layers cfg layer_count 0) (\<lambda>ls. dreturn (arena_push a (owned (vector_at ix i)), ids @ [ix_ids ix ! i],
        ns @ [\<lparr>n_level = (layer_count - 1) mod 256, range_start = 0, n_neighbors = ls\<rparr>])))) (n @ ls)
    (arena_push a (owned (vector_at ix i)), ids @ [ix_ids ix ! i], ns @ [decoded_node ix i])"
    unfolding count(1) by (intro decodes_dbind [OF decodes_graph_usize [OF count(2)]]) (simp only: valid(1) if_False)
  show ?thesis
    unfolding decode_node_def prod.case *(4)
    by (rule decodes_dbind [OF decodes_graph_string [OF *(1) name(1)]], simp only: fresh if_False,
        rule decodes_dbind [OF decodes_vector [OF ref]], rule tail)
qed

text \<open>The indexes that are written and read back: within the limits of the format.\<close>

definition total_layers :: "hnsw_index \<Rightarrow> nat" where
  "total_layers ix = (\<Sum>i \<leftarrow> [0..<length (ix_nodes ix)]. Suc (level_of ix i))"

definition total_links :: "hnsw_index \<Rightarrow> nat" where
  "total_links ix = (\<Sum>i \<leftarrow> [0..<length (ix_nodes ix)]. \<Sum>l \<leftarrow> [0..<Suc (level_of ix i)]. length (neighbors ix i l))"

definition storable :: "hnsw_index \<Rightarrow> bool" where
  "storable ix \<longleftrightarrow> graph_ok ix \<and> validate_config (ix_dimension ix) (ix_config ix) = Inr () \<and>
     length (ix_nodes ix) \<le> 100000000 \<and> ix_dimension ix < 2 ^ 64 \<and>
     length (ix_nodes ix) * ix_dimension ix \<le> usize_max \<and> total_layers ix < 2 ^ 32 \<and> total_links ix < 2 ^ 32 \<and>
     ix_max_level ix \<le> max_level_limit \<and>
     (case ix_entry_point ix of None \<Rightarrow> ix_max_level ix = 0 | Some e \<Rightarrow> ix_max_level ix \<le> level_of ix e) \<and>
     arena_ok (ix_vectors ix) (length (ix_nodes ix)) (ix_dimension ix) \<and>
     (\<forall>i < length (ix_nodes ix). is_string (ix_ids ix ! i) \<and> ix_ids ix ! i \<noteq> [] \<and> level_of ix i \<le> max_level_limit \<and>
        ref_ok (arena_storage (ix_vectors ix)) (ix_dimension ix) (vector_at ix i) \<and>
        (\<forall>l. length (neighbors ix i l) \<le> max_connections (ix_config ix) l \<and>
           (\<forall>j \<in> set (neighbors ix i l). unat j \<noteq> i)))"

definition header_of :: "hnsw_index \<Rightarrow> graph_header" where
  "header_of ix = \<lparr>gh_dimension = ix_dimension ix, gh_metric = ix_metric ix,
     gh_storage = arena_storage (ix_vectors ix), gh_config = ix_config ix, gh_node_count = length (ix_nodes ix),
     gh_entry_point = ix_entry_point ix, gh_max_level = ix_max_level ix\<rparr>"

lemma graph_tags [simp]: "graph_parse_metric (graph_metric_tag m) = Inr m" "parse_storage (storage_tag st) = Inr st"
  by (cases m; simp add: graph_parse_metric_def) (cases st; simp add: parse_storage_def)

lemma decodes_header:
  assumes ok: "storable ix" and "hc_m (ix_config ix) < 2 ^ 32" "hc_ef_construction (ix_config ix) < 2 ^ 32"
  shows "decodes decode_header (graph_magic @ [graph_version] @ u64_le (of_nat (ix_dimension ix)) @
       [graph_metric_tag (ix_metric ix)] @ [storage_tag (arena_storage (ix_vectors ix))] @
       u32_le (of_nat (hc_m (ix_config ix))) @ u32_le (of_nat (hc_ef_construction (ix_config ix))) @
       u32_le (of_nat (length (ix_nodes ix))) @
       u64_le (case ix_entry_point ix of None \<Rightarrow> - 1 | Some e \<Rightarrow> of_nat e) @ u32_le (of_nat (ix_max_level ix)))
    (header_of ix)"
proof -
  have lim: "validate_config (ix_dimension ix) (ix_config ix) = Inr ()" "length (ix_nodes ix) \<le> 100000000"
      "ix_dimension ix < 2 ^ 64" "ix_max_level ix \<le> max_level_limit"
    using ok by (simp_all add: storable_def)
  let ?entry = "(case ix_entry_point ix of None \<Rightarrow> - 1 | Some e \<Rightarrow> of_nat e) :: u64"
  have dim: "unat (of_nat (ix_dimension ix) :: u64) = ix_dimension ix"
    using lim(3) by (simp only: unat_of_nat take_bit_eq_mod) simp
  have entry: "(if ?entry = - 1 then None else Some (unat ?entry)) = ix_entry_point ix"
  proof (cases "ix_entry_point ix")
    case (Some e)
    then have "e < 100000000"
      using ok lim(2) by (simp add: storable_def graph_ok_def)
    then have "unat (of_nat e :: u64) = e" "unat (- 1 :: u64) = 2 ^ 64 - 1"
      by (simp_all add: unat_of_nat unsigned_minus_1_eq_mask mask_eq_exp_minus_1)
    then have "unat (of_nat e :: u64) \<noteq> unat (- 1 :: u64)"
      using \<open>e < 100000000\<close> by simp
    then have "of_nat e \<noteq> (- 1 :: u64)"
      by metis
    then show ?thesis
      using Some \<open>unat (of_nat e :: u64) = e\<close> by simp
  qed simp
  have cfg: "\<lparr>hc_m = hc_m (ix_config ix), hc_ef_construction = hc_ef_construction (ix_config ix)\<rparr> = ix_config ix"
    by simp
  have small: "length (ix_nodes ix) < 2 ^ 32" "ix_max_level ix < 2 ^ 32"
    using lim(2,4) by (simp_all add: max_level_limit_def)
  have legacy: "graph_version \<noteq> legacy_graph_version"
    by (simp add: graph_version_def legacy_graph_version_def)
  have limits: "\<not> length (ix_nodes ix) > 100000000" "\<not> ix_max_level ix > max_level_limit"
    using lim(2,4) by simp_all
  have config: "map_err (\<lambda>e. CorruptStorage (error_to_string e)) (validate_config (unat (of_nat (ix_dimension ix) :: u64))
      \<lparr>hc_m = hc_m (ix_config ix), hc_ef_construction = hc_ef_construction (ix_config ix)\<rparr>) = Inr ()"
    by (simp only: dim cfg lim(1) map_err_simps)
  have storage: "decodes (if graph_version = legacy_graph_version then dreturn F32Storage
      else dbind graph_byte (\<lambda>stag. dlift (parse_storage stag))) [storage_tag st] st" for st
    using decodes_dbind [OF decodes_graph_byte, of "\<lambda>stag. dlift (parse_storage stag)" "storage_tag st" "[]" st] legacy
    by (simp add: decodes_def dlift_def)
  have last: "decodes (dbind graph_usize (\<lambda>max_level.
      if max_level > max_level_limit then dfail (CorruptStorage ''HNSW level exceeds limit'')
      else dreturn \<lparr>gh_dimension = unat (of_nat (ix_dimension ix) :: u64), gh_metric = ix_metric ix,
        gh_storage = arena_storage (ix_vectors ix),
        gh_config = \<lparr>hc_m = hc_m (ix_config ix), hc_ef_construction = hc_ef_construction (ix_config ix)\<rparr>,
        gh_node_count = length (ix_nodes ix), gh_entry_point = (if ?entry = - 1 then None else Some (unat ?entry)),
        gh_max_level = max_level\<rparr>)) (u32_le (of_nat (ix_max_level ix))) (header_of ix)"
    by (rule decodes_map [OF decodes_graph_usize [OF small(2)]])
      (simp only: limits(2) if_False entry dim cfg header_of_def)
  show ?thesis
    unfolding decode_header_def
    by (rule decodes_dbind [OF decodes_graph_take], simp add: graph_magic_def, simp only: simp_thms if_False,
        rule decodes_dbind [OF decodes_graph_byte], simp only: simp_thms if_False,
        rule decodes_dbind [OF decodes_graph_u64],
        rule decodes_dbind [OF decodes_graph_byte], rule decodes_dlift [OF graph_tags(1)],
        rule decodes_dbind [OF storage],
        rule decodes_dbind [OF decodes_graph_usize [OF assms(2)]],
        rule decodes_dbind [OF decodes_graph_usize [OF assms(3)]],
        rule decodes_dlift [OF config],
        rule decodes_dbind [OF decodes_graph_usize [OF small(1)]], simp only: limits(1) if_False,
        rule decodes_dbind [OF decodes_graph_u64], rule last)
qed

lemma finalize_decoded:
  assumes "storable ix" "snd (snd s) = map (decoded_node ix) [0..<length (ix_nodes ix)]"
  shows "\<exists>ix'. finalize_compact_graph (decoded_index h s) = Inr ix'" "layered (decoded_index h s)"
    "check_neighbors (length (ix_nodes ix)) (snd (snd s)) = Inr ()"
    "check_entry (length (ix_nodes ix)) (snd (snd s)) (ix_entry_point ix) (ix_max_level ix) = Inr ()"
proof -
  let ?n = "length (ix_nodes ix)"
  have layers: "(\<Sum>n \<leftarrow> snd (snd s). length (n_neighbors n)) = total_layers ix"
    by (simp add: assms(2) total_layers_def decoded_node_def comp_def)
  have lks: "(\<Sum>n \<leftarrow> snd (snd s). \<Sum>l \<leftarrow> n_neighbors n. length l) = total_links ix"
    unfolding assms(2) total_links_def decoded_node_def map_map comp_def node.select_convs ..
  have "total_layers ix < 2 ^ 32" "total_links ix < 2 ^ 32"
    using assms(1) by (simp_all add: storable_def)
  then have "\<not> total_layers ix > usize_max" "\<not> total_links ix > usize_max"
      "\<not> (total_layers ix \<ge> 2 ^ 32 \<or> total_links ix \<ge> 2 ^ 32)"
    by (simp_all add: usize_max_def)
  then show "\<exists>ix'. finalize_compact_graph (decoded_index h s) = Inr ix'"
    unfolding finalize_compact_graph_def Let_def decoded_index_simps layers lks
    by (cases "foldl compact_node ([], [], []) (snd (snd s))") auto
  show "layered (decoded_index h s)"
    by (simp add: layered_def level_of_def assms(2) decoded_node_def)
  have "unat j < ?n \<and> unat j \<noteq> v" if "v < ?n" "j \<in> set (neighbors ix v l)" for v l j
    using assms(1) that by (auto simp: storable_def graph_ok_def links_ok_def)
  then show "check_neighbors ?n (snd (snd s)) = Inr ()"
    by (simp add: check_neighbors_Inr assms(2) decoded_node_def del: upt_Suc)
  show "check_entry ?n (snd (snd s)) (ix_entry_point ix) (ix_max_level ix) = Inr ()"
    using assms(1) by (auto simp: check_entry_Inr assms(2) decoded_node_def storable_def graph_ok_def split: option.splits)
qed

lemma hnsw_round_trip:
  assumes ok: "storable ix" and enc: "hnsw_encode ix = Inr bs"
  shows "\<exists>ix'. hnsw_decode bs = Inr ix' \<and> same_view ix' ix"
proof -
  let ?n = "length (ix_nodes ix)" and ?dim = "ix_dimension ix" and ?st = "arena_storage (ix_vectors ix)"
  let ?h = "header_of ix"
  obtain len where len: "encoded_len ix = Inr len" and into: "encode_into ix = Inr bs"
    using enc by (auto simp: hnsw_encode_def rbind_eq_Inr)
  have node: "is_string (ix_ids ix ! i)" "ix_ids ix ! i \<noteq> []" "ref_ok ?st ?dim (vector_at ix i)"
      "level_of ix i \<le> max_level_limit" "length (neighbors ix i l) \<le> max_connections (ix_config ix) l" if "i < ?n" for i l
    using ok that by (auto simp: storable_def)
  have ids: "length (ix_ids ix) = ?n" "distinct (ix_ids ix)" and arena: "arena_ok (ix_vectors ix) ?n ?dim"
    using ok by (auto simp: storable_def graph_ok_def)
  have total: "length bs \<le> usize_max"
    using encoded_len_ok [OF len into arena ids(1)] by simp
  obtain m ef c l bss where e: "put_u32_writer (hc_m (ix_config ix)) = Inr m"
    "put_u32_writer (hc_ef_construction (ix_config ix)) = Inr ef" "put_u32_writer ?n = Inr c"
    "put_u32_writer (ix_max_level ix) = Inr l" "list_all2 (\<lambda>i b. encode_node ix i = Inr b) [0..<?n] bss"
    "bs = graph_magic @ [graph_version] @ u64_le (of_nat ?dim) @ [graph_metric_tag (ix_metric ix)] @
       [storage_tag ?st] @ m @ ef @ c @
       u64_le (case ix_entry_point ix of None \<Rightarrow> - 1 | Some e \<Rightarrow> of_nat e) @ l @ concat bss"
    using into by (auto simp: encode_into_def rbind_eq_Inr put_all_Inr)
  have small: "hc_m (ix_config ix) < 2 ^ 32" "hc_ef_construction (ix_config ix) < 2 ^ 32"
    using e(1,2) by (simp_all only: put_u32_writer_Inr)
  define pre where "pre = graph_magic @ [graph_version] @ u64_le (of_nat ?dim) @ [graph_metric_tag (ix_metric ix)] @
       [storage_tag ?st] @ u32_le (of_nat (hc_m (ix_config ix))) @ u32_le (of_nat (hc_ef_construction (ix_config ix))) @
       u32_le (of_nat ?n) @ u64_le (case ix_entry_point ix of None \<Rightarrow> - 1 | Some e \<Rightarrow> of_nat e) @ u32_le (of_nat (ix_max_level ix))"
  have bs: "bs = pre @ concat bss"
    using e(1-4,6) by (auto simp: pre_def put_u32_writer_Inr)
  have head: "decode_header (decoder_new bs) = Inr (?h, (decoder_new bs)\<lparr>d_position := length pre\<rparr>)"
    using decodes_at [OF decodes_header [OF ok small], of "decoder_new bs" "[]" "concat bss"] total
    by (simp add: decoder_new_def bs pre_def)
  define st where "st = (\<lambda>i. (foldl arena_push (arena_new ?st) (map (\<lambda>v. owned (vector_at ix v)) [0..<i]),
    take i (ix_ids ix), map (decoded_node ix) [0..<i]))"
  have bss: "length bss = ?n" "\<And>i. i < ?n \<Longrightarrow> encode_node ix i = Inr (bss ! i)"
    using e(5) by (auto simp: list_all2_conv_all_nth)
  have step: "decodes (decode_node None ?dim ?st (ix_config ix) (st i)) (bss ! i) (st (Suc i))" if i: "i < ?n" for i
  proof -
    have "ix_ids ix ! i \<notin> set (take i (ix_ids ix))"
      using ids i by (simp add: in_set_conv_nth nth_eq_iff_index_eq)
    from decodes_node [OF bss(2) [OF i] node(1,2) [OF i] this node(3,4) [OF i] node(5) [OF i]]
    show ?thesis
      using i ids(1) by (simp add: st_def take_Suc_conv_app_nth)
  qed
  have "decodes (decode_loop ?n (decode_node None ?dim ?st (ix_config ix)) (st 0)) (concat (map (\<lambda>i. bss ! i) [0..<?n])) (st ?n)"
    by (rule decodes_loop) (rule step)
  then have "decodes (decode_nodes None ?h) (concat bss) (st ?n)"
    by (simp add: decode_nodes_def header_of_def st_def start_arena_def map_nth bss(1) [symmetric])
  from decodes_at [OF this, of "(decoder_new bs)\<lparr>d_position := length pre\<rparr>" pre "[]"]
  have nodes: "decode_nodes None ?h ((decoder_new bs)\<lparr>d_position := length pre\<rparr>) =
      Inr (st ?n, (decoder_new bs)\<lparr>d_position := length bs\<rparr>)"
    using total by (simp add: bs decoder_new_def)
  have nodes_eq: "snd (snd (st ?n)) = map (decoded_node ix) [0..<?n]"
    by (simp add: st_def)
  note fin = finalize_decoded [OF ok nodes_eq]
  obtain ix' where ix': "finalize_compact_graph (decoded_index ?h (st ?n)) = Inr ix'"
    using fin(1) by blast
  have "finish_decoding ?h (st ?n) ((decoder_new bs)\<lparr>d_position := length bs\<rparr>) = Inr ix'"
    using fin(3,4) ix' by (simp add: finish_decoding_Inr header_of_def decoder_new_def)
  moreover have "gh_node_count ?h * gh_dimension ?h \<le> usize_max"
    using ok by (simp add: storable_def header_of_def)
  ultimately have "hnsw_decode bs = Inr ix'"
    using head nodes unfolding hnsw_decode_def decode_inner_Inr by blast
  moreover have "same_view ix' ix"
  proof -
    note out = finalize_ok [OF ix' fin(2)]
    let ?rs = "map (vector_at ix) [0..<?n]"
    have "list_all (ref_ok ?st ?dim) ?rs"
      using node(3) by (simp add: list_all_length)
    from arena_of_refs [OF this]
    have vecs: "arena_storage (fst (st ?n)) = ?st" "\<And>i. i < ?n \<Longrightarrow> arena_get (fst (st ?n)) i ?dim = vector_at ix i"
      by (simp_all add: st_def comp_def)
    have lev: "level_of ix' v = level_of ix v" if "v < ?n" for v
      using out(3) [of v] that by (simp add: nodes_eq level_of_def [of "decoded_index ?h (st ?n)"] decoded_node_def)
    have "neighbors ix' v l = neighbors ix v l" for v l
      unfolding out(1) [OF decoded_index_simps(9)] neighbors_building [OF fin(2) decoded_index_simps(9)]
      by (auto simp: nodes_eq level_of_def [of "decoded_index ?h (st ?n)"] links_at_def decoded_node_def
          simp del: upt_Suc) (auto simp: neighbors_def level_of_def Let_def)
    then show ?thesis
      using out(2,4-10) lev vecs ids(1)
      by (simp add: same_view_def header_of_def nodes_eq vector_at_def) (simp add: st_def)
  qed
  ultimately show ?thesis by blast
qed

section \<open>Properties of the format\<close>


definition demo_graph :: bytes where
  "demo_graph = graph_magic @ [2, 3, 0, 0, 0, 0, 0, 0, 0, 2, 2, 2, 0, 0, 0, 4, 0, 0, 0, 0, 0, 0, 0,
     255, 255, 255, 255, 255, 255, 255, 255, 0, 0, 0, 0]"

lemma demo_graph_decodes: "\<exists>ix. decode_inner demo_graph None = Inr ix \<and> ix_dimension ix = 3 \<and> ix_nodes ix = []"
proof -
  have "decode_inner demo_graph None = Inr \<lparr>ix_dimension = 3, ix_metric = DotProduct,
      ix_config = \<lparr>hc_m = 2, hc_ef_construction = 4\<rparr>, ix_nodes = [], ix_ids = [],
      ix_vectors = Int8Arena [] [] [], ix_entry_point = None, ix_max_level = 0,
      ix_compact_graph = Some \<lparr>ranges = [], links = []\<rparr>\<rparr>"
    by code_simp
  then show ?thesis by simp
qed


text \<open>
  C21: an index within the limits of the format is read back: decoding what was encoded
  gives an index with the same points, links and vectors, and every search of it gives the
  same answer.
\<close>

theorem hnsw_codec_round_trip:
  assumes "storable ix" "hnsw_encode ix = Inr bs"
  shows "\<exists>ix'. hnsw_decode bs = Inr ix' \<and> same_view ix' ix \<and>
    (\<forall>pool query k ef. hnsw_search pool ix' query k ef = hnsw_search pool ix query k ef)"
proof -
  have "graph_ok ix" using assms(1) by (simp add: storable_def)
  then show ?thesis
    using hnsw_round_trip [OF assms] hnsw_search_view by blast
qed

lemma demo_index_level: "level_of demo_index 0 = 0" "level_of demo_index (Suc 0) = 0"
  by (simp_all add: level_of_def demo_index_def)

lemma demo_index_storable: "storable demo_index"
proof -
  let ?st = "arena_storage (ix_vectors demo_index)" and ?dim = "ix_dimension demo_index"
  have parts: "validate_config ?dim (ix_config demo_index) = Inr ()" "?dim < 2 ^ 64" "2 * ?dim \<le> usize_max"
    "ix_max_level demo_index \<le> max_level_limit" "ix_entry_point demo_index = Some 0" "ix_max_level demo_index = 0"
    "arena_ok (ix_vectors demo_index) 2 ?dim"
    by (simp_all add: demo_index_def validate_config_def usize_max_def)
  have two: "length (ix_nodes demo_index) = Suc (Suc 0)"
    by (simp add: demo_index_nodes)
  have "total_layers demo_index = Suc (Suc 0)" "total_links demo_index = Suc (Suc 0)"
    by (simp_all add: total_layers_def total_links_def two demo_index_level demo_index_neighbors)
  then have totals: "total_layers demo_index < 2 ^ 32" "total_links demo_index < 2 ^ 32"
    by simp_all
  have ids: "is_string ''a''" "is_string ''b''"
    by code_simp+
  have refs: "ref_ok F32Storage 1 (F32Ref [0x3f800000])" "ref_ok F32Storage 1 (F32Ref [0x40000000])"
    by code_simp+
  have views: "ix_ids demo_index = [''a'', ''b'']" "?st = F32Storage" "?dim = 1"
    "vector_at demo_index 0 = F32Ref [0x3f800000]" "vector_at demo_index (Suc 0) = F32Ref [0x40000000]"
    by (simp_all add: demo_index_def vector_at_def)
  have bounds: "Suc 0 \<le> max_connections (ix_config demo_index) 0" "0 \<le> max_level_limit"
    by (simp_all add: demo_index_def max_connections_def saturating_mul_def usize_max_def)
  have "\<forall>i < 2. is_string (ix_ids demo_index ! i) \<and> ix_ids demo_index ! i \<noteq> [] \<and> level_of demo_index i \<le> max_level_limit \<and>
      ref_ok ?st ?dim (vector_at demo_index i) \<and>
      (\<forall>l. length (neighbors demo_index i l) \<le> max_connections (ix_config demo_index) l \<and>
         (\<forall>j \<in> set (neighbors demo_index i l). unat j \<noteq> i))"
    unfolding numeral_2_eq_2 All_less_Suc using ids refs views bounds
    by (simp add: demo_index_level demo_index_neighbors)
  then show ?thesis
    using demo_index_graph parts totals demo_index_level unfolding storable_def demo_index_nodes by simp
qed

theorem hnsw_codec_round_trip_witness:
  "\<exists>bs ix'. hnsw_encode demo_index = Inr bs \<and> hnsw_decode bs = Inr ix' \<and> same_view ix' demo_index"
proof -
  have "is_ok (hnsw_encode demo_index)"
    by code_simp
  then obtain bs where bs: "hnsw_encode demo_index = Inr bs"
    by (auto simp: is_ok_def split: sum.splits)
  show ?thesis
    using hnsw_codec_round_trip [OF demo_index_storable bs] bs by blast
qed

text \<open>
  C22: decoding from a memory-mapped file refines decoding from memory. It fails with the
  same error, or gives an index whose vectors are read from the file and that answers every
  search in the same way.
\<close>

theorem hnsw_mapped_refines:
  assumes "mapping_ok (Some (whole, off)) bs"
  shows "case hnsw_decode bs of Inl e \<Rightarrow> decode_mapped bs whole off = Inl e
    | Inr ix \<Rightarrow> \<exists>ix'. decode_mapped bs whole off = Inr ix' \<and> same_view ix' ix \<and>
        (\<forall>pool query k ef. hnsw_search pool ix' query k ef = hnsw_search pool ix query k ef)"
proof (cases "decode_inner bs None")
  case (Inl e)
  then show ?thesis
    using decode_mapped_agrees [OF assms] by (simp add: hnsw_decode_def decode_mapped_def)
next
  case (Inr ix)
  then have "graph_ok ix"
    by (rule decode_inner_ok(1)) (simp add: mapping_ok_def)
  then show ?thesis
    using decode_mapped_agrees [OF assms] hnsw_search_view Inr
    by (auto simp: hnsw_decode_def decode_mapped_def)
qed

theorem hnsw_mapped_refines_witness:
  "\<exists>ix ix'. hnsw_decode demo_graph = Inr ix \<and> decode_mapped demo_graph (0 # demo_graph) 1 = Inr ix' \<and> same_view ix' ix"
proof -
  obtain ix where ix: "hnsw_decode demo_graph = Inr ix"
    using demo_graph_decodes by (auto simp: hnsw_decode_def)
  have "mapping_ok (Some (0 # demo_graph, 1)) demo_graph"
    by (simp add: mapping_ok_def demo_graph_def graph_magic_def)
  from hnsw_mapped_refines [OF this] ix show ?thesis by auto
qed

text \<open>
  C23: the length computed before writing is the number of bytes written; the writer of a
  segment relies on it.
\<close>

theorem hnsw_encoded_len_exact:
  assumes "encoded_len ix = Inr n" "encode_into ix = Inr bs"
    and "arena_ok (ix_vectors ix) (length (ix_nodes ix)) (ix_dimension ix)" "length (ix_ids ix) = length (ix_nodes ix)"
  shows "length bs = n \<and> n \<le> usize_max"
  by (rule encoded_len_ok [OF assms])

theorem hnsw_encoded_len_exact_witness:
  "\<exists>bs. encoded_len demo_index = Inr 81 \<and> encode_into demo_index = Inr bs \<and> length bs = 81"
proof -
  have len: "encoded_len demo_index = Inr 81"
    by code_simp
  have "is_ok (encode_into demo_index)"
    by code_simp
  then obtain bs where bs: "encode_into demo_index = Inr bs"
    by (auto simp: is_ok_def split: sum.splits)
  have "arena_ok (ix_vectors demo_index) (length (ix_nodes demo_index)) (ix_dimension demo_index)"
    "length (ix_ids demo_index) = length (ix_nodes demo_index)"
    by (simp_all add: demo_index_def)
  from hnsw_encoded_len_exact [OF len bs this] len bs show ?thesis by blast
qed

end
