(* ===== verification/Segment.thy ===== *)
theory Segment
  imports HnswCodec
begin

text \<open>
  The immutable files of a persistent collection (\<open>write_segment_file\<close>, \<open>decode_segment_inner\<close>,
  \<open>publish_manifest\<close> and \<open>read_manifest\<close> of \<open>src/persistence.rs\<close>) as functions between their
  contents and bytes: a segment with its points, tombstones and graph, and the manifest that lists
  the segments.
\<close>

section \<open>Writing a segment\<close>

definition segment_magic :: bytes where
  "segment_magic = as_bytes ''FVSG''"

definition segment_version :: u8 where
  "segment_version = 3"

definition legacy_segment_version :: u8 where
  "legacy_segment_version = 2"

definition put_count_writer :: "nat \<Rightarrow> crc_writer \<Rightarrow> crc_writer result" where
  "put_count_writer n w = (if n < 2 ^ 32 then Inr (writer_write w (u32_le (of_nat n)))
     else Inl (InvalidQuery ''batch is too large''))"

definition put_string_writer :: "string \<Rightarrow> crc_writer \<Rightarrow> crc_writer result" where
  "put_string_writer v w = rbind (put_count_writer (length v) w) (\<lambda>w. Inr (writer_write w (as_bytes v)))"

fun encode_value_writer :: "meta_value \<Rightarrow> crc_writer \<Rightarrow> crc_writer result" where
  "encode_value_writer (Keyword v) w = put_string_writer v (writer_write w [1])"
| "encode_value_writer (Integer v) w = Inr (writer_write (writer_write w [2]) (u64_le v))"
| "encode_value_writer (Float v) w =
     (if f64_is_finite v then Inr (writer_write (writer_write w [3]) (u64_le v))
      else Inl (InvalidQuery ''metadata floats must be finite''))"
| "encode_value_writer (Boolean v) w = Inr (writer_write w [4, if v then 1 else 0])"

definition write_field :: "crc_writer \<Rightarrow> string \<times> meta_value \<Rightarrow> crc_writer result" where
  "write_field w kv = rbind (put_string_writer (fst kv) w) (encode_value_writer (snd kv))"

text \<open>
  One point. The byte before the vector says how many zero bytes follow it, so that the vector
  starts at a multiple of four in the file.
\<close>

definition write_padding :: "crc_writer \<Rightarrow> crc_writer" where
  "write_padding w =
     (let padding = (4 - ((w_position w + 1) mod 4)) mod 4 in
      writer_write (writer_write w [of_nat padding]) (replicate padding 0))"

definition write_point :: "crc_writer \<Rightarrow> stored_point \<Rightarrow> crc_writer result" where
  "write_point w p =
     rbind (put_string_writer (sp_id p) w) (\<lambda>w.
     let w = write_padding (writer_write w (u64_le (sp_sequence p)));
         w = foldl (\<lambda>w v. writer_write w (u32_le v)) w (as_slice (sp_vector p)) in
     rbind (put_count_writer (length (sp_metadata p)) w) (\<lambda>w.
     try_fold write_field w (sp_metadata p)))"

definition segment_header :: "collection_config \<Rightarrow> u64 \<Rightarrow> bool \<Rightarrow> crc_writer" where
  "segment_header cfg seq full = foldl writer_write (writer_new [])
     [segment_magic, [segment_version], [metric_tag (config_metric cfg)],
      u64_le (of_nat (dimension cfg)), u64_le seq, [if full then 0 else 1]]"

text \<open>The bytes \<open>write_segment_file\<close> writes to its new file.\<close>

definition segment_bytes ::
    "collection_config \<Rightarrow> u64 \<Rightarrow> stored_point list \<Rightarrow> string list \<Rightarrow> bool \<Rightarrow> hnsw_index \<Rightarrow> bytes result" where
  "segment_bytes cfg seq ps tombstones full ix =
     rbind (put_count_writer (length ps) (segment_header cfg seq full)) (\<lambda>w.
     rbind (try_fold write_point w ps) (\<lambda>w.
     rbind (put_count_writer (length tombstones) w) (\<lambda>w.
     rbind (try_fold (\<lambda>w i. put_string_writer i w) w tombstones) (\<lambda>w.
     rbind (encoded_len ix) (\<lambda>graph_length.
     rbind (put_count_writer graph_length w) (\<lambda>w.
     rbind (encode_into ix) (\<lambda>graph.
     let (out, checksum) = writer_finish (writer_write w graph) in
     Inr (out @ u32_le checksum))))))))"

section \<open>Reading a segment\<close>

record decoded_segment =
  ds_config :: collection_config
  ds_sequence :: u64
  ds_points :: "stored_point list"
  ds_tombstones :: "string list"
  ds_index :: hnsw_index
  ds_full :: bool

definition decoder_position :: "nat decode" where
  "decoder_position d = Inr (d_position d, d)"

definition decode_padding :: "unit decode" where
  "decode_padding = dbind decoder_byte (\<lambda>padding.
     if unat padding > 3 then dfail (CorruptStorage ''invalid vector alignment padding'')
     else dbind (decoder_take (unat padding)) (\<lambda>zeros.
     if list_ex (\<lambda>b. b \<noteq> 0) zeros then dfail (CorruptStorage ''invalid vector alignment padding'')
     else dreturn ()))"

definition check_finite :: "point_vector \<Rightarrow> point_vector decode" where
  "check_finite v = (if list_ex (\<lambda>x. \<not> f32_is_finite x) (as_slice v)
     then dfail (CorruptStorage ''segment contains a non-finite vector'') else dreturn v)"

text \<open>The vector of a point, in place in a mapped file or copied out of one in memory.\<close>

definition decode_segment_vector :: "u8 \<Rightarrow> nat \<Rightarrow> bytes option \<Rightarrow> point_vector decode" where
  "decode_segment_vector version dim mapping =
     (if version = segment_version then
        dbind decode_padding (\<lambda>_.
        dbind decoder_position (\<lambda>pos.
        dbind (dlift (ok_or (checked_add_usize 14 pos) (CorruptStorage ''vector offset overflow''))) (\<lambda>off.
        dbind (dlift (ok_or (checked_mul_usize dim 4) (CorruptStorage ''vector byte length overflows''))) (\<lambda>len.
        dbind (decoder_take len) (\<lambda>bs.
        case mapping of
          Some whole \<Rightarrow> dbind (dlift (mapped whole off dim)) check_finite
        | None \<Rightarrow> check_finite (Owned (f32s_of_bytes bs)))))))
      else dbind (decode_n dim decoder_f32) (\<lambda>v. dreturn (Owned v)))"

definition decode_stored_point :: "u8 \<Rightarrow> nat \<Rightarrow> bytes option \<Rightarrow> stored_point decode" where
  "decode_stored_point version dim mapping =
     dbind decoder_string (\<lambda>i.
     dbind decoder_u64 (\<lambda>seq.
     dbind (decode_segment_vector version dim mapping) (\<lambda>v.
     dbind decoder_metadata (\<lambda>md.
     dreturn \<lparr>sp_id = i, sp_vector = v, sp_metadata = md, sp_sequence = seq\<rparr>))))"

definition decode_tombstone :: "string list \<Rightarrow> string list decode" where
  "decode_tombstone ts = dbind decoder_string (\<lambda>i.
     if i = [] \<or> i \<in> set ts
     then dfail (CorruptStorage ''segment contains an empty or duplicate tombstone'')
     else dreturn (ts @ [i]))"

definition decode_kind :: "u8 \<Rightarrow> bool decode" where
  "decode_kind version = (if version = segment_version
     then dbind decoder_byte (\<lambda>b. if b = 0 then dreturn True else if b = 1 then dreturn False
       else dfail (CorruptStorage ''invalid segment kind''))
     else dreturn True)"

definition decode_tombstones :: "u8 \<Rightarrow> string list decode" where
  "decode_tombstones version = (if version = segment_version
     then dbind decoder_count (\<lambda>n. decode_loop n decode_tombstone []) else dreturn [])"

definition decode_segment_graph :: "bytes option \<Rightarrow> hnsw_index decode" where
  "decode_segment_graph mapping =
     dbind decoder_u32 (\<lambda>graph_length.
     dbind decoder_position (\<lambda>pos.
     dbind (dlift (ok_or (checked_add_usize 14 pos) (CorruptStorage ''segment graph offset overflow''))) (\<lambda>off.
     dbind (decoder_take (unat graph_length)) (\<lambda>bs.
     dlift (case mapping of Some whole \<Rightarrow> decode_mapped bs whole off | None \<Rightarrow> hnsw_decode bs)))))"

definition decode_segment_body ::
    "u8 \<Rightarrow> collection_config \<Rightarrow> bytes option \<Rightarrow> decoded_segment decode" where
  "decode_segment_body version cfg mapping =
     dbind decoder_u64 (\<lambda>seq.
     dbind (decode_kind version) (\<lambda>full.
     dbind decoder_count (\<lambda>n.
     dbind (decode_n n (decode_stored_point version (dimension cfg) mapping)) (\<lambda>ps.
     dbind (decode_tombstones version) (\<lambda>tombstones.
     if full \<and> tombstones \<noteq> [] then dfail (CorruptStorage ''full segment contains tombstones'')
     else dbind (decode_segment_graph mapping) (\<lambda>ix.
     dreturn \<lparr>ds_config = cfg, ds_sequence = seq, ds_points = ps, ds_tombstones = tombstones,
       ds_index = ix, ds_full = full\<rparr>))))))"

definition check_graph :: "decoded_segment \<Rightarrow> decoded_segment result" where
  "check_graph s =
     (let ix = ds_index s in
      if ix_dimension ix \<noteq> dimension (ds_config s) \<or> ix_metric ix \<noteq> config_metric (ds_config s) \<or>
         length (ix_nodes ix) > length (ds_points s)
      then Inl (CorruptStorage ''HNSW graph does not match its segment'')
      else if set (ix_ids ix) \<noteq> set (map sp_id (ds_points s))
      then Inl (CorruptStorage ''HNSW graph IDs do not match its segment'')
      else Inr s)"

definition decode_segment_inner :: "bytes \<Rightarrow> bytes option \<Rightarrow> decoded_segment result" where
  "decode_segment_inner bs mapping =
     (if length bs < 30 \<or> take 4 bs \<noteq> segment_magic \<or>
         (bs ! 4 \<noteq> legacy_segment_version \<and> bs ! 4 \<noteq> segment_version)
      then Inl (CorruptStorage ''invalid segment header'')
      else let payload_length = length bs - 4 in
      if crc32c (take payload_length bs) \<noteq> le_u32 (drop payload_length bs)
      then Inl (CorruptStorage ''segment checksum mismatch'')
      else rbind (parse_metric (bs ! 5)) (\<lambda>m.
        let dim = unat (le_u64 (take 8 (drop 6 bs))) in
        if dim = 0 \<or> dim > max_items then Inl (CorruptStorage ''invalid segment dimension'')
        else rbind (decode_segment_body (bs ! 4) \<lparr>dimension = dim, config_metric = m\<rparr> mapping
            (decoder_new (drop 14 (take payload_length bs)))) (\<lambda>(s, d).
          rbind (decoder_finish d) (\<lambda>_. check_graph s))))"

definition decode_segment :: "bytes \<Rightarrow> decoded_segment result" where
  "decode_segment bs = decode_segment_inner bs None"

definition decode_segment_mapped :: "bytes \<Rightarrow> decoded_segment result" where
  "decode_segment_mapped whole = decode_segment_inner whole (Some whole)"


section \<open>What the writers write\<close>

lemma writer_write_write [simp]: "writer_write (writer_write w a) b = writer_write w (a @ b)"
  by (simp add: writer_write_def crc32c_update_append saturating_add_def min_def)

definition writer_at :: "crc_writer \<Rightarrow> bool" where
  "writer_at w \<longleftrightarrow> w_position w = min (length (w_inner w)) usize_max \<and> w_crc w = crc32c_update (NOT 0) (w_inner w)"

lemma writer_at_write [simp]: "writer_at w \<Longrightarrow> writer_at (writer_write w bs)"
  by (auto simp: writer_at_def writer_write_def saturating_add_def crc32c_update_append min_def)

lemma writer_at_new [simp]: "writer_at (writer_new [])"
  by (simp add: writer_at_def writer_new_def crc32c_update_def)

lemma inner_write [simp]: "w_inner (writer_write w bs) = w_inner w @ bs"
  by (simp add: writer_write_def)

lemma writer_write_Nil [simp]: "writer_at w \<Longrightarrow> writer_write w [] = w"
  by (simp add: writer_at_def writer_write_def saturating_add_def crc32c_update_def)

lemma put_count_writer_eq: "put_count_writer n w = rbind (put_count n) (\<lambda>bs. Inr (writer_write w bs))"
  by (simp add: put_count_writer_def put_count_def)

lemma put_string_writer_eq: "put_string_writer s w = rbind (put_string s) (\<lambda>bs. Inr (writer_write w bs))"
  by (simp add: put_string_writer_def put_string_def put_count_writer_def put_count_def)

lemma encode_value_writer_eq: "encode_value_writer v w = rbind (encode_value v) (\<lambda>bs. Inr (writer_write w bs))"
  by (cases v) (auto simp: put_string_writer_eq rbind_def split: sum.splits)

lemma write_field_eq: "write_field w kv = rbind (encode_field kv) (\<lambda>bs. Inr (writer_write w bs))"
  by (auto simp: write_field_def encode_field_def put_string_writer_eq encode_value_writer_eq rbind_def split: sum.splits)

lemma try_fold_writer:
  assumes "\<And>w x. F w x = rbind (enc x) (\<lambda>bs. Inr (writer_write w bs))" "writer_at w"
  shows "try_fold F w xs = rbind (put_all enc xs) (\<lambda>bs. Inr (writer_write w bs))"
  using assms(2)
proof (induction xs arbitrary: w)
  case Nil
  then show ?case by (simp add: put_all_def)
next
  case (Cons x xs)
  show ?case
  proof (cases "enc x")
    case (Inl e)
    then show ?thesis by (simp add: assms(1) put_all_def)
  next
    case (Inr bs)
    then have "try_fold F w (x # xs) = try_fold F (writer_write w bs) xs"
      by (simp add: assms(1))
    also have "\<dots> = rbind (put_all enc xs) (\<lambda>cs. Inr (writer_write w (bs @ cs)))"
      using Cons by simp
    finally show ?thesis
      using Inr by (auto simp: put_all_def rbind_def split: sum.splits)
  qed
qed

lemma write_components: "writer_at w \<Longrightarrow> foldl (\<lambda>w v. writer_write w (u32_le v)) w vs = writer_write w (f32s_le vs)"
  by (induction vs arbitrary: w) (simp_all add: f32s_le_def)

definition padding_at :: "nat \<Rightarrow> bytes" where
  "padding_at pos = (let n = (4 - ((pos + 1) mod 4)) mod 4 in of_nat n # replicate n 0)"

lemma write_padding_eq: "write_padding w = writer_write w (padding_at (w_position w))"
  by (simp add: write_padding_def padding_at_def Let_def)

lemma write_point_Inr:
  assumes "write_point w p = Inr w'" "writer_at w"
  obtains i m fs where "put_string (sp_id p) = Inr i" "put_count (length (sp_metadata p)) = Inr m"
    "put_all encode_field (sp_metadata p) = Inr fs"
    "w' = writer_write w (i @ u64_le (sp_sequence p) @
       padding_at (w_position (writer_write w (i @ u64_le (sp_sequence p)))) @
       f32s_le (as_slice (sp_vector p)) @ m @ fs)"
proof -
  obtain i where i: "put_string (sp_id p) = Inr i"
    using assms(1) by (auto simp: write_point_def put_string_writer_eq rbind_eq_Inr)
  let ?w = "writer_write w (i @ u64_le (sp_sequence p))"
  let ?w2 = "writer_write ?w (padding_at (w_position ?w) @ f32s_le (as_slice (sp_vector p)))"
  have "rbind (put_count_writer (length (sp_metadata p)) ?w2) (\<lambda>w. try_fold write_field w (sp_metadata p)) = Inr w'"
    using assms i by (simp add: write_point_def put_string_writer_eq Let_def write_components write_padding_eq)
  then obtain m fs where m: "put_count (length (sp_metadata p)) = Inr m"
    and fs: "put_all encode_field (sp_metadata p) = Inr fs" and w': "w' = writer_write ?w2 (m @ fs)"
    using assms(2) by (auto simp: put_count_writer_eq rbind_eq_Inr try_fold_writer [OF write_field_eq])
  show thesis
    by (rule that [OF i m fs]) (simp add: w')
qed

section \<open>Reading from a place in a file\<close>

text \<open>
  The fields of a segment between its fixed header and its checksum, read from the offset \<open>off\<close>
  of the file: the decoder reads exactly \<open>xs\<close> and its value satisfies \<open>Q\<close>.
\<close>

definition body :: "bytes \<Rightarrow> bytes" where
  "body whole = drop 14 (take (length whole - 4) whole)"

definition parses :: "bytes \<Rightarrow> 'a decode \<Rightarrow> nat \<Rightarrow> bytes \<Rightarrow> ('a \<Rightarrow> bool) \<Rightarrow> bool" where
  "parses whole p off xs Q \<longleftrightarrow> (\<forall>d. d_bytes d = body whole \<longrightarrow> 14 + d_position d = off \<longrightarrow> at_bytes d xs \<longrightarrow>
     (\<exists>v. Q v \<and> p d = Inr (v, d\<lparr>d_position := d_position d + length xs\<rparr>)))"

lemma parses_decodes: "decodes p xs v \<Longrightarrow> Q v \<Longrightarrow> parses whole p off xs Q"
  by (auto simp: parses_def decodes_def)

lemma parses_dbind:
  assumes "parses whole p off xs Q" "\<And>x. Q x \<Longrightarrow> parses whole (f x) (off + length xs) ys R"
  shows "parses whole (dbind p f) off (xs @ ys) R"
  unfolding parses_def
proof (intro allI impI)
  fix d
  assume d: "d_bytes d = body whole" "14 + d_position d = off" "at_bytes d (xs @ ys)"
  let ?d = "d\<lparr>d_position := d_position d + length xs\<rparr>"
  have at: "at_bytes d xs" "at_bytes ?d ys"
    using d(3) by (simp_all add: at_bytes_append)
  obtain x where x: "Q x" "p d = Inr (x, ?d)"
    using assms(1) d(1,2) at(1) by (auto simp: parses_def)
  have "d_bytes ?d = body whole" "14 + d_position ?d = off + length xs"
    using d by simp_all
  then obtain y where "R y" "f x ?d = Inr (y, ?d\<lparr>d_position := d_position ?d + length ys\<rparr>)"
    using assms(2) [OF x(1)] at(2) unfolding parses_def by blast
  then show "\<exists>v. R v \<and> dbind p f d = Inr (v, d\<lparr>d_position := d_position d + length (xs @ ys)\<rparr>)"
    using x(2) by (auto simp: dbind_def add.assoc)
qed

lemma parses_then:
  assumes "decodes p xs x" "parses whole (f x) (off + length xs) ys R"
  shows "parses whole (dbind p f) off (xs @ ys) R"
  by (rule parses_dbind [where Q = "\<lambda>y. y = x"]) (use assms in \<open>auto intro: parses_decodes\<close>)

lemma parses_dreturn: "Q x \<Longrightarrow> parses whole (dreturn x) off [] Q"
  by (auto simp: parses_def dreturn_def)

lemma parses_map:
  assumes "parses whole p off xs Q" "\<And>x. Q x \<Longrightarrow> \<exists>y. R y \<and> f x = dreturn y"
  shows "parses whole (dbind p f) off xs R"
proof -
  have "parses whole (f x) (off + length xs) [] R" if "Q x" for x
    using assms(2) [OF that] by (auto intro: parses_dreturn)
  from parses_dbind [OF assms(1) this] show ?thesis by simp
qed

lemma parses_dlift: "r = Inr x \<Longrightarrow> parses whole (f x) off xs Q \<Longrightarrow> parses whole (dbind (dlift r) f) off xs Q"
  by (simp add: parses_def dbind_def dlift_def)

lemma parses_position:
  assumes "\<And>pos. 14 + pos = off \<Longrightarrow> parses whole (f pos) off xs Q"
  shows "parses whole (dbind decoder_position f) off xs Q"
  using assms by (auto simp: parses_def dbind_def decoder_position_def)


definition file_ok :: "bytes \<Rightarrow> bool" where
  "file_ok whole \<longleftrightarrow> 18 \<le> length whole \<and> length whole \<le> usize_max"

lemma parses_place:
  assumes "d_bytes d = body whole" "14 + d_position d = off" "at_bytes d xs" "file_ok whole"
  shows "off + length xs + 4 \<le> length whole" "take (length xs) (drop off whole) = xs"
proof -
  let ?b = "body whole" and ?pos = "d_position d"
  have pre: "prefix xs (drop ?pos ?b)" and pos: "?pos \<le> length ?b"
    using assms(1,3) by (auto simp: at_bytes_def)
  then have "?pos + length xs \<le> length ?b"
    using prefix_length_le [OF pre] by simp
  then show *: "off + length xs + 4 \<le> length whole"
    using assms(2,4) unfolding body_def file_ok_def by (simp, linarith)
  have "take (length xs) (drop ?pos ?b) = xs"
    using pre by (auto simp: prefix_def)
  moreover have "drop ?pos ?b = take (length whole - 4 - off) (drop off whole)"
    unfolding body_def drop_take drop_drop assms(2) [symmetric] by (simp add: add.commute)
  moreover have "length xs \<le> length whole - 4 - off"
    using * by linarith
  ultimately show "take (length xs) (drop off whole) = xs"
    by (simp add: min_def)
qed

lemma padding_aligns:
  "length (padding_at pos) = Suc ((4 - ((pos + 1) mod 4)) mod 4)" "(pos + length (padding_at pos)) mod 4 = 0"
proof -
  show len: "length (padding_at pos) = Suc ((4 - ((pos + 1) mod 4)) mod 4)"
    by (simp add: padding_at_def Let_def)
  show "(pos + length (padding_at pos)) mod 4 = 0"
  proof -
    obtain q r where pos: "pos = 4 * q + r" "r < 4"
      by (metis mod_less_divisor mult_div_mod_eq zero_less_numeral)
    then have "r = 0 \<or> r = 1 \<or> r = 2 \<or> r = 3" by auto
    moreover have "(pos + 1) mod 4 = (r + 1) mod 4"
      unfolding pos(1) by (metis add.assoc mod_mult_self4)
    ultimately have "(pos + 1) mod 4 + (4 - (pos + 1) mod 4) mod 4 \<in> {0, 4}" by auto
    moreover have "(pos + length (padding_at pos)) mod 4 = ((pos + 1) mod 4 + (4 - (pos + 1) mod 4) mod 4) mod 4"
      using mod_add_left_eq [of "pos + 1" 4 "(4 - (pos + 1) mod 4) mod 4"] unfolding len by simp
    ultimately show ?thesis by auto
  qed
qed

lemma decodes_padding: "decodes decode_padding (padding_at pos) ()"
proof -
  let ?n = "(4 - ((pos + 1) mod 4)) mod 4"
  have n: "unat (of_nat ?n :: u8) = ?n"
    by (simp add: unat_of_nat)
  have "decodes (if unat (of_nat ?n :: u8) > 3 then dfail (CorruptStorage ''invalid vector alignment padding'')
     else dbind (decoder_take (unat (of_nat ?n :: u8))) (\<lambda>zeros.
     if list_ex (\<lambda>b. b \<noteq> 0) zeros then dfail (CorruptStorage ''invalid vector alignment padding'')
     else dreturn ())) (replicate ?n 0) ()"
    unfolding n by (simp, intro impI conjI decodes_map [OF decodes_take]) (auto simp: list_ex_iff)
  then show ?thesis
    unfolding decode_padding_def padding_at_def Let_def by (rule decodes_tag)
qed

lemma parses_vector:
  assumes "file_ok whole" "mapping \<in> {None, Some whole}" "length v = dim" "list_all f32_is_finite v"
  shows "parses whole (decode_segment_vector segment_version dim mapping) off (padding_at off @ f32s_le v)
    (\<lambda>x. as_slice x = v)"
proof -
  let ?off = "off + length (padding_at off)"
  have aligned: "?off mod 4 = 0"
    by (rule padding_aligns)
  have "parses whole
      (dbind (dlift (ok_or (checked_add_usize 14 pos) (CorruptStorage ''vector offset overflow''))) (\<lambda>off.
        dbind (dlift (ok_or (checked_mul_usize dim 4) (CorruptStorage ''vector byte length overflows''))) (\<lambda>len.
        dbind (decoder_take len) (\<lambda>bs.
        case mapping of
          Some whole \<Rightarrow> dbind (dlift (mapped whole off dim)) check_finite
        | None \<Rightarrow> check_finite (Owned (f32s_of_bytes bs))))))
      ?off (f32s_le v) (\<lambda>x. as_slice x = v)" (is "parses whole ?p _ _ _") if pos: "14 + pos = ?off" for pos
    unfolding parses_def
  proof (intro allI impI)
    fix d
    assume d: "d_bytes d = body whole" "14 + d_position d = ?off" "at_bytes d (f32s_le v)"
    have place: "?off + dim * 4 + 4 \<le> length whole" "take (dim * 4) (drop ?off whole) = f32s_le v"
      using parses_place [OF d assms(1)] assms(3) by (simp_all add: mult.commute)
    have len: "length whole \<le> usize_max"
      using assms(1) by (simp add: file_ok_def)
    have checks: "checked_add_usize 14 pos = Some ?off" "checked_mul_usize dim 4 = Some (dim * 4)"
      using place(1) len pos by (auto simp: checked_add_usize_def checked_mul_usize_def)
    have tk: "decoder_take (dim * 4) d = Inr (f32s_le v, d\<lparr>d_position := d_position d + length (f32s_le v)\<rparr>)"
      using decodes_take [of "f32s_le v" "dim * 4"] d(3) assms(3) by (simp add: decodes_def)
    have map: "mapped whole ?off dim = Inr (Mapped whole ?off dim)"
      using place(1) len aligned by (auto simp: mapped_def checked_add_usize_def checked_mul_usize_def)
    have slice: "as_slice (Mapped whole ?off dim) = v" "as_slice (Owned (f32s_of_bytes (f32s_le v))) = v"
      using place(2) by simp_all
    have fin: "check_finite x = dreturn x" if "as_slice x = v" for x
      using assms(4) that by (auto simp: check_finite_def list_all_iff list_ex_iff)
    show "\<exists>x. as_slice x = v \<and> ?p d = Inr (x, d\<lparr>d_position := d_position d + length (f32s_le v)\<rparr>)"
    proof (cases mapping)
      case None
      then have "?p d = Inr (Owned v, d\<lparr>d_position := d_position d + length (f32s_le v)\<rparr>)"
        using fin [OF slice(2)] by (simp add: dbind_def dlift_def checks tk dreturn_def)
      then show ?thesis by force
    next
      case (Some w)
      then have "w = whole" using assms(2) by simp
      then have "?p d = Inr (Mapped whole ?off dim, d\<lparr>d_position := d_position d + length (f32s_le v)\<rparr>)"
        using fin [OF slice(1)] Some by (simp add: dbind_def dlift_def checks tk map dreturn_def)
      then show ?thesis using slice(1) by blast
    qed
  qed
  then show ?thesis
    unfolding decode_segment_vector_def
    by (simp only: simp_thms if_True) (rule parses_then [OF decodes_padding], rule parses_position, blast)
qed


lemma writer_position: "writer_at w \<Longrightarrow> length (w_inner w) \<le> usize_max \<Longrightarrow> w_position w = length (w_inner w)"
  by (simp add: writer_at_def)

lemma parses_point:
  assumes wr: "write_point w p = Inr w'" and at: "writer_at w" and len: "length (w_inner w') \<le> usize_max"
    and ok: "point_ok dim p" and whole: "file_ok whole" "mapping \<in> {None, Some whole}"
  shows "\<exists>xs. w' = writer_write w xs \<and>
    parses whole (decode_stored_point segment_version dim mapping) (length (w_inner w)) xs
      (\<lambda>q. to_owned_point q = to_owned_point p)"
proof -
  let ?v = "as_slice (sp_vector p)" and ?s = "u64_le (sp_sequence p)"
  obtain i m fs where i: "put_string (sp_id p) = Inr i" and m: "put_count (length (sp_metadata p)) = Inr m"
    and fs: "put_all encode_field (sp_metadata p) = Inr fs"
    and w': "w' = writer_write w (i @ ?s @ padding_at (w_position (writer_write w (i @ ?s))) @ f32s_le ?v @ m @ fs)"
    by (rule write_point_Inr [OF wr at])
  let ?off = "length (w_inner w) + length i + length ?s"
  have "length (w_inner (writer_write w (i @ ?s))) \<le> length (w_inner w')"
    unfolding w' inner_write by simp
  then have "length (w_inner (writer_write w (i @ ?s))) \<le> usize_max"
    using len by (rule order_trans)
  from writer_position [OF writer_at_write [OF at] this]
  have pos: "w_position (writer_write w (i @ ?s)) = ?off"
    unfolding inner_write length_append by (simp only: add.assoc)
  have str: "decodes decoder_string i (sp_id p)"
    using string_codec.round_trip [OF i] ok by (simp add: point_ok_def)
  have md: "decodes decoder_metadata (m @ fs) (sp_metadata p)"
    using ok by (intro decodes_metadata [OF m fs]) (simp_all add: point_ok_def)
  have vec: "parses whole (decode_segment_vector segment_version dim mapping) ?off (padding_at ?off @ f32s_le ?v)
      (\<lambda>x. as_slice x = ?v)"
    by (rule parses_vector [OF whole]) (use ok in \<open>simp_all add: point_ok_def\<close>)
  have tail: "parses whole (dbind decoder_metadata (\<lambda>md.
      dreturn \<lparr>sp_id = sp_id p, sp_vector = v, sp_metadata = md, sp_sequence = sp_sequence p\<rparr>)) off (m @ fs)
      (\<lambda>q. to_owned_point q = to_owned_point p)" if "as_slice v = ?v" for v off
    by (rule parses_map [OF parses_decodes [OF md refl]], rule exI, rule conjI [rotated], rule refl)
      (simp add: to_owned_point_def that)
  have "parses whole (decode_stored_point segment_version dim mapping) (length (w_inner w))
      (i @ ?s @ (padding_at ?off @ f32s_le ?v) @ m @ fs) (\<lambda>q. to_owned_point q = to_owned_point p)"
    unfolding decode_stored_point_def
    by (rule parses_then [OF str], rule parses_then [OF decodes_u64], rule parses_dbind [OF vec], rule tail)
  then show ?thesis
    unfolding w' pos append_assoc by (intro exI conjI) (rule refl)
qed

lemma write_point_at: "write_point w p = Inr w' \<Longrightarrow> writer_at w \<Longrightarrow> writer_at w'"
  by (erule write_point_Inr) simp_all

lemma write_points_at:
  "try_fold write_point w ps = Inr w' \<Longrightarrow> writer_at w \<Longrightarrow> writer_at w' \<and> length (w_inner w) \<le> length (w_inner w')"
proof (induction ps arbitrary: w)
  case Nil
  then show ?case by simp
next
  case (Cons p ps)
  then obtain w1 where w1: "write_point w p = Inr w1" "try_fold write_point w1 ps = Inr w'"
    by (auto simp: rbind_eq_Inr)
  moreover have "length (w_inner w) \<le> length (w_inner w1)"
    by (rule write_point_Inr [OF w1(1) Cons.prems(2)]) simp
  ultimately show ?case
    using Cons.IH [OF w1(2) write_point_at [OF w1(1) Cons.prems(2)]] by linarith
qed

lemma parses_points:
  assumes "try_fold write_point w ps = Inr w'" "writer_at w" "length (w_inner w') \<le> usize_max"
    and "list_all (point_ok dim) ps" and whole: "file_ok whole" "mapping \<in> {None, Some whole}"
  shows "\<exists>xs. w' = writer_write w xs \<and>
    parses whole (decode_n (length ps) (decode_stored_point segment_version dim mapping)) (length (w_inner w)) xs
      (\<lambda>qs. map to_owned_point qs = map to_owned_point ps)"
  using assms(1-4)
proof (induction ps arbitrary: w)
  case Nil
  then have "w' = writer_write w []" by simp
  then show ?case
    by (intro exI [of _ "[]"] conjI) (simp_all add: parses_dreturn)
next
  case (Cons p ps)
  let ?P = "decode_stored_point segment_version dim mapping"
  obtain w1 where w1: "write_point w p = Inr w1" "try_fold write_point w1 ps = Inr w'"
    using Cons.prems(1) by (auto simp: rbind_eq_Inr)
  have oks: "point_ok dim p" "list_all (point_ok dim) ps"
    using Cons.prems(4) by simp_all
  have at1: "writer_at w1"
    using write_point_at [OF w1(1) Cons.prems(2)] .
  obtain xs where xs: "w' = writer_write w1 xs"
    "parses whole (decode_n (length ps) ?P) (length (w_inner w1)) xs (\<lambda>qs. map to_owned_point qs = map to_owned_point ps)"
    using Cons.IH [OF w1(2) at1 Cons.prems(3) oks(2)] by blast
  have "length (w_inner w1) \<le> usize_max"
    using Cons.prems(3) by (simp add: xs(1))
  then obtain ys where ys: "w1 = writer_write w ys"
    "parses whole ?P (length (w_inner w)) ys (\<lambda>q. to_owned_point q = to_owned_point p)"
    using parses_point [OF w1(1) Cons.prems(2) _ oks(1) whole] by blast
  have off: "length (w_inner w1) = length (w_inner w) + length ys"
    by (simp add: ys(1))
  have "parses whole (decode_n (length (p # ps)) ?P) (length (w_inner w)) (ys @ xs)
      (\<lambda>qs. map to_owned_point qs = map to_owned_point (p # ps))"
    unfolding list.size add_Suc_right add_0_right decode_n.simps
    by (rule parses_dbind [OF ys(2)], rule parses_map [OF xs(2) [unfolded off]], rule exI, rule conjI [rotated], rule refl) simp
  moreover have "w' = writer_write w (ys @ xs)"
    unfolding xs(1) unfolding ys(1) by simp
  ultimately show ?case by blast
qed


section \<open>A segment is read back\<close>

lemma decodes_tombstone_loop:
  assumes "put_all put_string ts = Inr bs" "distinct (acc @ ts)" "[] \<notin> set ts" "list_all string_ok ts"
  shows "decodes (decode_loop (length ts) decode_tombstone acc) bs (acc @ ts)"
  using assms
proof (induction ts arbitrary: acc bs)
  case Nil
  then show ?case by (simp add: put_all_def decodes_dreturn)
next
  case (Cons t ts)
  obtain b bs' where b: "put_string t = Inr b" and bs': "put_all put_string ts = Inr bs'" and bs: "bs = b @ bs'"
    using Cons.prems(1) by (auto simp: put_all_def rbind_eq_Inr)
  have "decodes (decode_tombstone acc) b (acc @ [t])"
    unfolding decode_tombstone_def
    by (rule decodes_map [OF string_codec.round_trip [OF b]]) (use Cons.prems in auto)
  moreover have "decodes (decode_loop (length ts) decode_tombstone (acc @ [t])) bs' (acc @ t # ts)"
    using Cons.IH [OF bs', of "acc @ [t]"] Cons.prems by simp
  ultimately show ?case
    unfolding bs by (simp add: decodes_dbind)
qed

lemma decodes_tombstones:
  assumes "put_count (length ts) = Inr n" "put_all put_string ts = Inr bs"
    and "distinct ts" "[] \<notin> set ts" "list_all string_ok ts" "length ts \<le> max_items"
  shows "decodes (decode_tombstones segment_version) (n @ bs) ts"
proof -
  have "decodes (decode_loop (length ts) decode_tombstone []) bs ts"
    using decodes_tombstone_loop [OF assms(2), of "[]"] assms(3-5) by simp
  then show ?thesis
    unfolding decode_tombstones_def put_count_items [OF assms(1)]
    by (simp only: simp_thms if_True) (rule decodes_dbind [OF decodes_count [OF assms(6)]])
qed

lemma same_view_trans: "same_view a b \<Longrightarrow> same_view b c \<Longrightarrow> same_view a c"
  by (simp add: same_view_def)

lemma decode_graph_view:
  assumes "storable ix" "hnsw_encode ix = Inr graph" "mapping_ok (Some (whole, off)) graph"
  shows "\<exists>ix'. decode_mapped graph whole off = Inr ix' \<and> same_view ix' ix"
proof -
  obtain ix1 where ix1: "decode_inner graph None = Inr ix1" "same_view ix1 ix"
    using hnsw_round_trip [OF assms(1,2)] by (auto simp: hnsw_decode_def)
  then obtain ix2 where "decode_inner graph (Some (whole, off)) = Inr ix2" "same_view ix2 ix1"
    using decode_mapped_agrees [OF assms(3)] by auto
  then show ?thesis
    using same_view_trans ix1(2) unfolding decode_mapped_def by blast
qed

lemma parses_graph:
  assumes ok: "storable ix" and len: "encoded_len ix = Inr n" "put_count n = Inr nb" and enc: "encode_into ix = Inr graph"
    and whole: "file_ok whole" "mapping \<in> {None, Some whole}"
  shows "parses whole (decode_segment_graph mapping) off (nb @ graph) (\<lambda>ix'. same_view ix' ix)"
proof -
  have nb: "nb = u32_le (of_nat n)" and "n < 2 ^ 32"
    using len(2) by (auto simp: put_count_def split: if_splits)
  have "length graph = n"
    using encoded_len_ok [OF len(1) enc] ok by (simp add: storable_def graph_ok_def)
  then have n: "unat (of_nat n :: u32) = length graph"
    using \<open>n < 2 ^ 32\<close> by (simp add: unat_of_nat)
  have he: "hnsw_encode ix = Inr graph"
    using len(1) enc by (simp add: hnsw_encode_def)
  let ?off = "off + length nb"
  have "parses whole
      (dbind (dlift (ok_or (checked_add_usize 14 pos) (CorruptStorage ''segment graph offset overflow''))) (\<lambda>off.
       dbind (decoder_take (unat (of_nat n :: u32))) (\<lambda>bs.
       dlift (case mapping of Some whole \<Rightarrow> decode_mapped bs whole off | None \<Rightarrow> hnsw_decode bs))))
      ?off graph (\<lambda>ix'. same_view ix' ix)" (is "parses whole ?p _ _ _") if pos: "14 + pos = ?off" for pos
    unfolding parses_def
  proof (intro allI impI)
    fix d
    assume d: "d_bytes d = body whole" "14 + d_position d = ?off" "at_bytes d graph"
    note place = parses_place [OF d whole(1)]
    have fits: "length whole \<le> usize_max"
      using whole(1) by (simp add: file_ok_def)
    then have map: "mapping_ok (Some (whole, ?off)) graph"
      using place by (simp add: mapping_ok_def usize_max_def)
    have off: "checked_add_usize 14 pos = Some ?off"
      using place(1) fits pos by (simp add: checked_add_usize_def)
    have tk: "decoder_take (length graph) d = Inr (graph, d\<lparr>d_position := d_position d + length graph\<rparr>)"
      using decodes_take [of graph] d(3) by (simp add: decodes_def)
    have "\<exists>ix'. same_view ix' ix \<and> (case mapping of Some whole \<Rightarrow> decode_mapped graph whole ?off | None \<Rightarrow> hnsw_decode graph) = Inr ix'"
      using whole(2) hnsw_round_trip [OF ok he] decode_graph_view [OF ok he map] by auto
    then show "\<exists>ix'. same_view ix' ix \<and> ?p d = Inr (ix', d\<lparr>d_position := d_position d + length graph\<rparr>)"
      by (auto simp: dbind_def dlift_def off n tk)
  qed
  then show ?thesis
    unfolding decode_segment_graph_def nb
    by (intro parses_then [OF decodes_u32] parses_position) blast
qed


text \<open>The segments the reader accepts: within its limits, and a graph over exactly the points.\<close>

definition segment_ok ::
    "collection_config \<Rightarrow> stored_point list \<Rightarrow> string list \<Rightarrow> bool \<Rightarrow> hnsw_index \<Rightarrow> bool" where
  "segment_ok cfg ps tombstones full ix \<longleftrightarrow> 0 < dimension cfg \<and> dimension cfg \<le> max_items \<and>
     length ps \<le> max_items \<and> list_all (point_ok (dimension cfg)) ps \<and>
     length tombstones \<le> max_items \<and> list_all string_ok tombstones \<and> distinct tombstones \<and>
     [] \<notin> set tombstones \<and> (full \<longrightarrow> tombstones = []) \<and>
     storable ix \<and> ix_dimension ix = dimension cfg \<and> ix_metric ix = config_metric cfg \<and>
     length (ix_nodes ix) \<le> length ps \<and> set (ix_ids ix) = set (map sp_id ps)"

definition segment_of ::
    "collection_config \<Rightarrow> u64 \<Rightarrow> stored_point list \<Rightarrow> string list \<Rightarrow> bool \<Rightarrow> hnsw_index \<Rightarrow> decoded_segment \<Rightarrow> bool" where
  "segment_of cfg seq ps tombstones full ix s \<longleftrightarrow> ds_config s = cfg \<and> ds_sequence s = seq \<and>
     map to_owned_point (ds_points s) = map to_owned_point ps \<and> ds_tombstones s = tombstones \<and>
     ds_full s = full \<and> same_view (ds_index s) ix"

lemma segment_header_write:
  "segment_header cfg seq full = writer_write (writer_new [])
     (segment_magic @ [segment_version, metric_tag (config_metric cfg)] @ u64_le (of_nat (dimension cfg)) @
      u64_le seq @ [if full then 0 else 1])"
  by (simp add: segment_header_def)

lemma length_segment_magic [simp]: "length segment_magic = 4"
  by (simp add: segment_magic_def)

lemma decodes_kind: "decodes (decode_kind segment_version) [if full then 0 else 1] full"
  unfolding decode_kind_def by (simp only: simp_thms if_True) (rule decodes_map [OF decodes_byte], simp)

lemma point_ids: "map to_owned_point qs = map to_owned_point ps \<Longrightarrow> map sp_id qs = map sp_id ps"
proof -
  assume "map to_owned_point qs = map to_owned_point ps"
  then have "map p_id (map to_owned_point qs) = map p_id (map to_owned_point ps)" by simp
  then show ?thesis by (simp add: comp_def to_owned_point_def)
qed

lemma body_framed: "length h = 14 \<Longrightarrow> length t = 4 \<Longrightarrow> body ((h @ b) @ t) = b"
  by (simp add: body_def)

lemma segment_head:
  fixes x :: u64
  assumes "bs = segment_magic @ [v, t] @ u64_le x @ rest"
  shows "take 4 bs = segment_magic" "bs ! 4 = v" "bs ! 5 = t" "take 8 (drop 6 bs) = u64_le x"
  using assms by (simp_all add: nth_append)

text \<open>The limits on the points and the tombstones alone.\<close>

definition segment_limits :: "collection_config \<Rightarrow> stored_point list \<Rightarrow> string list \<Rightarrow> bool \<Rightarrow> bool" where
  "segment_limits cfg ps tombstones full \<longleftrightarrow> 0 < dimension cfg \<and> dimension cfg \<le> max_items \<and>
     length ps \<le> max_items \<and> list_all (point_ok (dimension cfg)) ps \<and>
     length tombstones \<le> max_items \<and> list_all string_ok tombstones \<and> distinct tombstones \<and>
     [] \<notin> set tombstones \<and> (full \<longrightarrow> tombstones = [])"

lemma segment_ok_limits: "segment_ok cfg ps ts full ix \<Longrightarrow> segment_limits cfg ps ts full"
  by (simp add: segment_ok_def segment_limits_def)

text \<open>The parts of the written file, each with the decoder that reads it.\<close>

lemma segment_bytes_layout:
  assumes "segment_bytes cfg seq ps ts full ix = Inr bs" "length bs \<le> usize_max"
    and ok: "segment_limits cfg ps ts full" and mapping: "mapping \<in> {None, Some bs}"
  obtains out xs mtb len nb graph where "bs = out @ u32_le (crc32c out)"
    "out = segment_magic @ [segment_version, metric_tag (config_metric cfg)] @ u64_le (of_nat (dimension cfg)) @ body bs"
    "body bs = u64_le seq @ [if full then 0 else 1] @ u32_le (of_nat (length ps)) @ xs @ mtb @ nb @ graph" "file_ok bs"
    "parses bs (decode_n (length ps) (decode_stored_point segment_version (dimension cfg) mapping))
      (14 + length (u64_le seq) + length [if full then 0 else 1 :: u8] + length (u32_le (of_nat (length ps)))) xs
      (\<lambda>qs. map to_owned_point qs = map to_owned_point ps)"
    "decodes (decode_tombstones segment_version) mtb ts"
    "encoded_len ix = Inr len" "put_count len = Inr nb" "encode_into ix = Inr graph"
proof -
  let ?hd = "segment_magic @ [segment_version, metric_tag (config_metric cfg)] @ u64_le (of_nat (dimension cfg))"
  let ?kind = "[if full then 0 else 1] :: bytes"
  define w0 where "w0 = segment_header cfg seq full"
  have at0: "writer_at w0" and in0: "w_inner w0 = ?hd @ u64_le seq @ ?kind"
    by (simp_all add: w0_def segment_header_write, simp add: writer_new_def)
  obtain n w1 m ts' len nb graph where n: "put_count (length ps) = Inr n"
    and w1: "try_fold write_point (writer_write w0 n) ps = Inr w1"
    and m: "put_count (length ts) = Inr m" and tomb: "try_fold (\<lambda>w i. put_string_writer i w) (writer_write w1 m) ts = Inr ts'"
    and len: "encoded_len ix = Inr len" "put_count len = Inr nb" and graph: "encode_into ix = Inr graph"
    and bs: "bs = w_inner (writer_write ts' (nb @ graph)) @ u32_le (NOT (w_crc (writer_write ts' (nb @ graph))))"
    using assms(1) by (auto simp: segment_bytes_def w0_def put_count_writer_eq rbind_eq_Inr writer_finish_def Let_def)
  have at1: "writer_at w1"
    using write_points_at [OF w1] at0 by simp
  obtain tb where tb: "put_all put_string ts = Inr tb" and ts': "ts' = writer_write (writer_write w1 m) tb"
    using tomb at1 by (auto simp: try_fold_writer [OF put_string_writer_eq] rbind_eq_Inr)
  define out where "out = w_inner w1 @ m @ tb @ nb @ graph"
  have w': "writer_write ts' (nb @ graph) = writer_write w1 (m @ tb @ nb @ graph)"
    by (simp add: ts')
  have crc: "w_crc (writer_write w1 (m @ tb @ nb @ graph)) = crc32c_update (NOT 0) out"
    using writer_at_write [OF at1, of "m @ tb @ nb @ graph"] by (simp add: writer_at_def out_def)
  have bs': "bs = out @ u32_le (crc32c out)"
    unfolding bs w' crc by (simp add: out_def crc32c_def)
  have len1: "length (w_inner w1) \<le> usize_max"
    using assms(2) unfolding bs' out_def by simp
  have dims: "length ts \<le> max_items" "list_all (point_ok (dimension cfg)) ps"
      "distinct ts" "[] \<notin> set ts" "list_all string_ok ts"
    using ok by (simp_all add: segment_limits_def)
  have "length (w_inner w0) \<le> length (w_inner w1)"
    using write_points_at [OF w1] at0 by simp
  then have whole: "file_ok bs"
    using assms(2) unfolding file_ok_def bs' out_def in0 by simp
  obtain xs where pts: "w1 = writer_write (writer_write w0 n) xs"
    "parses bs (decode_n (length ps) (decode_stored_point segment_version (dimension cfg) mapping))
      (length (w_inner (writer_write w0 n))) xs (\<lambda>qs. map to_owned_point qs = map to_owned_point ps)"
    using parses_points [OF w1 _ len1 dims(2) whole mapping] at0 by auto
  let ?body = "u64_le seq @ ?kind @ u32_le (of_nat (length ps)) @ xs @ (m @ tb) @ nb @ graph"
  have out: "out = ?hd @ ?body"
    unfolding out_def pts(1) inner_write in0 put_count_items [OF n] by simp
  have body: "body bs = ?body"
    unfolding bs' out by (rule body_framed) simp_all
  have off: "length (w_inner (writer_write w0 n)) = 14 + length (u64_le seq) + length ?kind + length n"
    by (simp add: in0)
  show thesis
    by (rule that [OF bs' _ body whole pts(2) [unfolded off, unfolded put_count_items [OF n]]
          decodes_tombstones [OF m tb dims(3,4,5,1)] len graph]) (simp add: out body)
qed

lemma segment_bytes_parts:
  assumes enc: "segment_bytes cfg seq ps ts full ix = Inr bs" "length bs \<le> usize_max"
    and ok: "segment_ok cfg ps ts full ix" and mapping: "mapping \<in> {None, Some bs}"
  obtains out where "bs = out @ u32_le (crc32c out)"
    "out = segment_magic @ [segment_version, metric_tag (config_metric cfg)] @ u64_le (of_nat (dimension cfg)) @ body bs"
    "parses bs (decode_segment_body segment_version cfg mapping) 14 (body bs) (segment_of cfg seq ps ts full ix)"
    "12 \<le> length (body bs)"
proof (rule segment_bytes_layout [OF enc segment_ok_limits [OF ok] mapping])
  let ?kind = "[if full then 0 else 1] :: bytes"
  fix out xs mtb len nb graph
  assume bs: "bs = out @ u32_le (crc32c out)"
    and out: "out = segment_magic @ [segment_version, metric_tag (config_metric cfg)] @ u64_le (of_nat (dimension cfg)) @ body bs"
    and body: "body bs = u64_le seq @ ?kind @ u32_le (of_nat (length ps)) @ xs @ mtb @ nb @ graph"
    and whole: "file_ok bs"
    and pts: "parses bs (decode_n (length ps) (decode_stored_point segment_version (dimension cfg) mapping))
      (14 + length (u64_le seq) + length ?kind + length (u32_le (of_nat (length ps)))) xs
      (\<lambda>qs. map to_owned_point qs = map to_owned_point ps)"
    and tomb: "decodes (decode_tombstones segment_version) mtb ts"
    and len: "encoded_len ix = Inr len" "put_count len = Inr nb" and graph: "encode_into ix = Inr graph"
  have dims: "length ps \<le> max_items" "storable ix" "full \<longrightarrow> ts = []"
    using ok by (simp_all add: segment_ok_def)
  have "parses bs (decode_segment_body segment_version cfg mapping) 14 (body bs) (segment_of cfg seq ps ts full ix)"
    unfolding decode_segment_body_def body
  proof (rule parses_then [OF decodes_u64], rule parses_then [OF decodes_kind], rule parses_then [OF decodes_count [OF dims(1)]],
      rule parses_dbind [OF pts])
    fix qs
    assume qs: "map to_owned_point qs = map to_owned_point ps"
    have gr: "parses bs (decode_segment_graph mapping) pos (nb @ graph) (\<lambda>ix'. same_view ix' ix)" for pos
      by (rule parses_graph [OF dims(2) len graph whole mapping])
    have "parses bs (dbind (decode_segment_graph mapping) (\<lambda>ix'. dreturn \<lparr>ds_config = cfg, ds_sequence = seq,
        ds_points = qs, ds_tombstones = ts, ds_index = ix', ds_full = full\<rparr>)) pos (nb @ graph)
        (segment_of cfg seq ps ts full ix)" for pos
      by (rule parses_map [OF gr], rule exI, rule conjI [rotated], rule refl) (simp add: segment_of_def qs)
    then show "parses bs (dbind (decode_tombstones segment_version) (\<lambda>tombstones.
        if full \<and> tombstones \<noteq> [] then dfail (CorruptStorage ''full segment contains tombstones'')
        else dbind (decode_segment_graph mapping) (\<lambda>ix. dreturn \<lparr>ds_config = cfg, ds_sequence = seq, ds_points = qs,
          ds_tombstones = tombstones, ds_index = ix, ds_full = full\<rparr>)))
        (14 + length (u64_le seq) + length ?kind + length (u32_le (of_nat (length ps) :: u32)) + length xs)
        (mtb @ nb @ graph) (segment_of cfg seq ps ts full ix)"
      using dims(3) by (intro parses_then [OF tomb]) auto
  qed
  moreover have "12 \<le> length (body bs)"
    by (simp add: body)
  ultimately show thesis
    using that [OF bs out] by simp
qed

text \<open>What a decoder that succeeds has read, when a part of its input is not known.\<close>

definition parsed :: "bytes \<Rightarrow> 'a decode \<Rightarrow> nat \<Rightarrow> bytes \<Rightarrow> ('a \<Rightarrow> bool) \<Rightarrow> bool" where
  "parsed whole p off xs Q \<longleftrightarrow> (\<forall>d v d'. d_bytes d = body whole \<longrightarrow> 14 + d_position d = off \<longrightarrow> at_bytes d xs \<longrightarrow>
     p d = Inr (v, d') \<longrightarrow> Q v)"

lemma parsed_dbind:
  assumes "parses whole p off xs Q" "\<And>x. Q x \<Longrightarrow> parsed whole (f x) (off + length xs) ys R"
  shows "parsed whole (dbind p f) off (xs @ ys) R"
  unfolding parsed_def
proof (intro allI impI)
  fix d v d'
  assume d: "d_bytes d = body whole" "14 + d_position d = off" "at_bytes d (xs @ ys)" and run: "dbind p f d = Inr (v, d')"
  let ?d = "d\<lparr>d_position := d_position d + length xs\<rparr>"
  have at: "at_bytes d xs" "at_bytes ?d ys"
    using d(3) by (simp_all add: at_bytes_append)
  obtain x where x: "Q x" "p d = Inr (x, ?d)"
    using assms(1) d(1,2) at(1) by (auto simp: parses_def)
  have "f x ?d = Inr (v, d')"
    using run x(2) by (simp add: dbind_def)
  moreover have "d_bytes ?d = body whole" "14 + d_position ?d = off + length xs"
    using d by simp_all
  ultimately show "R v"
    using assms(2) [OF x(1)] at(2) unfolding parsed_def by blast
qed

lemma parsed_then:
  assumes "decodes p xs x" "parsed whole (f x) (off + length xs) ys R"
  shows "parsed whole (dbind p f) off (xs @ ys) R"
  by (rule parsed_dbind [where Q = "\<lambda>y. y = x"]) (use assms in \<open>auto intro: parses_decodes\<close>)

lemma parsed_any: "(\<And>x. R (g x)) \<Longrightarrow> parsed whole (dbind p (\<lambda>x. dreturn (g x))) off xs R"
  by (auto simp: parsed_def dbind_def dreturn_def rbind_eq_Inr)

text \<open>
  A written segment that is read back successfully, whether its graph survived unchanged or not,
  has the points that were written.
\<close>

lemma segment_read_back:
  assumes enc: "segment_bytes cfg seq ps ts full ix = Inr bs" and len: "length bs \<le> usize_max"
    and ok: "segment_limits cfg ps ts full" and mapping: "mapping \<in> {None, Some bs}"
    and dec: "decode_segment_inner bs mapping = Inr s"
  shows "ds_config s = cfg" "ds_sequence s = seq" "map to_owned_point (ds_points s) = map to_owned_point ps"
    "ds_tombstones s = ts" "ds_full s = full" "check_graph s = Inr s"
proof -
  let ?Q = "\<lambda>s. ds_config s = cfg \<and> ds_sequence s = seq \<and> map to_owned_point (ds_points s) = map to_owned_point ps \<and>
    ds_tombstones s = ts \<and> ds_full s = full"
  have dim: "unat (of_nat (dimension cfg) :: u64) = dimension cfg" and dims: "length ps \<le> max_items" "full \<longrightarrow> ts = []"
    using ok by (simp_all add: segment_limits_def max_items_def unat_of_nat)
  have eta: "\<lparr>dimension = dimension cfg, config_metric = config_metric cfg\<rparr> = cfg" by simp
  have "?Q s \<and> check_graph s = Inr s"
  proof (rule segment_bytes_layout [OF enc len ok mapping])
    fix out xs mtb glen nb graph
    assume bs: "bs = out @ u32_le (crc32c out)"
      and out: "out = segment_magic @ [segment_version, metric_tag (config_metric cfg)] @ u64_le (of_nat (dimension cfg)) @ body bs"
      and body: "body bs = u64_le seq @ [if full then 0 else 1] @ u32_le (of_nat (length ps)) @ xs @ mtb @ nb @ graph"
      and pts: "parses bs (decode_n (length ps) (decode_stored_point segment_version (dimension cfg) mapping))
        (14 + length (u64_le seq) + length [if full then 0 else 1 :: u8] + length (u32_le (of_nat (length ps)))) xs
        (\<lambda>qs. map to_owned_point qs = map to_owned_point ps)"
      and tomb: "decodes (decode_tombstones segment_version) mtb ts"
    have prs: "parsed bs (decode_segment_body segment_version cfg mapping) 14 (body bs) ?Q"
      unfolding decode_segment_body_def body
    proof (rule parsed_then [OF decodes_u64], rule parsed_then [OF decodes_kind],
        rule parsed_then [OF decodes_count [OF dims(1)]], rule parsed_dbind [OF pts], rule parsed_then [OF tomb])
      fix qs
      assume qs: "map to_owned_point qs = map to_owned_point ps"
      show "parsed bs (if full \<and> ts \<noteq> [] then dfail (CorruptStorage ''full segment contains tombstones'')
        else dbind (decode_segment_graph mapping) (\<lambda>ix. dreturn \<lparr>ds_config = cfg, ds_sequence = seq, ds_points = qs,
          ds_tombstones = ts, ds_index = ix, ds_full = full\<rparr>)) off ys ?Q" for off ys
        using dims(2) qs by (auto simp: parsed_any)
    qed
    have "bs = segment_magic @ [segment_version, metric_tag (config_metric cfg)] @ u64_le (of_nat (dimension cfg)) @
        body bs @ u32_le (crc32c out)"
      using bs out by simp
    note head = segment_head [OF this]
    define d where "d = decoder_new (body bs)"
    obtain s' d' where run: "decode_segment_body segment_version cfg mapping d = Inr (s', d')" and chk: "check_graph s' = Inr s"
      using dec by (auto simp: decode_segment_inner_def Let_def head dim eta body_def [symmetric] d_def rbind_eq_Inr
          split: if_splits)
    have at: "at_bytes d (body bs)" "d_bytes d = body bs" "14 + d_position d = 14"
      using len by (simp_all add: at_bytes_def d_def decoder_new_def body_def)
    then have "?Q s'"
      using prs run unfolding parsed_def by blast
    moreover have "s' = s"
      using chk by (auto simp: check_graph_def Let_def split: if_splits)
    ultimately show ?thesis
      using chk by simp
  qed
  then show "ds_config s = cfg" "ds_sequence s = seq" "map to_owned_point (ds_points s) = map to_owned_point ps"
    "ds_tombstones s = ts" "ds_full s = full" "check_graph s = Inr s"
    by simp_all
qed

lemma segment_round_trip:
  assumes enc: "segment_bytes cfg seq ps ts full ix = Inr bs" and len: "length bs \<le> usize_max"
    and ok: "segment_ok cfg ps ts full ix" and mapping: "mapping \<in> {None, Some bs}"
  shows "\<exists>s. decode_segment_inner bs mapping = Inr s \<and> segment_of cfg seq ps ts full ix s"
proof -
  obtain out where bs: "bs = out @ u32_le (crc32c out)"
    and out: "out = segment_magic @ [segment_version, metric_tag (config_metric cfg)] @ u64_le (of_nat (dimension cfg)) @ body bs"
    and parse: "parses bs (decode_segment_body segment_version cfg mapping) 14 (body bs) (segment_of cfg seq ps ts full ix)"
    and long: "12 \<le> length (body bs)"
    by (rule segment_bytes_parts [OF enc len ok mapping])
  define d where "d = decoder_new (body bs)"
  have "at_bytes d (body bs)"
    using len by (simp add: at_bytes_def d_def decoder_new_def body_def)
  then obtain s where s: "segment_of cfg seq ps ts full ix s"
    and run: "decode_segment_body segment_version cfg mapping d = Inr (s, d\<lparr>d_position := d_position d + length (body bs)\<rparr>)"
    using parse [unfolded parses_def, rule_format, of d] by (auto simp: d_def decoder_new_def)
  have fin: "decoder_finish (d\<lparr>d_position := d_position d + length (body bs)\<rparr>) = Inr ()"
    by (simp add: d_def decoder_new_def decoder_finish_def)
  have graph: "check_graph s = Inr s"
    using s ok point_ids [of "ds_points s" ps] map_eq_imp_length_eq [of to_owned_point "ds_points s" to_owned_point ps]
    by (auto simp: check_graph_def segment_of_def segment_ok_def same_view_def Let_def)
  have dim: "unat (of_nat (dimension cfg) :: u64) = dimension cfg" and dims: "0 < dimension cfg" "dimension cfg \<le> max_items"
    using ok by (simp_all add: segment_ok_def max_items_def unat_of_nat)
  define pl where "pl = length bs - 4"
  have pl: "take pl bs = out" "drop pl bs = u32_le (crc32c out)"
    using arg_cong [OF bs, of length] unfolding pl_def by (subst (2) bs, simp)+
  have "bs = segment_magic @ [segment_version, metric_tag (config_metric cfg)] @ u64_le (of_nat (dimension cfg)) @
      body bs @ u32_le (crc32c out)"
    using bs out by simp
  note head = segment_head [OF this]
  have "length bs = 18 + length (body bs)"
    by (subst (1) bs, subst out) simp
  then have "\<not> length bs < 30"
    using long by simp
  moreover have "drop 14 out = body bs"
    unfolding body_def pl_def [symmetric] pl ..
  moreover have eta: "\<lparr>dimension = dimension cfg, config_metric = config_metric cfg\<rparr> = cfg" by simp
  ultimately have "decode_segment_inner bs mapping = Inr s"
    using dims run fin graph by (simp add: decode_segment_inner_def Let_def pl_def [symmetric] pl head dim d_def eta)
  then show ?thesis using s by blast
qed


lemma segment_bytes_crc:
  assumes "segment_bytes cfg seq ps ts full ix = Inr bs"
  shows "\<exists>out. bs = out @ u32_le (crc32c out)"
proof -
  have at0: "writer_at (segment_header cfg seq full)"
    by (simp add: segment_header_write)
  obtain n w1 m ts' nb graph where n: "put_count (length ps) = Inr n"
    and w1: "try_fold write_point (writer_write (segment_header cfg seq full) n) ps = Inr w1"
    and m: "put_count (length ts) = Inr m"
    and tomb: "try_fold (\<lambda>w i. put_string_writer i w) (writer_write w1 m) ts = Inr ts'"
    and bs: "bs = w_inner (writer_write ts' (nb @ graph)) @ u32_le (NOT (w_crc (writer_write ts' (nb @ graph))))"
    using assms by (auto simp: segment_bytes_def put_count_writer_eq rbind_eq_Inr writer_finish_def Let_def)
  have "writer_at w1"
    using write_points_at [OF w1] at0 by simp
  then have "writer_at ts'"
    using tomb by (auto simp: try_fold_writer [OF put_string_writer_eq] rbind_eq_Inr)
  then have "writer_at (writer_write ts' (nb @ graph))"
    by simp
  then show ?thesis
    using bs unfolding writer_at_def crc32c_def by metis
qed

lemma decode_segment_crc:
  "crc32c (take (length bs - 4) bs) \<noteq> le_u32 (drop (length bs - 4) bs) \<Longrightarrow>
     \<exists>msg. decode_segment_inner bs mapping = Inl (CorruptStorage msg)"
  by (simp add: decode_segment_inner_def Let_def)

section \<open>The manifest\<close>

definition manifest_magic :: bytes where
  "manifest_magic = as_bytes ''FVMF''"

definition manifest_list_version :: u8 where
  "manifest_list_version = 2"

definition max_index_segments :: nat where
  "max_index_segments = 8"

record manifest =
  m_sequence :: u64
  m_segments :: "string list"

text \<open>The bytes \<open>publish_manifest\<close> writes and the ones \<open>read_manifest\<close> accepts.\<close>

definition encode_manifest :: "u64 \<Rightarrow> string list \<Rightarrow> bytes result" where
  "encode_manifest seq names =
     rbind (put_count (length names)) (\<lambda>n.
     rbind (put_all put_string names) (\<lambda>ns.
     let bs = manifest_magic @ [manifest_list_version] @ u64_le seq @ n @ ns in
     Inr (bs @ u32_le (crc32c bs))))"

fun check_names :: "string list \<Rightarrow> string list \<Rightarrow> unit result" where
  "check_names unique [] = Inr ()"
| "check_names unique (name # names) =
     (if CHR ''/'' \<in> set name \<or> \<not> prefix ''segment-'' name \<or> name \<in> set unique
      then Inl (CorruptStorage ''invalid segment name in manifest'')
      else check_names (name # unique) names)"

definition decode_names :: "u8 \<Rightarrow> string list decode" where
  "decode_names version = (if version = format_version
     then dbind decoder_string (\<lambda>name. dreturn [name])
     else dbind decoder_count (\<lambda>n.
       if n = 0 \<or> n > max_index_segments + 1
       then dfail (CorruptStorage ''invalid segment count in manifest'')
       else decode_n n decoder_string))"

definition decode_manifest :: "bytes \<Rightarrow> manifest result" where
  "decode_manifest bs =
     (if length bs < 21 \<or> take 4 bs \<noteq> manifest_magic \<or>
         (bs ! 4 \<noteq> format_version \<and> bs ! 4 \<noteq> manifest_list_version)
      then Inl (CorruptStorage ''invalid manifest header'')
      else let payload_length = length bs - 4 in
      if crc32c (take payload_length bs) \<noteq> le_u32 (drop payload_length bs)
      then Inl (CorruptStorage ''manifest checksum mismatch'')
      else rbind (decoder_u64 (decoder_new (drop 5 (take payload_length bs)))) (\<lambda>(seq, d).
        rbind (decode_names (bs ! 4) d) (\<lambda>(names, d).
        rbind (decoder_finish d) (\<lambda>_.
        rbind (check_names [] names) (\<lambda>_.
        Inr \<lparr>m_sequence = seq, m_segments = names\<rparr>)))))"

text \<open>\<open>format!("segment-{sequence:020}.fvs")\<close>.\<close>

definition padded :: "nat \<Rightarrow> string" where
  "padded n = replicate (20 - length (decimal n)) (CHR ''0'') @ decimal n"

definition segment_name :: "u64 \<Rightarrow> string" where
  "segment_name seq = ''segment-'' @ padded (unat seq) @ ''.fvs''"

definition name_ok :: "string \<Rightarrow> bool" where
  "name_ok name \<longleftrightarrow> CHR ''/'' \<notin> set name \<and> prefix ''segment-'' name \<and> string_ok name"

lemma check_names_Inr:
  "check_names unique names = Inr () \<longleftrightarrow> distinct names \<and> set unique \<inter> set names = {} \<and>
     (\<forall>name \<in> set names. CHR ''/'' \<notin> set name \<and> prefix ''segment-'' name)"
  by (induction names arbitrary: unique) auto

lemma check_names_Inl:
  "check_names unique names \<noteq> Inr () \<Longrightarrow>
     check_names unique names = Inl (CorruptStorage ''invalid segment name in manifest'')"
  by (induction names arbitrary: unique) (auto split: if_splits)


lemma length_manifest_magic [simp]: "length manifest_magic = 4"
  by (simp add: manifest_magic_def)

text \<open>What is read from a published manifest, whatever names it lists.\<close>

lemma decode_encoded_manifest:
  assumes enc: "encode_manifest seq names = Inr bs" and len: "length bs \<le> usize_max"
    and ok: "length names \<le> max_items" "list_all string_ok names"
  shows "decode_manifest bs =
    (if names = [] \<or> length names > max_index_segments + 1
     then Inl (CorruptStorage ''invalid segment count in manifest'')
     else rbind (check_names [] names) (\<lambda>_. Inr \<lparr>m_sequence = seq, m_segments = names\<rparr>))"
proof -
  obtain n ns where n: "put_count (length names) = Inr n" and ns: "put_all put_string names = Inr ns"
    and bs: "bs = (manifest_magic @ [manifest_list_version] @ u64_le seq @ n @ ns) @
      u32_le (crc32c (manifest_magic @ [manifest_list_version] @ u64_le seq @ n @ ns))"
    using enc by (auto simp: encode_manifest_def rbind_eq_Inr Let_def)
  define out where "out = manifest_magic @ [manifest_list_version] @ u64_le seq @ n @ ns"
  have bs': "bs = out @ u32_le (crc32c out)"
    using bs by (simp add: out_def)
  have pl: "take (length bs - 4) bs = out" "drop (length bs - 4) bs = u32_le (crc32c out)"
    by (simp_all add: bs')
  have head: "take 4 bs = manifest_magic" "bs ! 4 = manifest_list_version" "\<not> length bs < 21"
    using put_count_items [OF n] by (simp_all add: bs' out_def nth_append)
  have body: "drop 5 out = u64_le seq @ n @ ns"
    by (simp add: out_def)
  define d where "d = decoder_new (u64_le seq @ n @ ns)"
  have small: "length (d_bytes d) \<le> usize_max"
    using len by (simp add: d_def decoder_new_def bs' out_def)
  have seq: "decoder_u64 d = Inr (seq, d\<lparr>d_position := 8\<rparr>)"
    using decodes_at [OF decodes_u64, of d "[]" seq "n @ ns"] small by (simp add: d_def decoder_new_def)
  have cnt: "decoder_count (d\<lparr>d_position := 8\<rparr>) = Inr (length names, d\<lparr>d_position := 12\<rparr>)"
    using decodes_at [OF decodes_count [OF ok(1)], of "d\<lparr>d_position := 8\<rparr>" "u64_le seq" ns] small put_count_items [OF n]
    by (simp add: d_def decoder_new_def)
  have items: "decode_n (length names) decoder_string (d\<lparr>d_position := 12\<rparr>) = Inr (names, d\<lparr>d_position := length (d_bytes d)\<rparr>)"
    using decodes_at [OF string_codec.list_round_trip [OF ns ok(2)], of "d\<lparr>d_position := 12\<rparr>" "u64_le seq @ n" "[]"] small
      put_count_items [OF n] by (simp add: d_def decoder_new_def)
  have version: "manifest_list_version \<noteq> format_version"
    by (simp add: manifest_list_version_def format_version_def)
  show ?thesis
    using version items cnt seq
    by (simp add: decode_manifest_def Let_def pl head body d_def [symmetric] decode_names_def dbind_def dfail_def finish_at_end)
qed

lemma manifest_round_trip:
  assumes "encode_manifest seq names = Inr bs" "length bs \<le> usize_max"
    and "names \<noteq> []" "length names \<le> max_index_segments + 1" "list_all name_ok names" "distinct names"
  shows "decode_manifest bs = Inr \<lparr>m_sequence = seq, m_segments = names\<rparr>"
proof -
  have "length names \<le> max_items" "list_all string_ok names"
    using assms(4,5) by (auto simp: max_index_segments_def max_items_def name_ok_def list_all_iff)
  moreover have "check_names [] names = Inr ()"
    using assms(5,6) by (auto simp: check_names_Inr name_ok_def list_all_iff)
  ultimately show ?thesis
    using assms(3,4) decode_encoded_manifest [OF assms(1,2)] by simp
qed

section \<open>Segment names\<close>

fun digits_value :: "nat \<Rightarrow> string \<Rightarrow> nat" where
  "digits_value v [] = v"
| "digits_value v (c # cs) = digits_value (v * 10 + (of_char c - 48)) cs"

lemma digits_value_append: "digits_value v (xs @ ys) = digits_value (digits_value v xs) ys"
  by (induction xs arbitrary: v) simp_all

lemma of_char_digit: "n < 10 \<Longrightarrow> of_char (char_of (48 + n) :: char) = 48 + (n :: nat)"
  by simp

lemma digits_value_decimal: "digits_value 0 (decimal n) = n"
proof (induction n rule: decimal.induct)
  case (1 n)
  show ?case
  proof (cases "n < 10")
    case True
    then show ?thesis by (subst decimal.simps) simp
  next
    case False
    have "digits_value 0 (decimal n) = digits_value 0 (decimal (n div 10)) * 10 + n mod 10"
      using False by (subst decimal.simps) (simp add: digits_value_append)
    then show ?thesis
      using 1 [OF False] by simp
  qed
qed

lemma digits_value_zeros: "digits_value 0 (replicate k (CHR ''0'') @ cs) = digits_value 0 cs"
  by (induction k) simp_all

lemma padded_inj: "padded a = padded b \<Longrightarrow> a = b"
  unfolding padded_def by (metis digits_value_decimal digits_value_zeros)

lemma segment_name_inj [simp]: "segment_name a = segment_name b \<longleftrightarrow> a = b"
  by (auto simp: segment_name_def word_unat_eq_iff dest: padded_inj)

lemma decimal_digits: "c \<in> set (decimal n) \<Longrightarrow> of_char c \<in> {48..57 :: nat}"
proof (induction n rule: decimal.induct)
  case (1 n)
  have "of_char (char_of (48 + n) :: char) \<in> {48..57 :: nat}" if "n < 10"
    using that by simp
  moreover have "of_char (char_of (48 + n mod 10) :: char) \<in> {48..57 :: nat}"
    using mod_less_divisor [of 10 n] by simp
  ultimately show ?case
    using 1 by (subst (asm) (2) decimal.simps) (auto split: if_splits)
qed

lemma length_decimal: "n < 10 ^ k \<Longrightarrow> 0 < k \<Longrightarrow> length (decimal n) \<le> k"
proof (induction k arbitrary: n)
  case 0
  then show ?case by simp
next
  case (Suc k)
  show ?case
  proof (cases "n < 10")
    case True
    then show ?thesis by (subst decimal.simps) simp
  next
    case False
    then have "0 < k" using Suc.prems(1) by (cases k) auto
    moreover have "n div 10 < 10 ^ k"
      using Suc.prems(1) by (simp add: less_mult_imp_div_less mult.commute)
    ultimately show ?thesis
      using False Suc.IH [of "n div 10"] by (subst decimal.simps) simp
  qed
qed

lemma padded_chars: "c \<in> set (padded n) \<Longrightarrow> of_char c \<in> {48..57 :: nat}"
  by (auto simp: padded_def dest: decimal_digits)

lemma segment_name_ok: "name_ok (segment_name seq)"
proof -
  have chars: "of_char c < (128 :: nat) \<and> c \<noteq> CHR ''/''" if "c \<in> set (segment_name seq)" for c
    using that padded_chars [of c "unat seq"] unfolding segment_name_def by auto
  have "length (padded (unat seq)) \<le> 20"
    using length_decimal [of "unat seq" 20] unat_u64_less [of seq] by (simp add: padded_def)
  then have "length (segment_name seq) \<le> max_items"
    by (simp add: segment_name_def max_items_def)
  moreover have "is_string (segment_name seq)"
    using chars by (intro is_string_ascii) blast
  moreover have "CHR ''/'' \<notin> set (segment_name seq)"
    using chars by blast
  moreover have "prefix ''segment-'' (segment_name seq)"
    by (simp add: segment_name_def)
  ultimately show ?thesis
    by (simp add: name_ok_def string_ok_def)
qed


section \<open>Correctness\<close>

text \<open>
  C24: a segment within the limits of the format is read back, both from memory and from a
  mapped file: the same configuration, sequence number, points in order, tombstones and kind,
  and a graph with the same nodes, links and vectors.
\<close>

theorem segment_codec_round_trip:
  assumes "segment_ok cfg ps tombstones full ix" "segment_bytes cfg seq ps tombstones full ix = Inr bs"
    and "length bs \<le> usize_max"
  shows "\<exists>s t. decode_segment bs = Inr s \<and> segment_of cfg seq ps tombstones full ix s \<and>
    decode_segment_mapped bs = Inr t \<and> segment_of cfg seq ps tombstones full ix t"
  using segment_round_trip [OF assms(2,3,1)] unfolding decode_segment_def decode_segment_mapped_def by blast

text \<open>
  C25: damage to one byte of a segment file, wherever it is, is detected: the segment is
  refused, from memory and from a mapped file.
\<close>

theorem segment_damage_detected:
  assumes "segment_bytes cfg seq ps tombstones full ix = Inr bs" "i < length bs" "b \<noteq> bs ! i"
  shows "\<exists>msg. decode_segment_inner (bs[i := b]) mapping = Inl (CorruptStorage msg)"
proof -
  obtain out where bs: "bs = out @ u32_le (crc32c out)"
    using segment_bytes_crc [OF assms(1)] by blast
  have "crc32c (take (length out) bs) = le_u32 (drop (length out) bs)"
    by (simp add: bs)
  from crc_trailer_damage [OF this _ assms(2,3)]
  have "crc32c (take (length out) (bs[i := b])) \<noteq> le_u32 (drop (length out) (bs[i := b]))"
    by (simp add: bs)
  then show ?thesis
    by (intro decode_segment_crc) (simp add: bs)
qed

definition demo_segment_points :: "stored_point list" where
  "demo_segment_points = [\<lparr>sp_id = ''a'', sp_vector = Owned [0x3f800000], sp_metadata = [], sp_sequence = 1\<rparr>,
     \<lparr>sp_id = ''b'', sp_vector = Owned [0x40000000], sp_metadata = [], sp_sequence = 2\<rparr>]"

lemma length_padding: "length (padding_at pos) \<le> 4"
  using padding_aligns(1) [of pos] mod_less_divisor [of 4 "4 - (pos + 1) mod 4"] by linarith

lemma demo_segment_bytes:
  "\<exists>bs. segment_bytes \<lparr>dimension = 1, config_metric = DotProduct\<rparr> 2 demo_segment_points [] True demo_index = Inr bs \<and>
     length bs \<le> 200 \<and> 0 < length bs"
proof -
  have len: "encoded_len demo_index = Inr 81"
    by code_simp
  have "is_ok (encode_into demo_index)"
    by code_simp
  then obtain g where g: "encode_into demo_index = Inr g"
    by (auto simp: is_ok_def split: sum.splits)
  have "length g = 81"
    using encoded_len_ok [OF len g] by (simp add: demo_index_def)
  moreover have "length (w_inner (writer_new [])) + (length (padding_at a) + length (padding_at b)) \<le> 38" for a b
    using length_padding [of a] length_padding [of b] by (simp add: writer_new_def)
  ultimately show ?thesis
    by (simp add: segment_bytes_def len g demo_segment_points_def write_point_def put_string_writer_def
        put_count_writer_def segment_header_write write_padding_eq writer_finish_def Let_def del: length_0_conv)
qed

lemma demo_segment_ok:
  "segment_ok \<lparr>dimension = 1, config_metric = DotProduct\<rparr> demo_segment_points [] True demo_index"
proof -
  have "list_all (point_ok 1) demo_segment_points"
    by code_simp
  moreover have "ix_dimension demo_index = 1" "ix_metric demo_index = DotProduct" "ix_ids demo_index = [''a'', ''b'']"
    "length demo_segment_points = 2" "map sp_id demo_segment_points = [''a'', ''b'']"
    by (simp_all add: demo_index_def demo_segment_points_def)
  ultimately show ?thesis
    using demo_index_storable demo_index_nodes by (simp add: segment_ok_def max_items_def)
qed

theorem segment_codec_round_trip_witness:
  "\<exists>bs s. segment_bytes \<lparr>dimension = 1, config_metric = DotProduct\<rparr> 2 demo_segment_points [] True demo_index = Inr bs \<and>
     decode_segment_mapped bs = Inr s \<and> map to_owned_point (ds_points s) = map to_owned_point demo_segment_points"
proof -
  obtain bs where bs: "segment_bytes \<lparr>dimension = 1, config_metric = DotProduct\<rparr> 2 demo_segment_points [] True demo_index = Inr bs"
    "length bs \<le> 200"
    using demo_segment_bytes by blast
  have "length bs \<le> usize_max"
    using bs(2) by (simp add: usize_max_def)
  from segment_codec_round_trip [OF demo_segment_ok bs(1) this] bs(1) show ?thesis
    by (auto simp: segment_of_def)
qed

theorem segment_damage_detected_witness:
  "\<exists>bs msg. segment_bytes \<lparr>dimension = 1, config_metric = DotProduct\<rparr> 2 demo_segment_points [] True demo_index = Inr bs \<and>
     decode_segment_inner (bs[0 := bs ! 0 + 1]) None = Inl (CorruptStorage msg)"
proof -
  obtain bs where bs: "segment_bytes \<lparr>dimension = 1, config_metric = DotProduct\<rparr> 2 demo_segment_points [] True demo_index = Inr bs"
    "0 < length bs"
    using demo_segment_bytes by blast
  have "bs ! 0 + 1 \<noteq> bs ! 0" by simp
  from segment_damage_detected [OF bs this, of None] bs(1) show ?thesis
    by blast
qed

end
