(* ===== verification/Disk.thy ===== *)
theory Disk
  imports Segment
begin

text \<open>
  The directory of a collection and the file operations \<open>src/persistence.rs\<close> performs on it. A
  directory maps file names to contents. Every operation that changes it asks a schedule of faults
  whether it succeeds: the schedules describe a crash (from some moment on nothing succeeds), a full
  or failing disk, and errors that go away again. An operation that fails may leave a part of its
  bytes behind.

  Every change of the source is synced before the next one starts (\<open>sync_all\<close>, \<open>sync_data\<close>,
  \<open>sync_directory\<close>), which is why a crash leaves the effects of a prefix of the operations.
\<close>

section \<open>Computations with a state\<close>

type_synonym ('s, 'a) action = "'s \<Rightarrow> 's \<times> 'a result"

definition abind :: "('s, 'a) action \<Rightarrow> ('a \<Rightarrow> ('s, 'b) action) \<Rightarrow> ('s, 'b) action" where
  "abind m f s = (case m s of (s', Inl e) \<Rightarrow> (s', Inl e) | (s', Inr x) \<Rightarrow> f x s')"

definition areturn :: "'a \<Rightarrow> ('s, 'a) action" where
  "areturn x s = (s, Inr x)"

definition alift :: "'a result \<Rightarrow> ('s, 'a) action" where
  "alift r s = (s, r)"

definition aget :: "('s, 's) action" where
  "aget s = (s, Inr s)"

definition aput :: "('s \<Rightarrow> 's) \<Rightarrow> ('s, unit) action" where
  "aput f s = (f s, Inr ())"

text \<open>\<open>let _ = m;\<close>\<close>

definition aignore :: "('s, 'a) action \<Rightarrow> ('s, unit) action" where
  "aignore m s = (fst (m s), Inr ())"

text \<open>Run the clean-up when the action failed, or in any case, and keep its outcome.\<close>

definition on_error :: "('s, 'a) action \<Rightarrow> ('s, unit) action \<Rightarrow> ('s, 'a) action" where
  "on_error m cleanup s = (case m s of (s', Inl e) \<Rightarrow> (fst (cleanup s'), Inl e) | (s', Inr x) \<Rightarrow> (s', Inr x))"

definition afinally :: "('s, 'a) action \<Rightarrow> ('s, unit) action \<Rightarrow> ('s, 'a) action" where
  "afinally m cleanup s = (case m s of (s', r) \<Rightarrow> (fst (cleanup s'), r))"

primrec amap :: "('a \<Rightarrow> ('s, 'b) action) \<Rightarrow> 'a list \<Rightarrow> ('s, 'b list) action" where
  "amap f [] = areturn []"
| "amap f (x # xs) = abind (f x) (\<lambda>y. abind (amap f xs) (\<lambda>ys. areturn (y # ys)))"

section \<open>Directories\<close>

type_synonym directory = "(string \<times> bytes) list"

datatype fault = Fault nat string

record disk =
  dk_files :: directory
  dk_locked :: bool
  dk_clock :: nat
  dk_faults :: "nat \<Rightarrow> fault option"

type_synonym 'a io = "(disk, 'a) action"

abbreviation file_of :: "disk \<Rightarrow> string \<Rightarrow> bytes option" where
  "file_of d name \<equiv> map_of (dk_files d) name"

definition fs_op :: "(directory \<Rightarrow> directory) \<Rightarrow> (nat \<Rightarrow> directory \<Rightarrow> directory) \<Rightarrow> unit io" where
  "fs_op effect torn d =
     (let t = dk_clock d; d' = d\<lparr>dk_clock := Suc t\<rparr> in
      case dk_faults d t of
        None \<Rightarrow> (d'\<lparr>dk_files := effect (dk_files d)\<rparr>, Inr ())
      | Some (Fault n msg) \<Rightarrow> (d'\<lparr>dk_files := torn n (dk_files d)\<rparr>, Inl (Io msg)))"

text \<open>Messages of the operating system.\<close>

definition file_exists :: error where
  "file_exists = Io ''File exists (os error 17)''"

definition no_such_file :: error where
  "no_such_file = Io ''No such file or directory (os error 2)''"

definition file_too_large :: error where
  "file_too_large = Io ''File too large (os error 27)''"

definition fs_sync :: "unit io" where
  "fs_sync = fs_op (\<lambda>fs. fs) (\<lambda>_ fs. fs)"

definition fs_read :: "string \<Rightarrow> bytes io" where
  "fs_read name d = (d, ok_or (file_of d name) no_such_file)"

definition fs_rename :: "string \<Rightarrow> string \<Rightarrow> unit io" where
  "fs_rename a b d = (case file_of d a of
     None \<Rightarrow> (d, Inl no_such_file)
   | Some bs \<Rightarrow> fs_op (\<lambda>fs. hm_insert b bs (hm_remove a fs)) (\<lambda>_ fs. fs) d)"

definition fs_remove :: "string \<Rightarrow> unit io" where
  "fs_remove name d = (case file_of d name of
     None \<Rightarrow> (d, Inl no_such_file)
   | Some _ \<Rightarrow> fs_op (hm_remove name) (\<lambda>_ fs. fs) d)"

text \<open>
  A file that must not exist, written and synced. A fault leaves no file, or one with the first
  bytes; after the last one it is the sync that failed. No file is longer than an address can say.
\<close>

definition write_new_file :: "string \<Rightarrow> bytes \<Rightarrow> unit io" where
  "write_new_file name bs d = (case file_of d name of
     Some _ \<Rightarrow> (d, Inl file_exists)
   | None \<Rightarrow> if length bs > usize_max then (d, Inl file_too_large)
       else fs_op (hm_insert name bs)
         (\<lambda>n fs. case n of 0 \<Rightarrow> fs | Suc m \<Rightarrow> hm_insert name (take m bs) fs) d)"

text \<open>\<open>OpenOptions::new().create(true)\<close>: an empty file when there is none.\<close>

definition fs_create :: "string \<Rightarrow> unit io" where
  "fs_create name d = (case file_of d name of
     Some _ \<Rightarrow> (d, Inr ())
   | None \<Rightarrow> fs_op (hm_insert name []) (\<lambda>_ fs. fs) d)"

definition fs_set_len :: "string \<Rightarrow> nat \<Rightarrow> unit io" where
  "fs_set_len name n d = (case file_of d name of
     None \<Rightarrow> (d, Inl no_such_file)
   | Some bs \<Rightarrow> fs_op (hm_insert name (take n bs)) (\<lambda>_ fs. fs) d)"

section \<open>What an operation leaves of the other files\<close>

text \<open>
  An action keeps a property of the directory if it holds afterwards whatever the faults were, and
  whether the action succeeded or not.
\<close>

definition keeps :: "(directory \<Rightarrow> bool) \<Rightarrow> 'a io \<Rightarrow> bool" where
  "keeps P m \<longleftrightarrow> (\<forall>d. P (dk_files d) \<longrightarrow> P (dk_files (fst (m d))))"

lemma keeps_abind: "keeps P m \<Longrightarrow> (\<And>x. keeps P (f x)) \<Longrightarrow> keeps P (abind m f)"
  by (auto simp: keeps_def abind_def split: prod.splits sum.splits)

lemma keeps_areturn [intro!]: "keeps P (areturn x)"
  by (simp add: keeps_def areturn_def)

lemma keeps_alift [intro!]: "keeps P (alift r)"
  by (simp add: keeps_def alift_def)

lemma keeps_read [intro!]: "keeps P (fs_read name)"
  by (simp add: keeps_def fs_read_def)

lemma keeps_ignore [intro!]: "keeps P m \<Longrightarrow> keeps P (aignore m)"
  by (simp add: keeps_def aignore_def)

lemma keeps_on_error: "keeps P m \<Longrightarrow> keeps P c \<Longrightarrow> keeps P (on_error m c)"
  unfolding keeps_def on_error_def by (auto split: prod.splits sum.splits)

lemma keeps_afinally: "keeps P m \<Longrightarrow> keeps P c \<Longrightarrow> keeps P (afinally m c)"
  unfolding keeps_def afinally_def by (auto split: prod.splits)

lemma keeps_fs_op:
  assumes "\<And>fs. P fs \<Longrightarrow> P (effect fs)" "\<And>n fs. P fs \<Longrightarrow> P (torn n fs)"
  shows "keeps P (fs_op effect torn)"
  using assms by (auto simp: keeps_def fs_op_def Let_def split: option.splits fault.splits)

lemma keeps_sync [intro!]: "keeps P fs_sync"
  unfolding fs_sync_def by (rule keeps_fs_op) auto


text \<open>The files outside \<open>N\<close> do not change.\<close>

definition same_on :: "(string \<Rightarrow> bool) \<Rightarrow> directory \<Rightarrow> directory \<Rightarrow> bool" where
  "same_on N fs fs' \<longleftrightarrow> (\<forall>name. N name \<longrightarrow> map_of fs' name = map_of fs name)"

lemma same_on_refl [simp]: "same_on N fs fs"
  by (simp add: same_on_def)

lemma same_on_insert [simp]: "\<not> N name \<Longrightarrow> same_on N fs (hm_insert name bs fs') = same_on N fs fs'"
  by (auto simp: same_on_def update_conv')

lemma same_on_remove [simp]: "\<not> N name \<Longrightarrow> same_on N fs (hm_remove name fs') = same_on N fs fs'"
  by (auto simp: same_on_def delete_conv')

lemma keeps_fs_case:
  assumes "\<And>x. keeps P (m x)" "keeps P n"
  shows "keeps P (\<lambda>d. case file_of d name of None \<Rightarrow> n d | Some x \<Rightarrow> m x d)"
  using assms by (auto simp: keeps_def split: option.splits)

lemma keeps_rename: "\<not> N a \<Longrightarrow> \<not> N b \<Longrightarrow> keeps (same_on N fs0) (fs_rename a b)"
  unfolding fs_rename_def [abs_def] by (intro keeps_fs_case keeps_fs_op) (auto simp: keeps_def)

lemma keeps_remove: "\<not> N name \<Longrightarrow> keeps (same_on N fs0) (fs_remove name)"
  unfolding fs_remove_def [abs_def] by (intro keeps_fs_case keeps_fs_op) (auto simp: keeps_def)

lemma keeps_write_new_file: "\<not> N name \<Longrightarrow> keeps (same_on N fs0) (write_new_file name bs)"
proof -
  have "keeps (same_on N fs0) (\<lambda>d. if length bs > usize_max then (d, Inl file_too_large) else
      fs_op (hm_insert name bs) (\<lambda>n fs. case n of 0 \<Rightarrow> fs | Suc m \<Rightarrow> hm_insert name (take m bs) fs) d)" if "\<not> N name"
    using keeps_fs_op [of "same_on N fs0" "hm_insert name bs" "\<lambda>n fs. case n of 0 \<Rightarrow> fs | Suc m \<Rightarrow> hm_insert name (take m bs) fs"] that
    by (auto simp: keeps_def split: nat.splits)
  then show "\<not> N name \<Longrightarrow> keeps (same_on N fs0) (write_new_file name bs)"
    unfolding write_new_file_def [abs_def] by (intro keeps_fs_case) (auto simp: keeps_def)
qed

end
