(* ===== verification/Persistent.thy ===== *)
theory Persistent
  imports Disk
begin

text \<open>
  \<open>PersistentCollection\<close> of \<open>src/persistence.rs\<close>: a collection in memory, the directory with its
  log, segments and manifest, and the indexes over the published segments.
\<close>

section \<open>State\<close>

datatype durability = Sync | Flush

datatype cuda_search_mode = CudaDisabled | CudaPreferred | CudaRequired

record cuda_search_config =
  cuda_mode :: cuda_search_mode
  cuda_device :: nat
  cuda_min_vectors :: nat

record index_segment =
  is_sequence :: u64
  is_index :: hnsw_index
  is_pool :: "build_workspace list"

text \<open>
  The fields \<open>_lock\<close>, \<open>wal\<close> and \<open>directory\<close> are handles into the directory, \<open>pc_disk\<close>. The model is
  of a build without the \<open>cuda\<close> feature.
\<close>

record persistent =
  pc_inner :: collection
  pc_disk :: disk
  pc_durability :: durability
  pc_indexes :: "index_segment list"
  pc_metadata :: "metadata_index option"
  pc_dirty :: "string list"
  pc_cuda :: cuda_search_config

record flush_snapshot =
  fs_config :: collection_config
  fs_sequence :: u64
  fs_points :: "stored_point list"
  fs_graph_points :: "stored_point list"
  fs_tombstones :: "string list"
  fs_compact :: bool

record prepared_flush =
  pf_sequence :: u64
  pf_temporary :: string
  pf_metadata :: metadata_index
  pf_compact :: bool

text \<open>What the names of temporary files are made of: the process, the time, and a counter.\<close>

record flush_env =
  fe_pid :: nat
  fe_timestamp :: nat
  fe_nonce :: nat

definition on_disk :: "'a io \<Rightarrow> (persistent, 'a) action" where
  "on_disk m pc = (case m (pc_disk pc) of (d, r) \<Rightarrow> (pc\<lparr>pc_disk := d\<rparr>, r))"

abbreviation meta_file :: string where "meta_file \<equiv> ''collection.meta''"
abbreviation meta_temporary :: string where "meta_temporary \<equiv> ''collection.meta.tmp''"
abbreviation wal_file :: string where "wal_file \<equiv> ''write.wal''"
abbreviation lock_file :: string where "lock_file \<equiv> ''collection.lock''"
abbreviation manifest_file :: string where "manifest_file \<equiv> ''MANIFEST''"

section \<open>Opening\<close>

definition persisted_config :: "collection_config io" where
  "persisted_config = abind (fs_read meta_file) (\<lambda>bs. alift (decode_metadata bs))"

definition ensure_metadata :: "collection_config \<Rightarrow> unit io" where
  "ensure_metadata cfg d = (case file_of d meta_file of
     Some bs \<Rightarrow> alift (rbind (decode_metadata bs) (\<lambda>actual.
       if actual \<noteq> cfg then Inl (InvalidConfig ''requested configuration differs from persisted collection'')
       else Inr ())) d
   | None \<Rightarrow> abind (write_new_file meta_temporary (encode_metadata cfg)) (\<lambda>_.
       abind (fs_rename meta_temporary meta_file) (\<lambda>_. fs_sync)) d)"

definition manifest_of :: "directory \<Rightarrow> manifest option result" where
  "manifest_of fs = (case map_of fs manifest_file of None \<Rightarrow> Inr None
     | Some bs \<Rightarrow> rbind (decode_manifest bs) (\<lambda>m. Inr (Some m)))"

definition read_manifest :: "manifest option io" where
  "read_manifest d = (d, manifest_of (dk_files d))"

definition apply_segment :: "collection \<Rightarrow> decoded_segment \<Rightarrow> collection result" where
  "apply_segment c s =
     (if ds_full s
      then (case restore_stored_snapshot c (ds_points s) (ds_sequence s) of (c', r) \<Rightarrow> rbind r (\<lambda>_. Inr c'))
      else Inr (apply_delete_at
        (if ds_points s \<noteq> [] then apply_prepared_upsert c (ds_points s) (ds_sequence s) else c)
        (ds_tombstones s) (ds_sequence s)))"

definition push_index :: "u64 \<Rightarrow> hnsw_index \<Rightarrow> index_segment list \<Rightarrow> index_segment list" where
  "push_index seq ix ixs =
     (if ix_nodes ix \<noteq> [] then ixs @ [\<lparr>is_sequence = seq, is_index = ix, is_pool = []\<rparr>] else ixs)"

definition check_segment :: "collection_config \<Rightarrow> manifest \<Rightarrow> nat \<Rightarrow> u64 \<Rightarrow> decoded_segment \<Rightarrow> unit result" where
  "check_segment cfg m position previous s =
     (if ds_config s \<noteq> cfg
      then Inl (CorruptStorage ''segment configuration differs from collection metadata'')
      else if position = 0 \<and> \<not> ds_full s
      then Inl (CorruptStorage ''manifest does not begin with a full segment'')
      else if position > 0 \<and> (ds_full s \<or> ds_sequence s \<le> previous)
      then Inl (CorruptStorage ''manifest segments are not ordered deltas'')
      else if position + 1 = length (m_segments m) \<and> ds_sequence s \<noteq> m_sequence m
      then Inl (CorruptStorage ''manifest and latest segment sequences differ'')
      else Inr ())"

fun load_segments ::
    "directory \<Rightarrow> manifest \<Rightarrow> nat \<Rightarrow> u64 \<Rightarrow> collection \<Rightarrow> index_segment list \<Rightarrow> string list \<Rightarrow>
     (collection \<times> index_segment list) result" where
  "load_segments fs m position previous c ixs [] = Inr (c, ixs)"
| "load_segments fs m position previous c ixs (name # names) =
     rbind (ok_or (map_of fs name) no_such_file) (\<lambda>bs.
     if bs = [] then Inl (CorruptStorage ''segment file is empty'')
     else rbind (decode_segment_mapped bs) (\<lambda>s.
     rbind (check_segment (config c) m position previous s) (\<lambda>_.
     rbind (apply_segment c s) (\<lambda>c'.
     load_segments fs m (position + 1) (ds_sequence s) c' (push_index (ds_sequence s) (ds_index s) ixs) names))))"

definition index_points :: "stored_point list \<Rightarrow> metadata_index" where
  "index_points ps = index_build (map (\<lambda>p. (sp_id p, sp_metadata p)) ps)"

definition load_current_segments ::
    "directory \<Rightarrow> collection \<Rightarrow> (collection \<times> (index_segment list \<times> metadata_index) option) result" where
  "load_current_segments fs c =
     rbind (manifest_of fs) (\<lambda>found.
     case found of None \<Rightarrow> Inr (c, None)
     | Some m \<Rightarrow> rbind (load_segments fs m 0 0 c [] (m_segments m)) (\<lambda>(c', ixs).
         Inr (c', Some (ixs, index_points (snapshot_stored_points c')))))"

text \<open>\<open>recover\<close> on the log file: the torn suffix is cut from the file.\<close>

definition recover_wal :: "collection \<Rightarrow> (collection \<times> string list) io" where
  "recover_wal c =
     abind (fs_read wal_file) (\<lambda>wal.
     abind (alift (recover wal c)) (\<lambda>(wal', c', dirty).
     if length wal' < length wal
     then abind (fs_set_len wal_file (length wal')) (\<lambda>_. areturn (c', dirty))
     else areturn (c', dirty)))"

definition try_lock :: "unit io" where
  "try_lock d = (if dk_locked d
     then (d, Inl (Concurrency ''collection directory is already open by another process or handle''))
     else (d\<lparr>dk_locked := True\<rparr>, Inr ()))"

definition unlock :: "unit io" where
  "unlock = aput (\<lambda>d. d\<lparr>dk_locked := False\<rparr>)"

definition open_locked :: "collection_config \<Rightarrow> durability \<Rightarrow> cuda_search_config \<Rightarrow> persistent io" where
  "open_locked cfg dur cuda =
     abind (ensure_metadata cfg) (\<lambda>_.
     abind (fs_create wal_file) (\<lambda>_.
     abind (alift (collection_new cfg)) (\<lambda>c.
     abind aget (\<lambda>d.
     abind (alift (load_current_segments (dk_files d) c)) (\<lambda>(c, loaded).
     abind (recover_wal c) (\<lambda>(c, dirty).
     if cuda_mode cuda = CudaRequired
     then alift (Inl (InvalidConfiguration
       ''CUDA search was requested, but focal-vector was built without --features cuda''))
     else abind aget (\<lambda>d.
     areturn \<lparr>pc_inner = c, pc_disk = d, pc_durability = dur,
       pc_indexes = (case loaded of None \<Rightarrow> [] | Some (ixs, _) \<Rightarrow> ixs),
       pc_metadata = map_option snd loaded, pc_dirty = dirty, pc_cuda = cuda\<rparr>)))))))"

definition open_with_cuda :: "collection_config \<Rightarrow> durability \<Rightarrow> cuda_search_config \<Rightarrow> persistent io" where
  "open_with_cuda cfg dur cuda =
     abind fs_sync (\<lambda>_.
     abind (fs_create lock_file) (\<lambda>_.
     abind try_lock (\<lambda>_. on_error (open_locked cfg dur cuda) unlock)))"

section \<open>Writing\<close>

definition wal_append :: "bytes \<Rightarrow> unit io" where
  "wal_append payload d =
     (let t = dk_clock d; wal = (case file_of d wal_file of None \<Rightarrow> [] | Some w \<Rightarrow> w) in
      case dk_faults d t of
        None \<Rightarrow> (case append_frame wal payload Appended of (wal', r) \<Rightarrow>
          (d\<lparr>dk_files := hm_insert wal_file wal' (dk_files d), dk_clock := t + 1\<rparr>, r))
      | Some (Fault n msg) \<Rightarrow> (case append_frame wal payload (AppendFailed n (dk_faults d (t + 1) = None) msg) of (wal', r) \<Rightarrow>
          (d\<lparr>dk_files := hm_insert wal_file wal' (dk_files d), dk_clock := t + 2\<rparr>, r)))"

definition persistent_upsert :: "upsert_point list \<Rightarrow> (persistent, u64) action" where
  "persistent_upsert ps =
     abind aget (\<lambda>pc.
     abind (alift (next_sequence (pc_inner pc))) (\<lambda>seq.
     abind (alift (prepare_upsert (pc_inner pc) ps seq)) (\<lambda>prepared.
     abind (alift (encode_upsert seq prepared)) (\<lambda>payload.
     abind (on_disk (wal_append payload)) (\<lambda>_.
     abind (aput (\<lambda>pc. pc\<lparr>pc_inner := apply_prepared_upsert (pc_inner pc) prepared seq,
       pc_dirty := hs_extend (pc_dirty pc) (map sp_id prepared)\<rparr>)) (\<lambda>_.
     areturn seq))))))"

definition persistent_delete :: "string list \<Rightarrow> (persistent, u64) action" where
  "persistent_delete ids =
     (if ids = [] then alift (Inl (InvalidQuery ''delete batch must not be empty''))
      else if [] \<in> set ids then alift (Inl (InvalidQuery ''point ID must not be empty''))
      else abind aget (\<lambda>pc.
     abind (alift (next_sequence (pc_inner pc))) (\<lambda>seq.
     abind (alift (encode_delete seq ids)) (\<lambda>payload.
     abind (on_disk (wal_append payload)) (\<lambda>_.
     abind (aput (\<lambda>pc. pc\<lparr>pc_inner := apply_delete_at (pc_inner pc) ids seq,
       pc_dirty := hs_extend (pc_dirty pc) ids\<rparr>)) (\<lambda>_.
     areturn seq))))))"


section \<open>Searching\<close>

fun dedup_ids :: "search_hit list \<Rightarrow> search_hit list" where
  "dedup_ids [] = []"
| "dedup_ids [h] = [h]"
| "dedup_ids (h # h' # hs) = (if hit_id h' = hit_id h then dedup_ids (h # hs) else h # dedup_ids (h' # hs))"

definition compare_hits :: "search_hit \<Rightarrow> search_hit \<Rightarrow> ordering" where
  "compare_hits a b = then_with (f32_total_cmp (hit_score b) (hit_score a)) (cmp_of (hit_id a) (hit_id b))"

definition merge_hits :: "search_hit list \<Rightarrow> nat \<Rightarrow> search_hit list" where
  "merge_hits hits k = take k (dedup_ids (sort_by compare_hits hits))"

definition filtered_search ::
    "persistent \<Rightarrow> metadata_index \<Rightarrow> f32 list \<Rightarrow> nat \<Rightarrow> filter_expr \<Rightarrow> search_hit list result" where
  "filtered_search pc mi query k f =
     (let ids = List.filter (\<lambda>i. i \<notin> set (pc_dirty pc)) (candidates mi f) in
      rbind (search_ids (pc_inner pc) query k ids (Some f)) (\<lambda>hits.
      rbind (search_ids (pc_inner pc) query k (pc_dirty pc) (Some f)) (\<lambda>dirty_hits.
      Inr (merge_hits (hits @ dirty_hits) k))))"

text \<open>A hit of a segment's graph counts when the segment still holds the newest version of the point.\<close>

definition rescore :: "persistent \<Rightarrow> f32 list \<Rightarrow> u64 \<Rightarrow> hnsw_hit \<Rightarrow> search_hit option" where
  "rescore pc q seq h = (case get_stored (pc_inner pc) (hh_id h) of None \<Rightarrow> None
     | Some p \<Rightarrow>
         if hh_id h \<in> set (pc_dirty pc) \<or> sp_sequence p > seq then None
         else Some \<lparr>hit_id = hh_id h, hit_score = score (config_metric (config (pc_inner pc))) q (as_slice (sp_vector p)),
           hit_metadata = sp_metadata p, hit_sequence = sp_sequence p\<rparr>)"

definition segment_k :: "hnsw_index \<Rightarrow> nat \<Rightarrow> nat" where
  "segment_k ix k =
     min (if arena_storage (ix_vectors ix) = ScalarInt8Storage then saturating_mul k 4 else k) (length (ix_nodes ix))"

definition search_segment ::
    "persistent \<Rightarrow> f32 list \<Rightarrow> f32 list \<Rightarrow> nat \<Rightarrow> nat \<Rightarrow> index_segment \<Rightarrow> index_segment \<times> search_hit list result" where
  "search_segment pc q query k ef seg =
     (let graph_k = segment_k (is_index seg) k in
      if graph_k = 0 then (seg, Inr [])
      else (case hnsw_search (is_pool seg) (is_index seg) query graph_k (max ef graph_k) of
          Inl e \<Rightarrow> (seg, Inl e)
        | Inr (hits, pool) \<Rightarrow> (seg\<lparr>is_pool := pool\<rparr>, Inr (List.map_filter (rescore pc q (is_sequence seg)) hits))))"

fun search_segments ::
    "persistent \<Rightarrow> f32 list \<Rightarrow> f32 list \<Rightarrow> nat \<Rightarrow> nat \<Rightarrow> index_segment list \<Rightarrow>
     index_segment list \<times> search_hit list result" where
  "search_segments pc q query k ef [] = ([], Inr [])"
| "search_segments pc q query k ef (seg # segs) =
     (case search_segment pc q query k ef seg of
        (seg', Inl e) \<Rightarrow> (seg' # segs, Inl e)
      | (seg', Inr hits) \<Rightarrow> (case search_segments pc q query k ef segs of (segs', r) \<Rightarrow>
          (seg' # segs', rbind r (\<lambda>more. Inr (hits @ more)))))"

text \<open>The search pools of the graphs are the only state a search changes.\<close>

definition graph_search :: "f32 list \<Rightarrow> nat \<Rightarrow> nat \<Rightarrow> (persistent, search_hit list) action" where
  "graph_search query k ef pc =
     (case prepare (config_metric (config (pc_inner pc))) query of Inl e \<Rightarrow> (pc, Inl e)
      | Inr q \<Rightarrow> (case search_segments pc q query k ef (pc_indexes pc) of (segs, r) \<Rightarrow>
          (pc\<lparr>pc_indexes := segs\<rparr>, rbind r (\<lambda>hits.
            rbind (search_ids (pc_inner pc) query k (pc_dirty pc) None) (\<lambda>dirty_hits.
            Inr (merge_hits (hits @ dirty_hits) k))))))"

definition search_with_ef ::
    "f32 list \<Rightarrow> nat \<Rightarrow> filter_expr option \<Rightarrow> nat \<Rightarrow> (persistent, search_hit list) action" where
  "search_with_ef query k f ef pc =
     (if ef < k then (pc, Inl (InvalidQuery ''ef_search must be at least k''))
      else if k = 0 then (pc, Inl (InvalidQuery ''k must be greater than zero''))
      else if length query \<noteq> dimension (config (pc_inner pc))
      then (pc, Inl (InvalidDimension (dimension (config (pc_inner pc))) (length query)))
      else (case f of
          Some g \<Rightarrow> (case pc_metadata pc of
              None \<Rightarrow> (pc, collection_search (pc_inner pc) query k (Some g))
            | Some mi \<Rightarrow> (pc, filtered_search pc mi query k g))
        | None \<Rightarrow>
            if pc_indexes pc = [] then (pc, collection_search (pc_inner pc) query k None)
            else graph_search query k ef pc))"

definition persistent_search :: "f32 list \<Rightarrow> nat \<Rightarrow> filter_expr option \<Rightarrow> (persistent, search_hit list) action" where
  "persistent_search query k f = search_with_ef query k f (max (saturating_mul k 4) 96)"

record index_stats =
  st_segments :: nat
  st_nodes :: nat
  st_links :: nat
  st_vector_heap_bytes :: nat
  st_mapped_segments :: nat
  st_pending_ids :: nat
  st_mapped_points :: nat
  st_owned_points :: nat
  st_owned_vector_bytes :: nat
  st_cuda_vectors :: nat

definition add_stats :: "index_stats \<Rightarrow> index_segment \<Rightarrow> index_stats" where
  "add_stats tot seg = (let s = hnsw_stats_of (is_index seg) in
     tot\<lparr>st_nodes := st_nodes tot + hs_nodes s, st_links := st_links tot + hs_links s,
       st_vector_heap_bytes := st_vector_heap_bytes tot + hs_vector_heap_bytes s,
       st_mapped_segments := st_mapped_segments tot + (if hs_vectors_memory_mapped s then 1 else 0)\<rparr>)"

definition index_stats_of :: "persistent \<Rightarrow> index_stats" where
  "index_stats_of pc = (case vector_storage_stats (pc_inner pc) of (mp, op, ob) \<Rightarrow>
     foldl add_stats \<lparr>st_segments = length (pc_indexes pc), st_nodes = 0, st_links = 0, st_vector_heap_bytes = 0,
       st_mapped_segments = 0, st_pending_ids = length (pc_dirty pc), st_mapped_points = mp, st_owned_points = op,
       st_owned_vector_bytes = ob, st_cuda_vectors = 0\<rparr> (pc_indexes pc))"

section \<open>Flushing\<close>

definition default_hnsw_config :: hnsw_config where
  "default_hnsw_config = \<lparr>hc_m = 16, hc_ef_construction = 200\<rparr>"

definition temporary_segment_path :: "u64 \<Rightarrow> flush_env \<Rightarrow> string" where
  "temporary_segment_path seq env = ''.segment-'' @ padded (unat seq) @ ''.tmp-'' @ decimal (fe_pid env) @ ''-'' @
     decimal (fe_timestamp env) @ ''-'' @ decimal (fe_nonce env)"

definition manifest_temporary :: "nat \<Rightarrow> string" where
  "manifest_temporary pid = ''.MANIFEST.tmp-'' @ decimal pid"

definition publish_manifest :: "nat \<Rightarrow> u64 \<Rightarrow> string list \<Rightarrow> unit io" where
  "publish_manifest pid seq names =
     abind (alift (encode_manifest seq names)) (\<lambda>bs.
     abind (write_new_file (manifest_temporary pid) bs) (\<lambda>_.
     abind (fs_rename (manifest_temporary pid) manifest_file) (\<lambda>_. fs_sync)))"

text \<open>
  When the contents cannot be encoded, the new file is removed again; the bytes written to it until
  then are left out.
\<close>

definition write_segment_file ::
    "string \<Rightarrow> collection_config \<Rightarrow> u64 \<Rightarrow> stored_point list \<Rightarrow> string list \<Rightarrow> bool \<Rightarrow> hnsw_index \<Rightarrow> unit io" where
  "write_segment_file path cfg seq ps tombstones full ix =
     on_error
       (case segment_bytes cfg seq ps tombstones full ix of
          Inl e \<Rightarrow> abind (write_new_file path []) (\<lambda>_. alift (Inl e))
        | Inr bs \<Rightarrow> write_new_file path bs)
       (aignore (fs_remove path))"

definition flush_snapshot_of :: "persistent \<Rightarrow> flush_snapshot" where
  "flush_snapshot_of pc =
     (let ps = snapshot_stored_points (pc_inner pc);
          compact = (pc_indexes pc = [] \<or> length (pc_indexes pc) \<ge> max_index_segments) in
      \<lparr>fs_config = config (pc_inner pc), fs_sequence = sequence (pc_inner pc), fs_points = ps,
       fs_graph_points = (if compact then ps else List.filter (\<lambda>p. sp_id p \<in> set (pc_dirty pc)) ps),
       fs_tombstones = (if compact then [] else List.filter (\<lambda>i. get_stored (pc_inner pc) i = None) (pc_dirty pc)),
       fs_compact = compact\<rparr>)"

definition build_flush :: "flush_env \<Rightarrow> flush_snapshot \<Rightarrow> prepared_flush io" where
  "build_flush env s =
     abind (alift (build_quantized_prepared (dimension (fs_config s)) (config_metric (fs_config s)) default_hnsw_config
       (map (\<lambda>p. (sp_id p, as_slice (sp_vector p))) (fs_graph_points s)))) (\<lambda>ix.
     abind (write_segment_file (temporary_segment_path (fs_sequence s) env) (fs_config s) (fs_sequence s)
       (if fs_compact s then fs_points s else fs_graph_points s) (fs_tombstones s) (fs_compact s) ix) (\<lambda>_.
     areturn \<lparr>pf_sequence = fs_sequence s, pf_temporary = temporary_segment_path (fs_sequence s) env,
       pf_metadata = index_points (fs_points s), pf_compact = fs_compact s\<rparr>))"

primrec remove_files :: "string \<Rightarrow> string list \<Rightarrow> unit io" where
  "remove_files keep [] = areturn ()"
| "remove_files keep (name # names) =
     abind (if name \<noteq> keep then aignore (fs_remove name) else areturn ()) (\<lambda>_. remove_files keep names)"

definition truncate_wal :: "u64 \<Rightarrow> (persistent, unit) action" where
  "truncate_wal seq =
     abind aget (\<lambda>pc.
     if sequence (pc_inner pc) = seq
     then abind (on_disk (fs_set_len wal_file 0)) (\<lambda>_.
       abind (on_disk fs_sync) (\<lambda>_. aput (\<lambda>pc. pc\<lparr>pc_dirty := []\<rparr>)))
     else areturn ())"

definition retire_segments :: "bool \<Rightarrow> manifest option \<Rightarrow> string \<Rightarrow> (persistent, unit) action" where
  "retire_segments compact previous name =
     (if compact
      then abind (aput (\<lambda>pc. pc\<lparr>pc_indexes := []\<rparr>)) (\<lambda>_.
        on_disk (remove_files name (case previous of None \<Rightarrow> [] | Some m \<Rightarrow> m_segments m)))
      else areturn ())"

definition finish_flush ::
    "prepared_flush \<Rightarrow> manifest option \<Rightarrow> string \<Rightarrow> decoded_segment \<Rightarrow> (persistent, u64) action" where
  "finish_flush pf previous name s =
     abind (aput (\<lambda>pc. pc\<lparr>pc_inner := replace_persisted_points (pc_inner pc) (ds_points s)\<rparr>)) (\<lambda>_.
     abind (truncate_wal (pf_sequence pf)) (\<lambda>_.
     abind (retire_segments (pf_compact pf) previous name) (\<lambda>_.
     abind (aput (\<lambda>pc. pc\<lparr>pc_indexes := push_index (pf_sequence pf) (ds_index s) (pc_indexes pc),
       pc_metadata := Some (pf_metadata pf)\<rparr>)) (\<lambda>_.
     areturn (pf_sequence pf)))))"

text \<open>The new segment under its final name, read back and checked.\<close>

definition place_segment :: "prepared_flush \<Rightarrow> (persistent, decoded_segment) action" where
  "place_segment pf =
     (let name = segment_name (pf_sequence pf) in
      abind (on_disk (fs_rename (pf_temporary pf) name)) (\<lambda>_.
      abind (on_disk fs_sync) (\<lambda>_.
      abind (on_disk (fs_read name)) (\<lambda>bs.
      abind (alift (decode_segment_mapped bs)) (\<lambda>s.
      abind aget (\<lambda>pc.
      alift (if ds_config s \<noteq> config (pc_inner pc) \<or> ds_sequence s \<noteq> pf_sequence pf \<or> ds_full s \<noteq> pf_compact pf
        then Inl (CorruptStorage ''prepared segment changed before publication'')
        else Inr s)))))))"

definition new_names :: "bool \<Rightarrow> manifest option \<Rightarrow> string \<Rightarrow> string list" where
  "new_names compact previous name =
     (if compact then [] else (case previous of None \<Rightarrow> [] | Some m \<Rightarrow> m_segments m)) @ [name]"

definition publish_flush :: "nat \<Rightarrow> prepared_flush \<Rightarrow> (persistent, u64) action" where
  "publish_flush pid pf = afinally
     (abind (on_disk read_manifest) (\<lambda>previous.
      if (case previous of None \<Rightarrow> False | Some m \<Rightarrow> m_sequence m > pf_sequence pf)
      then areturn (m_sequence (the previous))
      else (let name = segment_name (pf_sequence pf) in
        abind (place_segment pf) (\<lambda>s.
        abind (on_disk (publish_manifest pid (pf_sequence pf) (new_names (pf_compact pf) previous name))) (\<lambda>_.
        finish_flush pf previous name s)))))
     (on_disk (aignore (fs_remove (pf_temporary pf))))"

definition persistent_flush :: "flush_env \<Rightarrow> (persistent, u64) action" where
  "persistent_flush env =
     abind aget (\<lambda>pc.
     if pc_dirty pc = [] \<and> pc_indexes pc \<noteq> [] then areturn (sequence (pc_inner pc))
     else abind (on_disk (build_flush env (flush_snapshot_of pc))) (publish_flush (fe_pid env)))"

section \<open>Backups\<close>

text \<open>
  A copy of the directory is assembled under a temporary name and renamed. An error of one of the
  copies or syncs before the rename removes it again and leaves no destination.
\<close>

definition copy_collection_directory ::
    "directory \<Rightarrow> error option \<Rightarrow> string \<Rightarrow> directory option \<Rightarrow> directory option \<times> unit result" where
  "copy_collection_directory source failure path destination =
     (if destination \<noteq> None then (destination, Inl (AlreadyExists (''backup destination '' @ path)))
      else (let copy = (\<lambda>name. rbind (ok_or (map_of source name) no_such_file) (\<lambda>bs. Inr (name, bs))) in
        case rbind (copy meta_file) (\<lambda>meta.
          rbind (copy wal_file) (\<lambda>wal.
          rbind (manifest_of source) (\<lambda>found.
          rbind (case found of None \<Rightarrow> Inr []
            | Some m \<Rightarrow> try_map copy (m_segments m @ [manifest_file])) (\<lambda>segs.
          case failure of None \<Rightarrow> Inr (foldl (\<lambda>fs (name, bs). hm_insert name bs fs) [] (meta # wal # segs)) | Some e \<Rightarrow> Inl e)))) of
          Inl e \<Rightarrow> (None, Inl e)
        | Inr fs \<Rightarrow> (Some fs, Inr ())))"

definition restore_backup ::
    "directory \<Rightarrow> error option \<Rightarrow> string \<Rightarrow> directory option \<Rightarrow> directory option \<times> collection_config result" where
  "restore_backup source failure path destination =
     (case rbind (ok_or (map_of source meta_file) no_such_file) decode_metadata of
        Inl e \<Rightarrow> (destination, Inl e)
      | Inr cfg \<Rightarrow> (case copy_collection_directory source failure path destination of
          (dest, r) \<Rightarrow> (dest, rbind r (\<lambda>_. Inr cfg))))"

end
