(* ===== verification/PersistentSearch.thy ===== *)
theory PersistentSearch
  imports Persistent
begin

text \<open>
  Searches of a persistent collection: what the metadata index and the graphs of the segments
  contribute, and that their results are merged to the same answers as an exact search of the
  points would give, as far as the graphs find them.
\<close>

section \<open>Merging ranked lists\<close>

text \<open>The best \<open>k\<close> of several lists are the best \<open>k\<close> of the best \<open>k\<close> of each.\<close>

lemma first_k_mem: "x \<in> set (first_k f k xs) \<Longrightarrow> x \<in> set xs"
  by (drule in_set_takeD) simp

lemma first_k_concat:
  assumes dist: "distinct (concat xss)" and inj: "inj_on f (set (concat xss))"
  shows "first_k f k (concat (map (first_k f k) xss)) = first_k f k (concat xss)"
proof (rule first_k_subset [OF _ dist _ inj])
  show "set (concat (map (first_k f k) xss)) \<subseteq> set (concat xss)"
    by (auto dest: first_k_mem)
  show "distinct (concat (map (first_k f k) xss))"
    using dist by (induction xss) (auto dest!: first_k_mem)
  fix x
  assume x: "x \<in> set (concat xss) - set (concat (map (first_k f k) xss))"
  then obtain xs where xs: "xs \<in> set xss" "x \<in> set xs" by auto
  have d: "distinct xs" and i: "inj_on f (set xs)"
    using xs(1) dist inj by (auto dest: distinct_concat_iff [THEN iffD1] intro: inj_on_subset)
  have out: "x \<notin> set (first_k f k xs)"
    using x xs(1) by auto
  then have "length (first_k f k xs) = k"
    using xs(2) by (metis length_take min_def set_sort take_all)
  then have "k = card (set (first_k f k xs))"
    using d by (simp add: distinct_card)
  also have "\<dots> \<le> card {y \<in> set (concat (map (first_k f k) xss)). f y < f x}"
    using xs(1) first_k_best [OF d i _ xs(2) out] by (intro card_mono) auto
  finally show "k \<le> card {y \<in> set (concat (map (first_k f k) xss)). f y < f x}" .
qed

interpretation hits: keyed_cmp compare_hits hit_key
  by unfold_locales
    (auto simp: compare_hits_def hit_key_def f32_total_cmp_def cmp_of_def then_with_def)

text \<open>Hits of which any two with the same ID are the same.\<close>

definition coherent :: "search_hit list \<Rightarrow> bool" where
  "coherent hs \<longleftrightarrow> (\<forall>a \<in> set hs. \<forall>b \<in> set hs. hit_id a = hit_id b \<longrightarrow> a = b)"

lemma coherentD: "coherent hs \<Longrightarrow> a \<in> set hs \<Longrightarrow> b \<in> set hs \<Longrightarrow> hit_id a = hit_id b \<Longrightarrow> a = b"
  unfolding coherent_def by blast

lemma coherent_subset: "coherent hs \<Longrightarrow> set hs' \<subseteq> set hs \<Longrightarrow> coherent hs'"
  unfolding coherent_def by blast

lemma dedup_ids_sorted:
  assumes "sorted (map hit_key hs)" "coherent hs"
  shows "set (dedup_ids hs) = set hs \<and> sorted (map hit_key (dedup_ids hs)) \<and> distinct (map hit_id (dedup_ids hs))"
  using assms
proof (induction hs rule: dedup_ids.induct)
  case (3 h h' hs)
  have tl: "sorted (map hit_key (h' # hs))" "sorted (map hit_key (h # hs))"
    using "3.prems"(1) by simp_all
  have coh: "coherent (h' # hs)" "coherent (h # hs)"
    by (rule coherent_subset [OF "3.prems"(2)], force)+
  show ?case
  proof (cases "hit_id h' = hit_id h")
    case True
    then have "h' = h"
      by (intro coherentD [OF "3.prems"(2)]) simp_all
    then show ?thesis
      using "3.IH"(1) [OF True tl(2) coh(2)] by simp
  next
    case False
    note ih = "3.IH"(2) [OF False tl(1) coh(1)]
    have "hit_id x \<noteq> hit_id h" if x: "x \<in> set (h' # hs)" for x
    proof
      assume "hit_id x = hit_id h"
      then have "x = h"
        by (intro coherentD [OF "3.prems"(2)]) (use x in simp_all)
      then have "hit_key h' \<le> hit_key h"
        using x tl(1) by auto
      moreover have "hit_key h \<le> hit_key h'"
        using "3.prems"(1) by simp
      ultimately have "hit_key h' = hit_key h"
        by (rule order_antisym)
      then show False
        using False by (simp add: hit_key_def)
    qed
    then have "hit_id h \<notin> hit_id ` set (dedup_ids (h' # hs))"
      using ih by force
    moreover have "\<forall>x \<in> set (dedup_ids (h' # hs)). hit_key h \<le> hit_key x"
      using ih "3.prems"(1) by simp
    ultimately show ?thesis
      using ih False by simp
  qed
qed simp_all

lemma inj_on_coherent: "coherent hs \<Longrightarrow> inj_on hit_key (set hs)"
  by (rule inj_onI) (simp add: coherentD hit_key_def)

lemma merge_hits_first_k:
  assumes "coherent hs"
  shows "merge_hits hs k = first_k hit_key k (remdups hs)"
proof -
  let ?s = "sort_key hit_key hs"
  have s: "sorted (map hit_key ?s)" "coherent ?s"
    using assms by (simp_all add: coherent_def)
  note d = dedup_ids_sorted [OF s]
  have "dedup_ids ?s = sort_key hit_key (remdups hs)"
    by (rule sorted_key_unique [of hit_key])
      (use d assms in \<open>simp_all add: distinct_map inj_on_coherent\<close>)
  then show ?thesis
    by (simp add: merge_hits_def hits.sort_by_sort_key)
qed

lemma coherent_distinct: "distinct (map hit_id hs) \<Longrightarrow> coherent hs"
  by (auto simp: coherent_def distinct_map inj_on_def)

lemma first_k_hits:
  assumes "mset a = mset b" "distinct (map hit_id a)"
  shows "first_k hit_key k a = first_k hit_key k b"
  using assms inj_on_hit_key [OF assms(2)] by (intro first_k_perm) (simp_all add: distinct_map)

lemma merge_two:
  assumes "distinct (map hit_id (a @ b))"
  shows "merge_hits (first_k hit_key k a @ first_k hit_key k b) k = first_k hit_key k (a @ b)"
proof -
  let ?m = "first_k hit_key k a @ first_k hit_key k b"
  have dist: "distinct (a @ b)"
    using assms by (simp only: distinct_map)
  have "set ?m \<subseteq> set (a @ b)"
    by (auto dest: first_k_mem)
  then have "coherent ?m"
    by (rule coherent_subset [OF coherent_distinct [OF assms]])
  moreover have "distinct ?m"
    using dist by (auto dest!: first_k_mem)
  ultimately have "merge_hits ?m k = first_k hit_key k ?m"
    by (simp add: merge_hits_first_k distinct_remdups_id)
  then show ?thesis
    using first_k_concat [of "[a, b]" hit_key k] dist inj_on_hit_key [OF assms] by simp
qed

section \<open>Searching a list of IDs\<close>

definition live_points :: "collection \<Rightarrow> string list \<Rightarrow> stored_point list" where
  "live_points c ids = List.map_filter (get_stored c) ids"

lemma get_stored_id: "collection_ok c \<Longrightarrow> get_stored c i = Some p \<Longrightarrow> sp_id p = i \<and> (i, p) \<in> set (points c)"
  unfolding get_stored_def by (auto simp: collection_ok_def list_all_iff dest!: map_of_SomeD)

lemma live_points_ids:
  assumes "collection_ok c"
  shows "map sp_id (live_points c ids) = List.filter (\<lambda>i. get_stored c i \<noteq> None) ids"
  using get_stored_id [OF assms] by (induction ids) (auto simp: live_points_def List.map_filter_def)

lemma set_live_points:
  "set (live_points c ids) = {p. \<exists>i \<in> set ids. get_stored c i = Some p}"
  by (force simp: live_points_def List.map_filter_def)

lemma search_ids_first_k:
  assumes "collection_ok c" "check_query c query k = Inr q" "distinct ids"
  shows "search_ids c query k ids f = Inr (first_k hit_key k
    (map (point_hit (config_metric (config c)) q) (List.filter (filter_matches f) (live_points c ids))))"
proof -
  have "distinct (map sp_id (live_points c ids))"
    using assms(3) by (simp add: live_points_ids [OF assms(1)])
  then have "distinct (map sp_id (List.filter (filter_matches f) (live_points c ids)))"
    by (rule distinct_map_filter_id)
  then show ?thesis
    using assms(2) check_query_Inr [of c query k q] top_k_hits [of k "List.filter (filter_matches f) (live_points c ids)"]
    by (simp add: search_ids_def live_points_def get_stored_def [abs_def])
qed

lemma points_get_stored:
  assumes "collection_ok c"
  shows "snd ` set (points c) = {p. \<exists>i. get_stored c i = Some p}"
proof -
  have "distinct (map fst (points c))"
    using assms by (simp add: collection_ok_def)
  then show ?thesis
    by (force simp: get_stored_def)
qed


section \<open>Filtered searches\<close>

text \<open>
  The metadata index was built from a snapshot of the points; it still describes every point
  that has not been written since.
\<close>

definition metadata_ok :: "persistent \<Rightarrow> bool" where
  "metadata_ok pc \<longleftrightarrow> (case pc_metadata pc of None \<Rightarrow> True
     | Some mi \<Rightarrow> \<exists>ps. mi = index_points ps \<and> distinct (map sp_id ps) \<and> list_all (\<lambda>p. bt_wf (sp_metadata p)) ps \<and>
         (\<forall>i. i \<notin> set (pc_dirty pc) \<longrightarrow>
           map_option sp_metadata (map_of (by_id ps) i) = map_option sp_metadata (get_stored (pc_inner pc) i)))"

lemma map_of_by_id: "distinct (map sp_id ps) \<Longrightarrow> map_of (by_id ps) i = Some p \<longleftrightarrow> p \<in> set ps \<and> sp_id p = i"
  by (subst map_of_eq_Some_iff) (auto simp: by_id_def comp_def)

lemma candidates_snapshot:
  assumes "distinct (map sp_id ps)" "list_all (\<lambda>p. bt_wf (sp_metadata p)) ps"
  shows "distinct (candidates (index_points ps) g)"
    "i \<in> set (candidates (index_points ps) g) \<longleftrightarrow>
       (\<exists>p. map_of (by_id ps) i = Some p \<and> matches g (sp_metadata p))"
proof -
  let ?ps = "map (\<lambda>p. (sp_id p, sp_metadata p)) ps"
  have "distinct (map fst ?ps)" "list_all (\<lambda>p. bt_wf (snd p)) ?ps"
    using assms by (simp_all add: comp_def list_all_iff)
  note build = candidates_build [OF this, of g]
  then show "distinct (candidates (index_points ps) g)"
    by (simp add: index_points_def)
  show "i \<in> set (candidates (index_points ps) g) \<longleftrightarrow>
      (\<exists>p. map_of (by_id ps) i = Some p \<and> matches g (sp_metadata p))"
    using build map_of_by_id [OF assms(1)] by (auto simp: index_points_def image_iff)
qed

lemma live_points_union:
  assumes ok: "collection_ok c" and dist: "distinct (a @ b)"
    and all: "\<And>i p. get_stored c i = Some p \<Longrightarrow> P p \<Longrightarrow> i \<in> set (a @ b)"
  shows "mset (List.filter P (live_points c a) @ List.filter P (live_points c b)) =
    mset (List.filter P (map snd (points c)))"
proof -
  let ?l = "List.filter P (live_points c a) @ List.filter P (live_points c b)"
  have l: "?l = List.filter P (live_points c (a @ b))"
    by (simp add: live_points_def List.map_filter_def)
  have "distinct (map sp_id (live_points c (a @ b)))"
    using dist by (simp only: live_points_ids [OF ok]) (rule distinct_filter)
  then have "distinct ?l"
    unfolding l by (intro distinct_filter) (simp only: distinct_map)
  moreover have "distinct (List.filter P (map snd (points c)))"
    using collection_ok_distinct [OF ok] by (intro distinct_filter) (simp only: distinct_map)
  moreover have "set ?l = set (List.filter P (map snd (points c)))"
    unfolding l using all points_get_stored [OF ok] by (auto simp: set_live_points)
  ultimately show ?thesis
    using set_eq_iff_mset_eq_distinct by blast
qed


lemma filtered_search_exact:
  assumes ok: "collection_ok (pc_inner pc)" "metadata_ok pc" "distinct (pc_dirty pc)" and mi: "pc_metadata pc = Some mi"
  shows "filtered_search pc mi query k g = collection_search (pc_inner pc) query k (Some g)"
proof (cases "check_query (pc_inner pc) query k")
  case (Inl e)
  then show ?thesis
    by (simp add: filtered_search_def search_ids_def collection_search_def Let_def)
next
  case (Inr q)
  let ?c = "pc_inner pc" and ?D = "pc_dirty pc"
  let ?hit = "point_hit (config_metric (config ?c)) q" and ?P = "filter_matches (Some g)"
  define ids where "ids = List.filter (\<lambda>i. i \<notin> set ?D) (candidates mi g)"
  obtain ps where ps: "mi = index_points ps" "distinct (map sp_id ps)" "list_all (\<lambda>p. bt_wf (sp_metadata p)) ps"
    and fresh: "\<And>i. i \<notin> set ?D \<Longrightarrow>
      map_option sp_metadata (map_of (by_id ps) i) = map_option sp_metadata (get_stored ?c i)"
    using ok(2) mi by (auto simp: metadata_ok_def)
  note cand = candidates_snapshot [OF ps(2,3), where g = g, folded ps(1)]
  have dist: "distinct (ids @ ?D)"
    using cand(1) ok(3) by (auto simp: ids_def)
  have all: "i \<in> set (ids @ ?D)" if st: "get_stored ?c i = Some p" and m: "?P p" for i p
  proof (cases "i \<in> set ?D")
    case False
    then obtain p' where "map_of (by_id ps) i = Some p'" "sp_metadata p' = sp_metadata p"
      using fresh [OF False] st by auto
    then have "i \<in> set (candidates mi g)"
      using cand(2) m by (auto simp: filter_matches_def)
    then show ?thesis
      using False by (simp add: ids_def)
  qed simp
  let ?A = "map ?hit (List.filter ?P (live_points ?c ids))" and ?B = "map ?hit (List.filter ?P (live_points ?c ?D))"
  have mset: "mset (?A @ ?B) = mset (candidate_hits ?c q (Some g))"
    using live_points_union [OF ok(1) dist, of ?P] all unfolding candidate_hits_def
    by (metis map_append mset_map)
  have ids_dist: "distinct (map hit_id (?A @ ?B))"
    using candidate_hits_distinct [OF ok(1), of q "Some g"] mset
    by (metis mset_eq_imp_distinct_iff mset_map)
  have "filtered_search pc mi query k g = Inr (merge_hits (first_k hit_key k ?A @ first_k hit_key k ?B) k)"
    using dist by (simp add: filtered_search_def ids_def [symmetric] search_ids_first_k [OF ok(1) Inr] Let_def)
  also have "merge_hits (first_k hit_key k ?A @ first_k hit_key k ?B) k = first_k hit_key k (?A @ ?B)"
    by (rule merge_two [OF ids_dist])
  also have "\<dots> = first_k hit_key k (candidate_hits ?c q (Some g))"
    by (rule first_k_hits [OF mset ids_dist])
  finally show ?thesis
    by (simp add: collection_search_first_k [OF ok(1) Inr])
qed


section \<open>Searches of the graphs\<close>

definition segment_fits :: "collection_config \<Rightarrow> index_segment \<Rightarrow> bool" where
  "segment_fits cfg seg \<longleftrightarrow> ix_dimension (is_index seg) = dimension cfg \<and> ix_metric (is_index seg) = config_metric cfg"

lemma hnsw_search_returns:
  assumes "0 < k" "k \<le> ef" "length query = ix_dimension ix" "prepare (ix_metric ix) query = Inr v"
  shows "\<exists>hits pool'. hnsw_search pool ix query k ef = Inr (hits, pool')"
  using assms by (auto simp: hnsw_search_def Let_def split: option.splits prod.splits)

lemma search_segment_returns:
  assumes "segment_fits (config (pc_inner pc)) seg" "check_query (pc_inner pc) query k = Inr q"
  obtains seg' hs where "search_segment pc q query k ef seg = (seg', Inr hs)"
    "seg' = seg\<lparr>is_pool := is_pool seg'\<rparr>"
    "\<forall>h \<in> set hs. \<exists>p. get_stored (pc_inner pc) (hit_id h) = Some p \<and> hit_id h \<notin> set (pc_dirty pc) \<and>
       sp_sequence p \<le> is_sequence seg \<and>
       h = \<lparr>hit_id = hit_id h, hit_score = score (config_metric (config (pc_inner pc))) q (as_slice (sp_vector p)),
         hit_metadata = sp_metadata p, hit_sequence = sp_sequence p\<rparr>"
proof (cases "segment_k (is_index seg) k = 0")
  case True
  then have "search_segment pc q query k ef seg = (seg, Inr [])"
    by (simp add: search_segment_def)
  then show thesis
    using that [of seg "[]"] by simp
next
  case False
  let ?k = "segment_k (is_index seg) k"
  have "\<exists>hits pool'. hnsw_search (is_pool seg) (is_index seg) query ?k (max ef ?k) = Inr (hits, pool')"
    using assms False by (intro hnsw_search_returns) (auto simp: segment_fits_def check_query_Inr)
  then obtain hits pool' where run: "hnsw_search (is_pool seg) (is_index seg) query ?k (max ef ?k) = Inr (hits, pool')"
    by blast
  show thesis
  proof (rule that)
    show "search_segment pc q query k ef seg =
        (seg\<lparr>is_pool := pool'\<rparr>, Inr (List.map_filter (rescore pc q (is_sequence seg)) hits))"
      using False by (simp add: search_segment_def run)
    show "\<forall>h \<in> set (List.map_filter (rescore pc q (is_sequence seg)) hits).
        \<exists>p. get_stored (pc_inner pc) (hit_id h) = Some p \<and> hit_id h \<notin> set (pc_dirty pc) \<and>
       sp_sequence p \<le> is_sequence seg \<and>
       h = \<lparr>hit_id = hit_id h, hit_score = score (config_metric (config (pc_inner pc))) q (as_slice (sp_vector p)),
         hit_metadata = sp_metadata p, hit_sequence = sp_sequence p\<rparr>"
      by (auto simp: List.map_filter_def rescore_def split: option.splits if_splits)
  qed simp
qed

definition fresh_hits :: "persistent \<Rightarrow> f32 list \<Rightarrow> f32 list \<Rightarrow> nat \<Rightarrow> nat \<Rightarrow> index_segment list \<Rightarrow> search_hit list" where
  "fresh_hits pc q query k ef segs = concat (map (\<lambda>seg. case snd (search_segment pc q query k ef seg) of
     Inl _ \<Rightarrow> [] | Inr hs \<Rightarrow> hs) segs)"

lemma search_segments_returns:
  assumes "list_all (segment_fits (config (pc_inner pc))) segs" "check_query (pc_inner pc) query k = Inr q"
  shows "\<exists>segs'. search_segments pc q query k ef segs = (segs', Inr (fresh_hits pc q query k ef segs)) \<and>
    list_all2 (\<lambda>s s'. s' = s\<lparr>is_pool := is_pool s'\<rparr>) segs segs'"
  using assms(1)
proof (induction segs)
  case Nil
  then show ?case by (simp add: fresh_hits_def)
next
  case (Cons seg segs)
  obtain segs' where segs': "search_segments pc q query k ef segs = (segs', Inr (fresh_hits pc q query k ef segs))"
    "list_all2 (\<lambda>s s'. s' = s\<lparr>is_pool := is_pool s'\<rparr>) segs segs'"
    using Cons by auto
  obtain seg' hs where seg': "search_segment pc q query k ef seg = (seg', Inr hs)" "seg' = seg\<lparr>is_pool := is_pool seg'\<rparr>"
    using Cons.prems by (auto intro: search_segment_returns [OF _ assms(2), of seg ef])
  then show ?case
    using segs' by (simp add: fresh_hits_def)
qed

lemma fresh_hits_live:
  assumes "list_all (segment_fits (config (pc_inner pc))) segs" "check_query (pc_inner pc) query k = Inr q"
    and ok: "collection_ok (pc_inner pc)" and h: "h \<in> set (fresh_hits pc q query k ef segs)"
  shows "\<exists>p. get_stored (pc_inner pc) (sp_id p) = Some p \<and> sp_id p \<notin> set (pc_dirty pc) \<and>
    h = point_hit (config_metric (config (pc_inner pc))) q p"
proof -
  obtain seg where seg: "seg \<in> set segs" "h \<in> set (case snd (search_segment pc q query k ef seg) of Inl _ \<Rightarrow> [] | Inr hs \<Rightarrow> hs)"
    using h by (auto simp: fresh_hits_def)
  have fits: "segment_fits (config (pc_inner pc)) seg"
    using assms(1) seg(1) by (simp add: list_all_iff)
  obtain seg' hs where run: "search_segment pc q query k ef seg = (seg', Inr hs)"
    and live: "\<forall>h \<in> set hs. \<exists>p. get_stored (pc_inner pc) (hit_id h) = Some p \<and> hit_id h \<notin> set (pc_dirty pc) \<and>
       sp_sequence p \<le> is_sequence seg \<and>
       h = \<lparr>hit_id = hit_id h, hit_score = score (config_metric (config (pc_inner pc))) q (as_slice (sp_vector p)),
         hit_metadata = sp_metadata p, hit_sequence = sp_sequence p\<rparr>"
    by (rule search_segment_returns [OF fits assms(2), of ef])
  have "h \<in> set hs"
    using seg(2) run by simp
  then obtain p where p: "get_stored (pc_inner pc) (hit_id h) = Some p" "hit_id h \<notin> set (pc_dirty pc)"
    "h = \<lparr>hit_id = hit_id h, hit_score = score (config_metric (config (pc_inner pc))) q (as_slice (sp_vector p)),
         hit_metadata = sp_metadata p, hit_sequence = sp_sequence p\<rparr>"
    using live by blast
  have "sp_id p = hit_id h"
    using get_stored_id [OF ok p(1)] by simp
  moreover have "h = point_hit (config_metric (config (pc_inner pc))) q p"
    using p(3) \<open>sp_id p = hit_id h\<close> by (simp add: point_hit_def hit_of_ranked_def rank_def)
  ultimately show ?thesis
    using p by auto
qed


lemma remdups_append_disjoint: "set a \<inter> set b = {} \<Longrightarrow> distinct b \<Longrightarrow> remdups (a @ b) = remdups a @ b"
  by (induction a) (auto simp: distinct_remdups_id)

lemma first_k_absorb:
  assumes "distinct (a @ b)" "inj_on f (set (a @ b))"
  shows "first_k f k (a @ first_k f k b) = first_k f k (a @ b)"
proof -
  have idem: "first_k f k (first_k f k b) = first_k f k b"
    using sort_key_id_if_sorted [OF sorted_first_k [of f k b]] by simp
  have "distinct (concat [a, first_k f k b])" "inj_on f (set (concat [a, first_k f k b]))"
    using assms by (auto dest!: first_k_mem simp: inj_on_def)
  from first_k_concat [OF this, of k] idem
  have "first_k f k (a @ first_k f k b) = first_k f k (first_k f k a @ first_k f k b)"
    by simp
  also have "\<dots> = first_k f k (a @ b)"
    using first_k_concat [of "[a, b]" f k] assms by simp
  finally show ?thesis .
qed

text \<open>The hits of the points written since the last flush.\<close>

definition pending_hits :: "persistent \<Rightarrow> f32 list \<Rightarrow> search_hit list" where
  "pending_hits pc q = map (point_hit (config_metric (config (pc_inner pc))) q) (live_points (pc_inner pc) (pc_dirty pc))"

lemma pending_hits_facts:
  assumes "collection_ok (pc_inner pc)" "distinct (pc_dirty pc)"
  shows "distinct (map hit_id (pending_hits pc q))"
    "h \<in> set (pending_hits pc q) \<Longrightarrow> \<exists>p. get_stored (pc_inner pc) (sp_id p) = Some p \<and> sp_id p \<in> set (pc_dirty pc) \<and>
       h = point_hit (config_metric (config (pc_inner pc))) q p"
proof -
  show "distinct (map hit_id (pending_hits pc q))"
    unfolding pending_hits_def hit_id_point_hits live_points_ids [OF assms(1)] using assms(2) by simp
  assume "h \<in> set (pending_hits pc q)"
  then obtain p i where "i \<in> set (pc_dirty pc)" "get_stored (pc_inner pc) i = Some p"
    "h = point_hit (config_metric (config (pc_inner pc))) q p"
    by (auto simp: pending_hits_def set_live_points)
  then show "\<exists>p. get_stored (pc_inner pc) (sp_id p) = Some p \<and> sp_id p \<in> set (pc_dirty pc) \<and>
       h = point_hit (config_metric (config (pc_inner pc))) q p"
    using get_stored_id [OF assms(1)] by metis
qed

lemma graph_search_result:
  fixes ef :: nat
  assumes ok: "collection_ok (pc_inner pc)" "distinct (pc_dirty pc)"
    and fits: "list_all (segment_fits (config (pc_inner pc))) (pc_indexes pc)"
    and q: "check_query (pc_inner pc) query k = Inr q"
  defines "all \<equiv> fresh_hits pc q query k ef (pc_indexes pc) @ pending_hits pc q"
  shows "\<exists>segs. graph_search query k ef pc = (pc\<lparr>pc_indexes := segs\<rparr>, Inr (first_k hit_key k (remdups all))) \<and>
    list_all2 (\<lambda>s s'. s' = s\<lparr>is_pool := is_pool s'\<rparr>) (pc_indexes pc) segs"
    "coherent all"
proof -
  let ?m = "config_metric (config (pc_inner pc))"
  let ?F = "fresh_hits pc q query k ef (pc_indexes pc)" and ?D = "pending_hits pc q"
  obtain segs where segs: "search_segments pc q query k ef (pc_indexes pc) = (segs, Inr ?F)"
    "list_all2 (\<lambda>s s'. s' = s\<lparr>is_pool := is_pool s'\<rparr>) (pc_indexes pc) segs"
    using search_segments_returns [OF fits q] by blast
  note live = fresh_hits_live [OF fits q ok(1)] and pending = pending_hits_facts [OF ok]
  have hit: "\<exists>p. get_stored (pc_inner pc) (hit_id h) = Some p \<and> h = point_hit ?m q p" if h: "h \<in> set all" for h
  proof (cases "h \<in> set ?F")
    case True
    then show ?thesis using live by fastforce
  next
    case False
    then show ?thesis using h pending(2) unfolding all_def by fastforce
  qed
  show coh: "coherent all"
    unfolding coherent_def
  proof (intro ballI impI)
    fix a b
    assume ab: "a \<in> set all" "b \<in> set all" and eq: "hit_id a = hit_id b"
    show "a = b"
      using hit [OF ab(1)] hit [OF ab(2)] eq by auto
  qed
  have disj: "set ?F \<inter> set ?D = {}"
  proof -
    have "hit_id h \<notin> set (pc_dirty pc)" if "h \<in> set ?F" for h
      using live [OF that] by auto
    moreover have "hit_id h \<in> set (pc_dirty pc)" if "h \<in> set ?D" for h
      using pending(2) [OF that] by auto
    ultimately show ?thesis by blast
  qed
  have dist: "distinct ?D"
    using pending(1) by (simp only: distinct_map)
  have sub: "set (?F @ first_k hit_key k ?D) \<subseteq> set all"
    unfolding all_def by (auto dest: first_k_mem)
  have "merge_hits (?F @ first_k hit_key k ?D) k = first_k hit_key k (remdups (?F @ first_k hit_key k ?D))"
    by (rule merge_hits_first_k [OF coherent_subset [OF coh sub]])
  also have "remdups (?F @ first_k hit_key k ?D) = remdups ?F @ first_k hit_key k ?D"
    using disj dist by (intro remdups_append_disjoint) (auto dest: first_k_mem)
  also have "first_k hit_key k \<dots> = first_k hit_key k (remdups ?F @ ?D)"
  proof (rule first_k_absorb)
    show "distinct (remdups ?F @ ?D)"
      using disj dist by auto
    show "inj_on hit_key (set (remdups ?F @ ?D))"
      using inj_on_coherent [OF coh] by (simp add: all_def)
  qed
  also have "remdups ?F @ ?D = remdups all"
    using disj dist unfolding all_def by (intro remdups_append_disjoint [symmetric]) auto
  finally have merge: "merge_hits (?F @ first_k hit_key k ?D) k = first_k hit_key k (remdups all)" .
  have "search_ids (pc_inner pc) query k (pc_dirty pc) None = Inr (first_k hit_key k ?D)"
    using search_ids_first_k [OF ok(1) q ok(2), of None] by (simp add: filter_matches_def pending_hits_def)
  then have "graph_search query k ef pc = (pc\<lparr>pc_indexes := segs\<rparr>, Inr (first_k hit_key k (remdups all)))"
    using q by (simp add: graph_search_def check_query_Inr segs(1) merge)
  then show "\<exists>segs. graph_search query k ef pc = (pc\<lparr>pc_indexes := segs\<rparr>, Inr (first_k hit_key k (remdups all))) \<and>
    list_all2 (\<lambda>s s'. s' = s\<lparr>is_pool := is_pool s'\<rparr>) (pc_indexes pc) segs"
    using segs(2) by blast
qed


section \<open>Correctness\<close>

text \<open>
  C26: a filtered search gives exactly the answer, or the error, of the exact search of the
  collection. The metadata index may be older than the points: what was written since is searched
  separately, and the two results are merged without loss.
\<close>

theorem persistent_filtered_exact:
  assumes "collection_ok (pc_inner pc)" "metadata_ok pc" "distinct (pc_dirty pc)" "k \<le> ef"
  shows "search_with_ef query k (Some f) ef pc = (pc, collection_search (pc_inner pc) query k (Some f))"
proof (cases "pc_metadata pc")
  case None
  then show ?thesis
    using assms(4) by (auto simp: search_with_ef_def collection_search_def check_query_def)
next
  case (Some mi)
  then show ?thesis
    using assms(4) filtered_search_exact [OF assms(1-3) Some, of query k f]
    by (auto simp: search_with_ef_def collection_search_def check_query_def)
qed

text \<open>
  C27: an unfiltered search over the graphs of the segments returns at most \<open>k\<close> different live
  points, each with its current version and its exact score, best first. No point that was written
  since the last flush is missed, and no current point a graph found: one that is not in the answer
  ranks behind \<open>k\<close> others. Only the pooled workspaces of the graphs change.
\<close>

theorem persistent_search_sound:
  assumes "collection_ok (pc_inner pc)" "distinct (pc_dirty pc)" "pc_indexes pc \<noteq> []" "k \<le> ef"
    and "list_all (segment_fits (config (pc_inner pc))) (pc_indexes pc)"
    and "check_query (pc_inner pc) query k = Inr q"
  shows "\<exists>segs hits. search_with_ef query k None ef pc = (pc\<lparr>pc_indexes := segs\<rparr>, Inr hits) \<and>
    list_all2 (\<lambda>s s'. s' = s\<lparr>is_pool := is_pool s'\<rparr>) (pc_indexes pc) segs \<and>
    length hits \<le> k \<and> sorted_wrt (\<lambda>a b. hit_key a < hit_key b) hits \<and> distinct (map hit_id hits) \<and>
    (\<forall>h \<in> set hits. \<exists>p. get_stored (pc_inner pc) (hit_id h) = Some p \<and>
       h = point_hit (config_metric (config (pc_inner pc))) q p) \<and>
    (\<forall>h' \<in> set (fresh_hits pc q query k ef (pc_indexes pc) @ pending_hits pc q).
       h' \<notin> set hits \<longrightarrow> length hits = k \<and> (\<forall>h \<in> set hits. hit_key h < hit_key h'))"
proof -
  define all where "all = fresh_hits pc q query k ef (pc_indexes pc) @ pending_hits pc q"
  define hits where "hits = first_k hit_key k (remdups all)"
  obtain segs where segs: "graph_search query k ef pc = (pc\<lparr>pc_indexes := segs\<rparr>, Inr hits)"
    "list_all2 (\<lambda>s s'. s' = s\<lparr>is_pool := is_pool s'\<rparr>) (pc_indexes pc) segs"
    using graph_search_result(1) [OF assms(1,2,5,6), of ef] unfolding hits_def all_def by blast
  have coh: "coherent all"
    unfolding all_def by (rule graph_search_result(2) [OF assms(1,2,5,6)])
  have dist: "distinct (remdups all)" and inj: "inj_on hit_key (set (remdups all))"
    using inj_on_coherent [OF coh] by simp_all
  have mem: "h \<in> set all" if "h \<in> set hits" for h
    using first_k_mem [OF that [unfolded hits_def]] by simp
  have run: "search_with_ef query k None ef pc = (pc\<lparr>pc_indexes := segs\<rparr>, Inr hits)"
    using assms(3,4,6) segs(1) by (simp add: search_with_ef_def check_query_Inr)
  have len: "length hits \<le> k"
    by (simp add: hits_def)
  have strict: "sorted_wrt (\<lambda>a b. hit_key a < hit_key b) hits"
    unfolding hits_def by (rule first_k_strict [OF dist inj])
  have "distinct hits"
    unfolding hits_def by simp
  then have ids: "distinct (map hit_id hits)"
    using coherentD [OF coh] mem by (auto simp: distinct_map inj_on_def)
  have live: "\<exists>p. get_stored (pc_inner pc) (hit_id h) = Some p \<and>
      h = point_hit (config_metric (config (pc_inner pc))) q p" if "h \<in> set hits" for h
    using mem [OF that] fresh_hits_live [OF assms(5,6,1)] pending_hits_facts(2) [OF assms(1,2)]
    unfolding all_def by fastforce
  have rest: "length hits = k \<and> (\<forall>h \<in> set hits. hit_key h < hit_key h')"
    if h': "h' \<in> set all" "h' \<notin> set hits" for h'
  proof
    show "length hits = k"
    proof (rule ccontr)
      assume "length hits \<noteq> k"
      then have "hits = sort_key hit_key (remdups all)"
        unfolding hits_def by (metis length_take min_def take_all)
      then show False using h' by simp
    qed
    show "\<forall>h \<in> set hits. hit_key h < hit_key h'"
      using first_k_best [OF dist inj] h' unfolding hits_def by simp
  qed
  show ?thesis
    by (intro exI [of _ segs] exI [of _ hits] conjI ballI impI run segs(2) len strict ids live)
      (use rest in \<open>auto simp: all_def\<close>)
qed

definition demo_disk :: disk where
  "demo_disk = \<lparr>dk_files = [], dk_locked = False, dk_clock = 0, dk_faults = \<lambda>_. None\<rparr>"

definition demo_cuda :: cuda_search_config where
  "demo_cuda = \<lparr>cuda_mode = CudaDisabled, cuda_device = 0, cuda_min_vectors = 10000\<rparr>"

text \<open>Two flushed points, of which one was written again since.\<close>

definition demo_persistent :: persistent where
  "demo_persistent = \<lparr>pc_inner = demo_collection, pc_disk = demo_disk, pc_durability = Sync,
     pc_indexes = [\<lparr>is_sequence = 1, is_index = demo_index, is_pool = []\<rparr>],
     pc_metadata = Some (index_points [\<lparr>sp_id = ''a'', sp_vector = Owned [0x3f800000], sp_metadata = [], sp_sequence = 1\<rparr>]),
     pc_dirty = [''b''], pc_cuda = demo_cuda\<rparr>"

lemma demo_persistent_parts [simp]:
  "pc_inner demo_persistent = demo_collection" "pc_dirty demo_persistent = [''b'']"
  by (simp_all add: demo_persistent_def)

theorem persistent_filtered_exact_witness:
  "search_with_ef [0x3f800000] 1 (Some (Eq ''x'' (Integer 7))) 1 demo_persistent =
     (demo_persistent, collection_search demo_collection [0x3f800000] 1 (Some (Eq ''x'' (Integer 7))))"
proof -
  have "metadata_ok demo_persistent"
    unfolding metadata_ok_def
    by (auto simp: demo_persistent_def demo_collection_def get_stored_def by_id_def
        intro!: exI [of _ "[\<lparr>sp_id = ''a'', sp_vector = Owned [0x3f800000], sp_metadata = [], sp_sequence = 1\<rparr>]"])
  then show ?thesis
    using persistent_filtered_exact [of demo_persistent 1 1 "[0x3f800000]" "Eq ''x'' (Integer 7)"] demo_collection_ok by simp
qed

theorem persistent_search_sound_witness:
  "\<exists>segs hits. search_with_ef [0x3f800000] 1 None 1 demo_persistent = (demo_persistent\<lparr>pc_indexes := segs\<rparr>, Inr hits) \<and>
     length hits \<le> 1"
proof -
  have q: "check_query (pc_inner demo_persistent) [0x3f800000] 1 = Inr [0x3f800000]"
    unfolding demo_persistent_parts by code_simp
  have fits: "list_all (segment_fits (config (pc_inner demo_persistent))) (pc_indexes demo_persistent)"
    by (simp add: demo_persistent_def segment_fits_def demo_index_def demo_collection_def)
  have "collection_ok (pc_inner demo_persistent)" "distinct (pc_dirty demo_persistent)" "pc_indexes demo_persistent \<noteq> []"
    using demo_collection_ok by (simp_all add: demo_persistent_def)
  from persistent_search_sound [OF this order_refl fits q] show ?thesis by blast
qed

end
