(* ===== verification/Recovery.thy ===== *)
theory Recovery
  imports PersistentSearch
begin

text \<open>
  What a directory recovers to. A running collection and its directory agree at every moment: the
  segments of the manifest, followed by the records of the log, give the points and the sequence
  number in memory. Every write keeps this, and a write that fails or is interrupted leaves a
  directory that recovers to the state before it or to the state after it.
\<close>

section \<open>Collections that look the same\<close>

definition same_collection :: "collection \<Rightarrow> collection \<Rightarrow> bool" where
  "same_collection c c' \<longleftrightarrow> config c = config c' \<and> sequence c = sequence c' \<and> collection_get c = collection_get c'"

lemma same_collection_refl [simp]: "same_collection c c"
  by (simp add: same_collection_def)

lemma same_collection_sym: "same_collection c c' \<Longrightarrow> same_collection c' c"
  by (simp add: same_collection_def)

lemma same_collection_trans: "same_collection a b \<Longrightarrow> same_collection b c \<Longrightarrow> same_collection a c"
  by (simp add: same_collection_def)

lemma collection_get_stored: "collection_get c i = map_option to_owned_point (get_stored c i)"
  by (simp add: collection_get_def get_stored_def)

lemma config_apply [simp]:
  "config (apply_prepared_upsert c ps seq) = config c" "sequence (apply_prepared_upsert c ps seq) = seq"
  "config (apply_delete_at c ids seq) = config c" "sequence (apply_delete_at c ids seq) = seq"
  by (simp_all add: apply_prepared_upsert_def apply_delete_at_def)

lemma map_of_owned:
  "map_option to_owned_point (map_of (rev (map (\<lambda>p. (sp_id p, p)) ps)) i) =
     map_of (rev (map (\<lambda>q. (p_id q, q)) (map to_owned_point ps))) i"
proof -
  have "map_option to_owned_point (map_of (map (\<lambda>p. (sp_id p, p)) qs) i) =
      map_of (map (\<lambda>q. (p_id q, q)) (map to_owned_point qs)) i" for qs
    by (induction qs) (auto simp: to_owned_point_def)
  from this [of "rev ps"] show ?thesis
    by (simp add: rev_map)
qed

lemma get_prepared:
  "collection_get (apply_prepared_upsert c ps seq) i =
     (case map_of (rev (map (\<lambda>q. (p_id q, q)) (map to_owned_point ps))) i of
        None \<Rightarrow> collection_get c i | Some q \<Rightarrow> Some q)"
proof -
  have "map_option to_owned_point (map_of (rev (map (\<lambda>p. (sp_id p, p)) ps)) i) =
      map_of (rev (map (\<lambda>q. (p_id q, q)) (map to_owned_point ps))) i"
    by (rule map_of_owned)
  then show ?thesis
    unfolding collection_get_stored get_upserted map_add_def by (auto split: option.splits)
qed

lemma same_collection_upsert:
  assumes "same_collection c c'" "map to_owned_point ps = map to_owned_point ps'"
  shows "same_collection (apply_prepared_upsert c ps seq) (apply_prepared_upsert c' ps' seq)"
  using assms(1) unfolding same_collection_def fun_eq_iff get_prepared assms(2) by (auto split: option.split)

lemma get_after_delete: "collection_get (apply_delete_at c ids seq) i = (if i \<in> set ids then None else collection_get c i)"
  by (simp add: collection_get_stored get_deleted)

lemma same_collection_delete:
  assumes "same_collection c c'"
  shows "same_collection (apply_delete_at c ids seq) (apply_delete_at c' ids seq)"
  using assms unfolding same_collection_def fun_eq_iff get_after_delete by simp

text \<open>A record of the log acts alike on collections that look the same.\<close>

lemma prepare_upsert_cong: "config c = config c' \<Longrightarrow> prepare_upsert c ps seq = prepare_upsert c' ps seq"
  by (simp add: prepare_upsert_def)

lemma prepare_upsert_ids:
  assumes "prepare_upsert c ps seq = Inr prepared"
  shows "map sp_id prepared = map up_id ps" "list_all (\<lambda>p. sp_sequence p = seq) prepared"
proof -
  have "list_all2 (\<lambda>p sp. prepare_point (config c) seq p = Inr sp) ps prepared"
    using assms by (auto simp: prepare_upsert_def try_map_eq_Inr split: if_splits)
  then show "map sp_id prepared = map up_id ps" "list_all (\<lambda>p. sp_sequence p = seq) prepared"
    by (induction rule: list_all2_induct) (auto simp: prepare_point_Inr)
qed

lemma apply_payload_cases:
  assumes "apply_payload c p = Inr (ids, c1)"
  obtains (skip) op seq d1 d2 where "decoder_byte (decoder_new p) = Inr (op, d1)" "decoder_u64 d1 = Inr (seq, d2)"
      "seq \<le> sequence c" "ids = []" "c1 = c"
  | (upsert) op seq d1 d2 prepared where "decoder_byte (decoder_new p) = Inr (op, d1)" "decoder_u64 d1 = Inr (seq, d2)"
      "\<not> seq \<le> sequence c" "c1 = apply_prepared_upsert c prepared seq" "map sp_id prepared = ids"
      "\<And>c' :: collection. config c' = config c \<Longrightarrow> sequence c' = sequence c \<Longrightarrow>
         apply_payload c' p = Inr (ids, apply_prepared_upsert c' prepared seq)"
      "list_all (\<lambda>p. sp_sequence p = seq) prepared"
  | (delete) op seq d1 d2 where "decoder_byte (decoder_new p) = Inr (op, d1)" "decoder_u64 d1 = Inr (seq, d2)"
      "\<not> seq \<le> sequence c" "c1 = apply_delete_at c ids seq"
      "\<And>c' :: collection. config c' = config c \<Longrightarrow> sequence c' = sequence c \<Longrightarrow>
         apply_payload c' p = Inr (ids, apply_delete_at c' ids seq)"
proof -
  obtain op d1 where op: "decoder_byte (decoder_new p) = Inr (op, d1)"
    using assms by (auto simp: apply_payload_def rbind_eq_Inr)
  obtain seq d2 where seq: "decoder_u64 d1 = Inr (seq, d2)"
    using assms op by (auto simp: apply_payload_def rbind_eq_Inr)
  show thesis
  proof (cases "seq \<le> sequence c")
    case True
    then have "ids = []" "c1 = c"
      using assms by (auto simp: apply_payload_def op seq)
    then show ?thesis
      using skip op seq True by blast
  next
    case False
    obtain next_seq where ns: "checked_add_u64 (sequence c) 1 = Some next_seq" "seq = next_seq"
      using assms False by (auto simp: apply_payload_def op seq rbind_eq_Inr ok_or_eq_Inr split: if_splits)
    show ?thesis
    proof (cases "op = 1")
      case True
      then obtain n d3 ps d4 prepared where r: "decoder_count d2 = Inr (n, d3)"
        "decode_n n (decoder_point (dimension (config c))) d3 = Inr (ps, d4)" "decoder_finish d4 = Inr ()"
        "prepare_upsert c ps seq = Inr prepared" "ids = map up_id ps" "c1 = apply_prepared_upsert c prepared seq"
        using assms False ns by (auto simp: apply_payload_def op seq rbind_eq_Inr)
      show ?thesis
      proof (rule upsert [OF op seq False r(6)])
        show "map sp_id prepared = ids"
          using prepare_upsert_ids(1) [OF r(4)] r(5) by simp
      next
        fix c' :: collection
        assume c': "config c' = config c" "sequence c' = sequence c"
        show "apply_payload c' p = Inr (ids, apply_prepared_upsert c' prepared seq)"
          using False True ns r(1-5) c' prepare_upsert_cong [OF c'(1)]
          by (simp add: apply_payload_def op seq)
      next
        show "list_all (\<lambda>p. sp_sequence p = seq) prepared"
          by (rule prepare_upsert_ids(2) [OF r(4)])
      qed
    next
      case op2: False
      then obtain n d3 d4 where r: "op = 2" "decoder_count d2 = Inr (n, d3)" "n \<noteq> 0"
        "decode_n n decoder_string d3 = Inr (ids, d4)" "decoder_finish d4 = Inr ()" "c1 = apply_delete_at c ids seq"
        using assms False ns by (auto simp: apply_payload_def op seq rbind_eq_Inr split: if_splits)
      show ?thesis
      proof (rule delete [OF op seq False r(6)])
        fix c' :: collection
        assume c': "config c' = config c" "sequence c' = sequence c"
        show "apply_payload c' p = Inr (ids, apply_delete_at c' ids seq)"
          using False ns r(1-5) c' by (simp add: apply_payload_def op seq)
      qed
    qed
  qed
qed


lemma apply_payload_same:
  assumes "apply_payload c p = Inr (ids, c1)" "same_collection c c'"
  shows "\<exists>c1'. apply_payload c' p = Inr (ids, c1') \<and> same_collection c1 c1'"
proof -
  have c': "config c' = config c" "sequence c' = sequence c"
    using assms(2) by (simp_all add: same_collection_def)
  from assms(1) show ?thesis
  proof (cases rule: apply_payload_cases)
    case (skip op seq d1 d2)
    then show ?thesis
      using c' assms(2) by (auto simp: apply_payload_def)
  next
    case (upsert op seq d1 d2 prepared)
    then show ?thesis
      using c' same_collection_upsert [OF assms(2) refl] by metis
  next
    case (delete op seq d1 d2)
    then show ?thesis
      using c' same_collection_delete [OF assms(2)] by metis
  qed
qed

lemma not_listed_prepared: "i \<notin> set (map sp_id ps) \<Longrightarrow> collection_get (apply_prepared_upsert c ps seq) i = collection_get c i"
proof -
  assume i: "i \<notin> set (map sp_id ps)"
  have "map_of (rev (map (\<lambda>q. (p_id q, q)) (map to_owned_point ps))) i = None"
    using i by (auto simp: map_of_eq_None_iff to_owned_point_def)
  then show ?thesis
    unfolding get_prepared by simp
qed

text \<open>A record that was applied, or skipped, is skipped by every collection that has come as far.\<close>

lemma apply_payload_reached:
  assumes "apply_payload c p = Inr (ids, c1)"
  shows "config c1 = config c" "sequence c \<le> sequence c1"
    "sequence c1 \<le> sequence c' \<Longrightarrow> apply_payload c' p = Inr ([], c')"
    "i \<notin> set ids \<Longrightarrow> collection_get c1 i = collection_get c i"
    "ids \<noteq> [] \<Longrightarrow> sequence c < sequence c1"
proof -
  have "config c1 = config c \<and> sequence c \<le> sequence c1 \<and>
    (sequence c1 \<le> sequence c' \<longrightarrow> apply_payload c' p = Inr ([], c')) \<and>
    (i \<notin> set ids \<longrightarrow> collection_get c1 i = collection_get c i) \<and> (ids \<noteq> [] \<longrightarrow> sequence c < sequence c1)"
    using assms
  proof (cases rule: apply_payload_cases)
    case (skip op seq d1 d2)
    then show ?thesis by (auto simp: apply_payload_def)
  next
    case (upsert op seq d1 d2 prepared)
    then show ?thesis
      using not_listed_prepared [of i prepared c seq] by (auto simp: apply_payload_def)
  next
    case (delete op seq d1 d2)
    then show ?thesis by (auto simp: apply_payload_def get_after_delete)
  qed
  then show "config c1 = config c" "sequence c \<le> sequence c1"
    "sequence c1 \<le> sequence c' \<Longrightarrow> apply_payload c' p = Inr ([], c')"
    "i \<notin> set ids \<Longrightarrow> collection_get c1 i = collection_get c i"
    "ids \<noteq> [] \<Longrightarrow> sequence c < sequence c1"
    by blast+
qed

lemma replay_same:
  assumes "replay c dirty ps = Inr (c1, dirty1)" "same_collection c c'"
  shows "\<exists>c1'. replay c' dirty ps = Inr (c1', dirty1) \<and> same_collection c1 c1'"
  using assms
proof (induction ps arbitrary: c c' dirty)
  case Nil
  then show ?case by auto
next
  case (Cons p ps)
  obtain ids c2 where p: "apply_payload c p = Inr (ids, c2)" "replay c2 (hs_extend dirty ids) ps = Inr (c1, dirty1)"
    using Cons.prems(1) by (auto simp: rbind_eq_Inr)
  obtain c2' where c2': "apply_payload c' p = Inr (ids, c2')" "same_collection c2 c2'"
    using apply_payload_same [OF p(1) Cons.prems(2)] by blast
  then show ?case
    using Cons.IH [OF p(2) c2'(2)] by simp
qed

lemma replay_append:
  "replay c dirty (ps @ qs) = rbind (replay c dirty ps) (\<lambda>(c', dirty'). replay c' dirty' qs)"
proof (induction ps arbitrary: c dirty)
  case (Cons p ps)
  then show ?case
    by (cases "apply_payload c p") auto
qed simp

lemma hs_extend_Nil [simp]: "hs_extend xs [] = xs"
  by (simp add: hs_extend_def)

lemma replay_reached:
  assumes "replay c dirty ps = Inr (c1, dirty1)"
  shows "config c1 = config c \<and> sequence c \<le> sequence c1 \<and>
    (\<forall>c' dirty'. sequence c1 \<le> sequence c' \<longrightarrow> replay c' dirty' ps = Inr (c', dirty')) \<and>
    (\<forall>i. i \<notin> set dirty1 \<longrightarrow> collection_get c1 i = collection_get c i) \<and> set dirty \<subseteq> set dirty1 \<and>
    (dirty1 \<noteq> [] \<longrightarrow> dirty \<noteq> [] \<or> sequence c < sequence c1) \<and> (distinct dirty \<longrightarrow> distinct dirty1)"
  using assms
proof (induction ps arbitrary: c dirty)
  case Nil
  then show ?case by simp
next
  case (Cons p ps)
  obtain ids c2 where p: "apply_payload c p = Inr (ids, c2)" and ps: "replay c2 (hs_extend dirty ids) ps = Inr (c1, dirty1)"
    using Cons.prems by (auto simp: rbind_eq_Inr)
  note one = apply_payload_reached [OF p] and more = Cons.IH [OF ps]
  have seq: "sequence c \<le> sequence c1"
    using one(2) more by (meson order_trans)
  have cfg: "config c1 = config c"
    using one(1) more by simp
  have skip: "replay c' dirty' (p # ps) = Inr (c', dirty')" if "sequence c1 \<le> sequence c'" for c' dirty'
  proof -
    have "sequence c2 \<le> sequence c'"
      using that more by (meson order_trans)
    then show ?thesis
      using one(3) [of c'] more that by simp
  qed
  have dirty: "set dirty \<union> set ids \<subseteq> set dirty1"
    using more by simp
  have same: "collection_get c1 i = collection_get c i" if "i \<notin> set dirty1" for i
  proof -
    have "i \<notin> set ids" using that dirty by blast
    then show ?thesis using one(4) [of i] more that by simp
  qed
  have grow: "dirty \<noteq> [] \<or> sequence c < sequence c1" if "dirty1 \<noteq> []"
  proof (cases "ids = []")
    case True
    then have "hs_extend dirty ids = dirty" by (simp add: hs_extend_def)
    then show ?thesis
      using more that one(2) by auto
  next
    case False
    then show ?thesis
      using one(5) more by (meson order_less_le_trans)
  qed
  have "distinct dirty \<longrightarrow> distinct dirty1"
    using more by simp
  then show ?case
    using seq cfg skip same dirty grow by blast
qed


text \<open>The entries of a collection are kept under their own IDs.\<close>

definition keyed :: "collection \<Rightarrow> bool" where
  "keyed c \<longleftrightarrow> hm_wf (points c) \<and> list_all (\<lambda>(i, p). i = sp_id p) (points c)"

lemma keyed_upsert: "keyed c \<Longrightarrow> keyed (apply_prepared_upsert c ps seq)"
proof -
  let ?P = "\<lambda>(i, p). i = sp_id p"
  have "hm_wf m \<Longrightarrow> list_all ?P m \<Longrightarrow> hm_wf (foldl (\<lambda>m p. hm_insert (sp_id p) p m) m ps) \<and>
    list_all ?P (foldl (\<lambda>m p. hm_insert (sp_id p) p m) m ps)" for m
    by (induction ps arbitrary: m) (auto simp: hm_wf_insert list_all_hm_insert)
  then show "keyed c \<Longrightarrow> keyed (apply_prepared_upsert c ps seq)"
    by (simp add: keyed_def apply_prepared_upsert_def)
qed

lemma keyed_delete: "keyed c \<Longrightarrow> keyed (apply_delete_at c ids seq)"
proof -
  let ?P = "\<lambda>(i, p). i = sp_id p"
  have "hm_wf m \<Longrightarrow> list_all ?P m \<Longrightarrow> hm_wf (foldl (\<lambda>m i. hm_remove i m) m ids) \<and>
    list_all ?P (foldl (\<lambda>m i. hm_remove i m) m ids)" for m :: "(string \<times> stored_point) list"
    by (induction ids arbitrary: m) (auto simp: hm_wf_remove list_all_hm_remove)
  then show "keyed c \<Longrightarrow> keyed (apply_delete_at c ids seq)"
    by (simp add: keyed_def apply_delete_at_def)
qed

lemma apply_payload_keyed: "apply_payload c p = Inr (ids, c1) \<Longrightarrow> keyed c \<Longrightarrow> keyed c1"
  by (erule apply_payload_cases) (auto intro: keyed_upsert keyed_delete)

lemma replay_keyed: "replay c dirty ps = Inr (c1, dirty1) \<Longrightarrow> keyed c \<Longrightarrow> keyed c1"
proof (induction ps arbitrary: c dirty)
  case (Cons p ps)
  then show ?case
    by (auto simp: rbind_eq_Inr intro: apply_payload_keyed)
qed simp

lemma keyed_collection_ok:
  assumes "keyed c" "same_collection c c'" "collection_ok c'"
  shows "collection_ok c"
proof -
  have "stored_ok (config c) (sequence c) p" if p: "(i, p) \<in> set (points c)" for i p
  proof -
    have "collection_get c i = Some (to_owned_point p)"
      using assms(1) p by (simp add: keyed_def collection_get_def)
    then have "collection_get c' i = Some (to_owned_point p)"
      using assms(2) by (simp add: same_collection_def)
    then obtain p' where p': "get_stored c' i = Some p'" "to_owned_point p' = to_owned_point p"
      by (auto simp: collection_get_stored)
    have "(i, p') \<in> set (points c')"
      using p'(1) by (simp add: get_stored_def map_of_SomeD)
    then have "stored_ok (config c') (sequence c') p'"
      using assms(3) unfolding collection_ok_def list_all_iff by fast
    then show ?thesis
      using p'(2) assms(2) by (simp add: stored_ok_def to_owned_point_def same_collection_def)
  qed
  then show ?thesis
    using assms unfolding collection_ok_def keyed_def same_collection_def list_all_iff by auto
qed

section \<open>The directory\<close>

definition empty_collection :: "collection_config \<Rightarrow> collection" where
  "empty_collection cfg = \<lparr>config = cfg, points = [], sequence = 0\<rparr>"

lemma empty_collection_facts [simp]:
  "config (empty_collection cfg) = cfg" "sequence (empty_collection cfg) = 0" "keyed (empty_collection cfg)"
  by (simp_all add: empty_collection_def keyed_def)

text \<open>The files a recovery reads.\<close>

definition kept :: "string \<Rightarrow> bool" where
  "kept name \<longleftrightarrow> name \<in> {meta_file, wal_file, manifest_file} \<or> prefix ''segment-'' name"

lemma decode_n_length: "decode_n n p d = Inr (xs, d') \<Longrightarrow> length xs = n"
  by (induction n arbitrary: d xs d') (auto simp: dbind_def dreturn_def rbind_eq_Inr split: prod.splits)

lemma decode_manifest_names:
  assumes "decode_manifest bs = Inr m"
  shows "m_segments m \<noteq> []" "distinct (m_segments m)" "\<forall>name \<in> set (m_segments m). prefix ''segment-'' name"
proof -
  obtain d names d' where names: "decode_names (bs ! 4) d = Inr (names, d')" "check_names [] names = Inr ()"
      "m_segments m = names"
    using assms by (auto simp: decode_manifest_def Let_def rbind_eq_Inr split: if_splits)
  show "m_segments m \<noteq> []"
    using names(1,3) decode_n_length
    by (fastforce simp: decode_names_def dbind_def dreturn_def dfail_def rbind_eq_Inr split: if_splits prod.splits)
  show "distinct (m_segments m)" "\<forall>name \<in> set (m_segments m). prefix ''segment-'' name"
    using names(2,3) by (auto simp: check_names_Inr)
qed

lemma load_segments_cong:
  "(\<forall>name \<in> set names. map_of fs' name = map_of fs name) \<Longrightarrow>
     load_segments fs' m position previous c ixs names = load_segments fs m position previous c ixs names"
  by (induction names arbitrary: position previous c ixs) (auto simp: rbind_def split: sum.splits)

lemma load_cong:
  assumes "map_of fs' manifest_file = map_of fs manifest_file"
    and "\<And>m name. manifest_of fs = Inr (Some m) \<Longrightarrow> name \<in> set (m_segments m) \<Longrightarrow> map_of fs' name = map_of fs name"
  shows "load_current_segments fs' c = load_current_segments fs c"
proof -
  have m: "manifest_of fs' = manifest_of fs"
    using assms(1) by (simp add: manifest_of_def)
  have "load_segments fs' m 0 0 c [] (m_segments m) = load_segments fs m 0 0 c [] (m_segments m)"
    if "manifest_of fs = Inr (Some m)" for m
    using assms(2) [OF that] by (intro load_segments_cong) blast
  then show ?thesis
    unfolding load_current_segments_def m by (cases "manifest_of fs") (auto split: option.splits)
qed

lemma manifest_of_Some:
  "manifest_of fs = Inr (Some m) \<longleftrightarrow> (\<exists>bs. map_of fs manifest_file = Some bs \<and> decode_manifest bs = Inr m)"
  by (auto simp: manifest_of_def rbind_eq_Inr split: option.splits)

lemma load_same_on:
  assumes "same_on kept fs fs'"
  shows "load_current_segments fs' c = load_current_segments fs c"
  using assms decode_manifest_names(3) by (intro load_cong) (auto simp: same_on_def kept_def manifest_of_Some)

text \<open>The names of the published segments carry their sequence numbers.\<close>

definition manifest_named :: "directory \<Rightarrow> bool" where
  "manifest_named fs \<longleftrightarrow> (\<forall>m. manifest_of fs = Inr (Some m) \<longrightarrow>
     (\<exists>seqs. m_segments m = map segment_name seqs \<and> (\<forall>s \<in> set seqs. s \<le> m_sequence m)))"

definition torn_log :: "bytes \<Rightarrow> bytes list \<Rightarrow> bool" where
  "torn_log wal ps \<longleftrightarrow> list_all frame_ok ps \<and>
     (\<exists>q n. frame_ok q \<and> n < length (frame q) \<and> wal = log_of ps @ take n (frame q))"

lemma torn_log_whole: "list_all frame_ok ps \<Longrightarrow> torn_log (log_of ps) ps"
proof -
  assume "list_all frame_ok ps"
  moreover have "frame_ok []" "0 < length (frame [])"
    by (simp_all add: frame_ok_def max_frame_bytes_def)
  ultimately show ?thesis
    unfolding torn_log_def by (metis append_Nil2 take0 take_0)
qed

lemma recover_torn_log:
  assumes "torn_log wal ps"
  shows "recover wal c = rbind (replay c [] ps) (\<lambda>(c', dirty). Inr (log_of ps, c', dirty))"
proof -
  obtain q n where q: "frame_ok q" "n < length (frame q)" "wal = log_of ps @ take n (frame q)" and ps: "list_all frame_ok ps"
    using assms by (auto simp: torn_log_def)
  have "recover_loop wal (length (log_of ps)) (length (log_of ps)) c' dirty = Inr (log_of ps, c', dirty)" for c' dirty
    using recover_torn [of "length (log_of ps)" wal n q c' dirty] q by simp
  then show ?thesis
    unfolding q(3) recover_log_start [OF ps] by (intro rbind_pair_cong) simp
qed

text \<open>
  A directory holds the collection \<open>c\<close>: its segments give \<open>c0\<close>, and the records \<open>ps\<close> of its log
  lead from there to \<open>c\<close>. The log may end in a torn record.
\<close>

definition durable :: "directory \<Rightarrow> collection \<Rightarrow> bytes list \<Rightarrow> collection \<Rightarrow> bool" where
  "durable fs c0 ps c \<longleftrightarrow> collection_ok c0 \<and>
     (\<exists>bs. map_of fs meta_file = Some bs \<and> decode_metadata bs = Inr (config c)) \<and>
     (\<exists>loaded. load_current_segments fs (empty_collection (config c)) = Inr (c0, loaded)) \<and>
     (\<exists>wal. map_of fs wal_file = Some wal \<and> torn_log wal ps) \<and>
     (\<exists>c1 dirty. replay c0 [] ps = Inr (c1, dirty) \<and> same_collection c1 c) \<and>
     manifest_named fs"

definition recovers :: "directory \<Rightarrow> collection \<Rightarrow> bool" where
  "recovers fs c \<longleftrightarrow> (\<exists>c0 ps. durable fs c0 ps c)"

lemma manifest_named_same_on: "same_on kept fs fs' \<Longrightarrow> manifest_named fs' = manifest_named fs"
  by (simp add: manifest_named_def manifest_of_def same_on_def kept_def)

lemma durable_same_on: "same_on kept fs fs' \<Longrightarrow> durable fs' c0 ps c = durable fs c0 ps c"
  unfolding durable_def load_same_on manifest_named_same_on by (simp add: same_on_def kept_def)

lemma recovers_same_on: "same_on kept fs fs' \<Longrightarrow> recovers fs' c = recovers fs c"
  by (simp add: recovers_def durable_same_on)


text \<open>The log plays no part in the loading of the segments.\<close>

lemma load_other_wal:
  assumes "\<And>name. name \<noteq> wal_file \<Longrightarrow> map_of fs' name = map_of fs name"
  shows "load_current_segments fs' c = load_current_segments fs c" "manifest_named fs' = manifest_named fs"
proof -
  have "name \<noteq> wal_file" if "manifest_of fs = Inr (Some m)" "name \<in> set (m_segments m)" for m name
  proof -
    have "prefix ''segment-'' name"
      using that decode_manifest_names(3) unfolding manifest_of_Some by blast
    then show ?thesis by auto
  qed
  then show "load_current_segments fs' c = load_current_segments fs c"
    by (intro load_cong assms) (simp, blast)
  show "manifest_named fs' = manifest_named fs"
    using assms [of manifest_file] by (simp add: manifest_named_def manifest_of_def)
qed

lemma durable_new_log:
  assumes "durable fs c0 ps c" "\<And>name. name \<noteq> wal_file \<Longrightarrow> map_of fs' name = map_of fs name"
    and "map_of fs' wal_file = Some wal" "torn_log wal qs" "replay c0 [] qs = Inr (c1, dirty)" "same_collection c1 c'"
    and "config c' = config c"
  shows "durable fs' c0 qs c'"
  using assms load_other_wal [OF assms(2)] unfolding durable_def by auto

section \<open>Opening a directory\<close>

text \<open>From now on every operation on the disk succeeds.\<close>

definition calm :: "disk \<Rightarrow> bool" where
  "calm d \<longleftrightarrow> (\<forall>t \<ge> dk_clock d. dk_faults d t = None)"

lemma fs_op_calm:
  "calm d \<Longrightarrow> fs_op effect torn d = (d\<lparr>dk_clock := Suc (dk_clock d), dk_files := effect (dk_files d)\<rparr>, Inr ())"
  by (simp add: calm_def fs_op_def Let_def)

lemma calm_later [simp]:
  "calm d \<Longrightarrow> dk_clock d \<le> t \<Longrightarrow> calm (d\<lparr>dk_clock := t\<rparr>)"
  "calm d \<Longrightarrow> dk_clock d \<le> t \<Longrightarrow> calm (d\<lparr>dk_clock := t, dk_files := fs\<rparr>)"
  by (simp_all add: calm_def)

lemma calm_locked [simp]: "calm (d\<lparr>dk_locked := b\<rparr>) = calm d"
  by (simp add: calm_def)

lemma decoded_segment_fits:
  assumes "decode_segment_mapped bs = Inr s"
  shows "ix_dimension (ds_index s) = dimension (ds_config s)" "ix_metric (ds_index s) = config_metric (ds_config s)"
proof -
  obtain s' where "check_graph s' = Inr s"
    using assms
    by (auto simp: decode_segment_mapped_def decode_segment_inner_def Let_def rbind_eq_Inr split: if_splits)
  then show "ix_dimension (ds_index s) = dimension (ds_config s)" "ix_metric (ds_index s) = config_metric (ds_config s)"
    by (auto simp: check_graph_def Let_def split: if_splits)
qed

lemma apply_segment_config: "apply_segment c s = Inr c' \<Longrightarrow> config c' = config c"
  by (auto simp: apply_segment_def restore_stored_snapshot_def Let_def rbind_eq_Inr split: if_splits prod.splits)

lemma load_segments_config:
  "load_segments fs m position previous c ixs names = Inr (c', ixs') \<Longrightarrow> config c' = config c"
  by (induction names arbitrary: position previous c ixs)
    (auto simp: rbind_eq_Inr dest!: apply_segment_config split: if_splits)

lemma load_segments_fit:
  "load_segments fs m position previous c ixs names = Inr (c', ixs') \<Longrightarrow> list_all (segment_fits (config c)) ixs \<Longrightarrow>
     list_all (segment_fits (config c)) ixs'"
proof (induction names arbitrary: position previous c ixs)
  case (Cons name names)
  obtain bs s c1 where s: "decode_segment_mapped bs = Inr s" "check_segment (config c) m position previous s = Inr ()"
      "apply_segment c s = Inr c1"
    and rest: "load_segments fs m (position + 1) (ds_sequence s) c1 (push_index (ds_sequence s) (ds_index s) ixs) names = Inr (c', ixs')"
    using Cons.prems(1) by (auto simp: rbind_eq_Inr split: if_splits)
  have "ds_config s = config c"
    using s(2) by (auto simp: check_segment_def split: if_splits)
  then have "list_all (segment_fits (config c)) (push_index (ds_sequence s) (ds_index s) ixs)"
    using Cons.prems(2) decoded_segment_fits [OF s(1)] by (auto simp: push_index_def segment_fits_def [of _ "\<lparr>is_sequence = _, is_index = _, is_pool = _\<rparr>"])
  then show ?case
    using Cons.IH [OF rest] apply_segment_config [OF s(3)] by simp
qed simp

lemma load_current_cases:
  assumes "load_current_segments fs c = Inr (c', loaded)"
  obtains (fresh) "manifest_of fs = Inr None" "c' = c" "loaded = None"
  | (segments) m ixs where "manifest_of fs = Inr (Some m)" "load_segments fs m 0 0 c [] (m_segments m) = Inr (c', ixs)"
      "loaded = Some (ixs, index_points (snapshot_stored_points c'))"
  using assms by (auto simp: load_current_segments_def rbind_eq_Inr split: option.splits)

lemma load_current_config:
  assumes "load_current_segments fs c = Inr (c', loaded)"
  shows "config c' = config c"
    "list_all (segment_fits (config c)) (case loaded of None \<Rightarrow> [] | Some (ixs, _) \<Rightarrow> ixs)"
  using assms by (auto elim!: load_current_cases dest: load_segments_config load_segments_fit)


text \<open>What searches and writes need of an open collection.\<close>

definition ready :: "persistent \<Rightarrow> bool" where
  "ready pc \<longleftrightarrow> collection_ok (pc_inner pc) \<and> distinct (pc_dirty pc) \<and> metadata_ok pc \<and>
     list_all (segment_fits (config (pc_inner pc))) (pc_indexes pc)"

lemma map_of_snapshot: "collection_ok c \<Longrightarrow> map_of (by_id (snapshot_stored_points c)) = get_stored c"
  using get_stored_restored [of c c] by (simp add: fun_eq_iff get_stored_def)

lemma metadata_of_snapshot:
  assumes "collection_ok c0" "\<And>i. i \<notin> set (pc_dirty pc) \<Longrightarrow> collection_get c0 i = collection_get (pc_inner pc) i"
    and "pc_metadata pc = Some (index_points (snapshot_stored_points c0))"
  shows "metadata_ok pc"
proof -
  let ?ps = "snapshot_stored_points c0"
  have "map_of (by_id ?ps) = get_stored c0"
    using assms(1) by (rule map_of_snapshot)
  moreover have "map_option sp_metadata (get_stored c0 i) = map_option sp_metadata (get_stored (pc_inner pc) i)"
    if "i \<notin> set (pc_dirty pc)" for i
  proof -
    have "map_option p_metadata (collection_get c0 i) = map_option p_metadata (collection_get (pc_inner pc) i)"
      using assms(2) [OF that] by simp
    then show ?thesis
      by (simp add: collection_get_stored option.map_comp comp_def to_owned_point_def)
  qed
  moreover have "list_all (\<lambda>p. bt_wf (sp_metadata p)) ?ps"
    using assms(1) by (auto simp: collection_ok_def stored_ok_def list_all_iff snapshot_stored_points_def
        stored_id.sort_by_sort_key)
  ultimately show ?thesis
    using assms(3) distinct_snapshot_ids [OF assms(1)] by (auto simp: metadata_ok_def intro!: exI [of _ ?ps])
qed


text \<open>
  The state of an open collection and its directory: the segments give \<open>c0\<close>, the log consists of the
  whole records \<open>ps\<close>, which lead to the points in memory, and what they wrote is marked dirty.
\<close>

definition running :: "persistent \<Rightarrow> collection \<Rightarrow> bytes list \<Rightarrow> bool" where
  "running pc c0 ps \<longleftrightarrow> ready pc \<and> durable (dk_files (pc_disk pc)) c0 ps (pc_inner pc) \<and>
     file_of (pc_disk pc) wal_file = Some (log_of ps) \<and>
     (\<exists>c1 dirty. replay c0 [] ps = Inr (c1, dirty) \<and> set dirty \<subseteq> set (pc_dirty pc)) \<and>
     (pc_dirty pc \<noteq> [] \<longrightarrow> sequence c0 < sequence (pc_inner pc))"

lemma ensure_metadata_known:
  assumes "file_of d meta_file = Some bs" "decode_metadata bs = Inr cfg"
  shows "ensure_metadata cfg d = (d, Inr ())"
  using assms by (simp add: ensure_metadata_def alift_def)

lemma recover_wal_torn:
  assumes "calm d" "file_of d wal_file = Some wal" "torn_log wal ps" "replay c0 [] ps = Inr (c1, dirty)"
  shows "\<exists>d'. recover_wal c0 d = (d', Inr (c1, dirty)) \<and>
    map_of (dk_files d') = (map_of (dk_files d))(wal_file \<mapsto> log_of ps) \<and> calm d' \<and>
    dk_locked d' = dk_locked d"
proof -
  obtain q n where q: "n < length (frame q)" "wal = log_of ps @ take n (frame q)"
    using assms(3) by (auto simp: torn_log_def)
  have rec: "recover wal c0 = Inr (log_of ps, c1, dirty)"
    unfolding recover_torn_log [OF assms(3)] assms(4) by simp
  show ?thesis
  proof (cases "length (log_of ps) < length wal")
    case True
    then show ?thesis
      using assms(1,2) rec q(2)
      by (simp add: recover_wal_def abind_def fs_read_def alift_def fs_set_len_def fs_op_calm areturn_def update_conv')
  next
    case False
    then have "wal = log_of ps"
      using q by (cases n) auto
    then show ?thesis
      using assms(1,2) rec
      by (auto simp: recover_wal_def abind_def fs_read_def alift_def areturn_def)
  qed
qed

lemma replay_collection_ok:
  assumes "replay c0 [] ps = Inr (c1, dirty)" "same_collection c1 c" "collection_ok c0" "collection_ok c"
  shows "collection_ok c1"
proof -
  have "keyed c0"
    using assms(3) unfolding collection_ok_def keyed_def list_all_iff by auto
  then show ?thesis
    using keyed_collection_ok [OF replay_keyed [OF assms(1)] assms(2,4)] by simp
qed

lemma open_locked_durable:
  assumes dur: "durable (dk_files d) c0 ps c" and "calm d" "cuda_mode cuda \<noteq> CudaRequired" "collection_ok c"
  shows "\<exists>d' pc. open_locked (config c) dur cuda d = (d', Inr pc) \<and> pc_disk pc = d' \<and> calm d' \<and> dk_locked d' = dk_locked d \<and>
    running pc c0 ps \<and> same_collection (pc_inner pc) c"
proof -
  obtain bs loaded wal c1 dirty where bs: "file_of d meta_file = Some bs" "decode_metadata bs = Inr (config c)"
    and loaded: "load_current_segments (dk_files d) (empty_collection (config c)) = Inr (c0, loaded)"
    and wal: "file_of d wal_file = Some wal" "torn_log wal ps"
    and c1: "replay c0 [] ps = Inr (c1, dirty)" "same_collection c1 c" and c0: "collection_ok c0"
    using dur unfolding durable_def by blast
  obtain d' where d': "recover_wal c0 d = (d', Inr (c1, dirty))"
    "map_of (dk_files d') = (map_of (dk_files d))(wal_file \<mapsto> log_of ps)" "calm d'" "dk_locked d' = dk_locked d"
    using recover_wal_torn [OF assms(2) wal c1(1)] by blast
  have new: "collection_new (config c) = Inr (empty_collection (config c))"
    using assms(4) by (simp add: collection_new_def empty_collection_def collection_ok_def)
  define pc where "pc = \<lparr>pc_inner = c1, pc_disk = d', pc_durability = dur,
       pc_indexes = (case loaded of None \<Rightarrow> [] | Some (ixs, _) \<Rightarrow> ixs),
       pc_metadata = map_option snd loaded, pc_dirty = dirty, pc_cuda = cuda\<rparr>"
  have "open_locked (config c) dur cuda d = (d', Inr pc)"
    using assms(3) wal(1) new loaded d'(1)
    by (simp add: open_locked_def abind_def ensure_metadata_known [OF bs] fs_create_def alift_def aget_def areturn_def pc_def)
  moreover have "ready pc"
  proof -
    have ok: "collection_ok c1"
      using replay_collection_ok [OF c1(1,2) c0 assms(4)] .
    have "metadata_ok pc"
      using loaded
    proof (cases rule: load_current_cases)
      case fresh
      then show ?thesis by (simp add: metadata_ok_def pc_def)
    next
      case segments
      then show ?thesis
        using replay_reached [OF c1(1)] by (intro metadata_of_snapshot [OF c0]) (auto simp: pc_def)
    qed
    then show ?thesis
      using ok replay_reached [OF c1(1)] load_current_config [OF loaded] c1(2)
      by (simp add: ready_def pc_def same_collection_def)
  qed
  moreover have "durable (dk_files d') c0 ps (pc_inner pc)"
  proof -
    have "torn_log (log_of ps) ps"
      using wal(2) by (intro torn_log_whole) (simp add: torn_log_def)
    then show ?thesis
      using d'(2) c1 by (intro durable_new_log [OF dur]) (auto simp: pc_def same_collection_def)
  qed
  moreover have "\<exists>c1 dirty. replay c0 [] ps = Inr (c1, dirty) \<and> set dirty \<subseteq> set (pc_dirty pc)"
    using c1(1) by (auto simp: pc_def)
  moreover have "pc_dirty pc \<noteq> [] \<longrightarrow> sequence c0 < sequence (pc_inner pc)"
    using replay_reached [OF c1(1)] by (simp add: pc_def)
  ultimately show ?thesis
    using c1(2) d' by (auto simp: running_def pc_def)
qed

text \<open>Opening up to the moment the lock is held.\<close>

lemma open_takes_lock:
  assumes "calm d" "\<not> dk_locked d"
  shows "\<exists>d1. open_with_cuda cfg dur cuda d = on_error (open_locked cfg dur cuda) unlock d1 \<and> calm d1 \<and> dk_locked d1 \<and>
    (\<forall>name. name \<noteq> lock_file \<longrightarrow> file_of d1 name = file_of d name)"
proof -
  define d0 where "d0 = d\<lparr>dk_clock := Suc (dk_clock d)\<rparr>"
  define d1 where "d1 = fst (fs_create lock_file d0)"
  have d1: "fs_sync d = (d0, Inr ())" "fs_create lock_file d0 = (d1, Inr ())"
      "calm d1" "\<not> dk_locked d1" "\<forall>name. name \<noteq> lock_file \<longrightarrow> file_of d1 name = file_of d name"
    using assms by (auto simp: d0_def d1_def fs_sync_def fs_op_calm fs_create_def update_conv' split: option.splits)
  then show ?thesis
    by (intro exI [of _ "d1\<lparr>dk_locked := True\<rparr>"]) (simp add: open_with_cuda_def try_lock_def abind_def)
qed

lemma open_durable:
  assumes "durable (dk_files d) c0 ps c" "calm d" "\<not> dk_locked d" "cuda_mode cuda \<noteq> CudaRequired" "collection_ok c"
  shows "\<exists>d' pc. open_with_cuda (config c) dur cuda d = (d', Inr pc) \<and> pc_disk pc = d' \<and> calm d' \<and> dk_locked d' \<and>
    running pc c0 ps \<and> same_collection (pc_inner pc) c"
proof -
  obtain d1 where d1: "open_with_cuda (config c) dur cuda d = on_error (open_locked (config c) dur cuda) unlock d1"
      "calm d1" "dk_locked d1" "\<forall>name. name \<noteq> lock_file \<longrightarrow> file_of d1 name = file_of d name"
    using open_takes_lock [OF assms(2,3)] by blast
  have "same_on kept (dk_files d) (dk_files d1)"
    using d1(4) by (auto simp: same_on_def kept_def prefix_def)
  then have "durable (dk_files d1) c0 ps c"
    using assms(1) durable_same_on by blast
  from open_locked_durable [OF this d1(2) assms(4,5), of dur] show ?thesis
    using d1(1,3) by (auto simp: on_error_def)
qed

section \<open>Writing to an open collection\<close>

lemma wal_append_cases:
  assumes "file_of d wal_file = Some wal" "frame_ok payload" "wal_append payload d = (d', r)"
  obtains (appended) "r = Inr ()" "map_of (dk_files d') = (map_of (dk_files d))(wal_file \<mapsto> wal @ frame payload)"
  | (failed) n msg where "r = Inl (Io msg)"
      "map_of (dk_files d') = (map_of (dk_files d))(wal_file \<mapsto> wal @ take n (frame payload))"
proof -
  have len: "length payload < 2 ^ 32"
    using assms(2) by (simp add: frame_ok_def max_frame_bytes_def)
  show thesis
  proof (cases "dk_faults d (dk_clock d)")
    case None
    then show thesis
      using assms(1,3) len by (intro appended) (auto simp: wal_append_def append_frame_def update_conv')
  next
    case (Some f)
    obtain n msg where f: "f = Fault n msg"
      by (cases f)
    define m where "m = (if dk_faults d (Suc (dk_clock d)) = None then 0 else n)"
    have "r = Inl (Io msg)" "map_of (dk_files d') = (map_of (dk_files d))(wal_file \<mapsto> wal @ take m (frame payload))"
      using Some f assms(1,3) len by (auto simp: wal_append_def append_frame_def Let_def update_conv' m_def)
    then show thesis by (rule failed)
  qed
qed

lemma log_of_snoc [simp]: "log_of (ps @ [p]) = log_of ps @ frame p"
  by (simp add: log_of_def)

text \<open>A record that reached the log, whole or in part, behind the others.\<close>

lemma durable_append:
  assumes run: "running pc c0 ps" and app: "apply_payload (pc_inner pc) p = Inr (ids, c')" and "frame_ok p"
    and files: "map_of fs' = (map_of (dk_files (pc_disk pc)))(wal_file \<mapsto> log_of ps @ take n (frame p))"
  shows "n < length (frame p) \<Longrightarrow> durable fs' c0 ps (pc_inner pc)"
    "length (frame p) \<le> n \<Longrightarrow> durable fs' c0 (ps @ [p]) c' \<and>
       (\<exists>c1 dirty. replay c0 [] (ps @ [p]) = Inr (c1, dirty) \<and> set dirty \<subseteq> set (pc_dirty pc) \<union> set ids)"
proof -
  have dur: "durable (dk_files (pc_disk pc)) c0 ps (pc_inner pc)"
    using run by (simp add: running_def)
  obtain wal where "torn_log wal ps"
    using dur by (auto simp: durable_def)
  then have frames: "list_all frame_ok ps"
    by (simp add: torn_log_def)
  obtain c1 dirty where c1: "replay c0 [] ps = Inr (c1, dirty)" "same_collection c1 (pc_inner pc)"
      "set dirty \<subseteq> set (pc_dirty pc)"
    using run dur by (auto simp: running_def durable_def)
  show "durable fs' c0 ps (pc_inner pc)" if "n < length (frame p)"
  proof (rule durable_new_log [OF dur _ _ _ c1(1,2)])
    show "torn_log (log_of ps @ take n (frame p)) ps"
      using frames assms(3) that unfolding torn_log_def by blast
  qed (simp_all add: files)
  show "durable fs' c0 (ps @ [p]) c' \<and>
       (\<exists>c1 dirty. replay c0 [] (ps @ [p]) = Inr (c1, dirty) \<and> set dirty \<subseteq> set (pc_dirty pc) \<union> set ids)" if "length (frame p) \<le> n"
  proof -
    obtain c2 where c2: "apply_payload c1 p = Inr (ids, c2)" "same_collection c' c2"
      using apply_payload_same [OF app same_collection_sym [OF c1(2)]] by blast
    have rep: "replay c0 [] (ps @ [p]) = Inr (c2, hs_extend dirty ids)"
      using c1(1) c2(1) by (simp add: replay_append)
    have "config c' = config (pc_inner pc)"
      using apply_payload_reached(1) [OF app] .
    moreover have "torn_log (log_of ps @ frame p) (ps @ [p])"
      using frames assms(3) torn_log_whole [of "ps @ [p]"] by simp
    ultimately have "durable fs' c0 (ps @ [p]) c'"
      using that by (intro durable_new_log [OF dur _ _ _ rep same_collection_sym [OF c2(2)]]) (auto simp: files)
    then show ?thesis
      using rep c1(3) by auto
  qed
qed

lemma running_sequence:
  assumes "running pc c0 ps"
  shows "sequence c0 \<le> sequence (pc_inner pc)" "pc_dirty pc \<noteq> [] \<Longrightarrow> sequence c0 < sequence (pc_inner pc)"
proof -
  obtain c1 dirty where c1: "replay c0 [] ps = Inr (c1, dirty)" "same_collection c1 (pc_inner pc)"
    using assms unfolding running_def durable_def by blast
  show "sequence c0 \<le> sequence (pc_inner pc)"
    using replay_reached [OF c1(1)] c1(2) unfolding same_collection_def by simp
qed (use assms in \<open>simp add: running_def\<close>)

text \<open>A write: its record in the log, then its effect on the points and the dirty IDs.\<close>

definition logged_write :: "bytes \<Rightarrow> collection \<Rightarrow> string list \<Rightarrow> u64 \<Rightarrow> (persistent, u64) action" where
  "logged_write payload c' ids seq =
     abind (on_disk (wal_append payload)) (\<lambda>_.
     abind (aput (\<lambda>pc. pc\<lparr>pc_inner := c', pc_dirty := hs_extend (pc_dirty pc) ids\<rparr>)) (\<lambda>_. areturn seq))"

lemma metadata_ok_write:
  assumes "metadata_ok pc" "\<And>i. i \<notin> set ids \<Longrightarrow> get_stored c' i = get_stored (pc_inner pc) i"
  shows "metadata_ok (pc\<lparr>pc_disk := d, pc_inner := c', pc_dirty := hs_extend (pc_dirty pc) ids\<rparr>)"
  using assms by (fastforce simp: metadata_ok_def split: option.splits)

text \<open>
  What every write leaves behind, whatever the disk does: after a success the new state in memory, with
  the directory following it; after a failure the old state in memory, and a directory that recovers to
  the state before or after the write.
\<close>

lemma logged_write_outcome:
  assumes run: "running pc c0 ps" and app: "apply_payload (pc_inner pc) p = Inr (ids, c')" and "frame_ok p"
    and ok: "collection_ok c'" and other: "\<And>i. i \<notin> set ids \<Longrightarrow> get_stored c' i = get_stored (pc_inner pc) i"
    and step: "logged_write p c' ids seq pc = (pc', r)"
  shows "case r of
      Inr seq' \<Rightarrow> seq' = seq \<and> pc_inner pc' = c' \<and> running pc' c0 (ps @ [p])
    | Inl e \<Rightarrow> (\<exists>msg. e = Io msg) \<and> pc_inner pc' = pc_inner pc \<and>
        (recovers (dk_files (pc_disk pc')) (pc_inner pc) \<or> recovers (dk_files (pc_disk pc')) c')"
proof -
  obtain d' w where w: "wal_append p (pc_disk pc) = (d', w)"
    by (cases "wal_append p (pc_disk pc)")
  have wal: "file_of (pc_disk pc) wal_file = Some (log_of ps)" and "ready pc"
    using run by (simp_all add: running_def)
  from wal assms(3) w show ?thesis
  proof (cases rule: wal_append_cases)
    case appended
    let ?pc' = "pc\<lparr>pc_disk := d', pc_inner := c', pc_dirty := hs_extend (pc_dirty pc) ids\<rparr>"
    have step': "pc' = ?pc'" "r = Inr seq"
      using step w appended(1) by (auto simp: logged_write_def abind_def on_disk_def aput_def areturn_def)
    have "map_of (dk_files d') = (map_of (dk_files (pc_disk pc)))(wal_file \<mapsto> log_of ps @ take (length (frame p)) (frame p))"
      using appended(2) by simp
    from durable_append(2) [OF run app assms(3) this order_refl]
    have "durable (dk_files d') c0 (ps @ [p]) c'"
        "\<exists>c1 dirty. replay c0 [] (ps @ [p]) = Inr (c1, dirty) \<and> set dirty \<subseteq> set (pc_dirty pc) \<union> set ids"
      by simp_all
    moreover have "ready ?pc'"
      using \<open>ready pc\<close> ok metadata_ok_write [OF _ other] apply_payload_reached(1) [OF app] by (simp add: ready_def)
    moreover have "hs_extend (pc_dirty pc) ids \<noteq> [] \<longrightarrow> sequence c0 < sequence c'"
      using running_sequence [OF run] apply_payload_reached(2,5) [OF app] by (cases "ids = []") auto
    ultimately have "running ?pc' c0 (ps @ [p])"
      using appended(2) by (simp add: running_def)
    then show ?thesis
      using step' by simp
  next
    case (failed n msg)
    then have "pc' = pc\<lparr>pc_disk := d'\<rparr>" "r = Inl (Io msg)"
      using step w by (auto simp: logged_write_def abind_def on_disk_def)
    moreover have "recovers (dk_files d') (pc_inner pc) \<or> recovers (dk_files d') c'"
      using durable_append [OF run app assms(3) failed(2)] not_le unfolding recovers_def by blast
    ultimately show ?thesis by simp
  qed
qed

section \<open>Sessions\<close>

datatype write_request = WriteUpsert "upsert_point list" | WriteDelete "string list"

fun perform :: "write_request \<Rightarrow> (persistent, u64) action" where
  "perform (WriteUpsert ps) = persistent_upsert ps"
| "perform (WriteDelete ids) = persistent_delete ids"

text \<open>What a write means for the points, and the points it leaves: those from before when it is refused.\<close>

fun write_effect :: "collection \<Rightarrow> write_request \<Rightarrow> (u64 \<times> collection) result" where
  "write_effect c (WriteUpsert ps) = collection_upsert c ps"
| "write_effect c (WriteDelete ids) =
     (if ids = [] then Inl (InvalidQuery ''delete batch must not be empty'')
      else if [] \<in> set ids then Inl (InvalidQuery ''point ID must not be empty'')
      else collection_delete c ids)"

definition settle :: "collection \<Rightarrow> write_request \<Rightarrow> collection" where
  "settle c w = (case write_effect c w of Inl _ \<Rightarrow> c | Inr (_, c') \<Rightarrow> c')"

text \<open>
  The writes whose records the recovery accepts: within the limits of its decoder, and with vectors that
  are prepared to themselves (all finite ones, for the metrics that do not normalise).
\<close>

fun loggable :: "collection \<Rightarrow> write_request \<Rightarrow> bool" where
  "loggable c (WriteUpsert ps) =
     (case rbind (next_sequence c) (\<lambda>seq. rbind (prepare_upsert c ps seq) (\<lambda>prepared. Inr (seq, prepared))) of
      Inl _ \<Rightarrow> True
    | Inr (seq, prepared) \<Rightarrow> (case encode_upsert seq prepared of Inl _ \<Rightarrow> False
      | Inr payload \<Rightarrow> frame_ok payload \<and> length prepared \<le> max_items \<and>
          list_all (point_ok (dimension (config c))) prepared \<and>
          list_all (\<lambda>p. prepare (config_metric (config c)) (as_slice (sp_vector p)) = Inr (as_slice (sp_vector p))) prepared))"
| "loggable c (WriteDelete ids) =
     (case next_sequence c of Inl _ \<Rightarrow> True
    | Inr seq \<Rightarrow> (case encode_delete seq ids of Inl _ \<Rightarrow> False
      | Inr payload \<Rightarrow> frame_ok payload \<and> length ids \<le> max_items \<and> list_all string_ok ids))"

lemma frame_ok_usize: "frame_ok p \<Longrightarrow> length p \<le> usize_max"
  by (simp add: frame_ok_def max_frame_bytes_def usize_max_def)

lemma prepare_again:
  assumes "prepare_upsert c ps seq = Inr prepared"
    and "list_all (\<lambda>p. prepare (config_metric (config c)) (as_slice (sp_vector p)) = Inr (as_slice (sp_vector p))) prepared"
    and "list_all (\<lambda>p. length (as_slice (sp_vector p)) = dimension (config c)) prepared"
  shows "prepare_upsert c (map upsert_of prepared) seq = Inr prepared"
proof -
  have "list_all2 (\<lambda>p sp. prepare_point (config c) seq p = Inr sp) ps prepared" "ps \<noteq> []"
    using assms(1) by (auto simp: prepare_upsert_def try_map_eq_Inr split: if_splits)
  moreover from this(1) assms(2,3) have "list_all2 (\<lambda>p sp. prepare_point (config c) seq p = Inr sp) (map upsert_of prepared) prepared"
    by (induction rule: list_all2_induct) (auto simp: prepare_point_Inr upsert_of_def)
  ultimately show ?thesis
    by (auto simp: prepare_upsert_def try_map_eq_Inr)
qed

lemma upsert_record:
  assumes "next_sequence c = Inr seq" "prepare_upsert c ps seq = Inr prepared" "encode_upsert seq prepared = Inr payload"
    and "loggable c (WriteUpsert ps)"
  shows "apply_payload c payload = Inr (map sp_id prepared, apply_prepared_upsert c prepared seq)" "frame_ok payload"
    "list_all (point_ok (dimension (config c))) prepared"
proof -
  have ok: "frame_ok payload" "length prepared \<le> max_items" "list_all (point_ok (dimension (config c))) prepared"
    "list_all (\<lambda>p. prepare (config_metric (config c)) (as_slice (sp_vector p)) = Inr (as_slice (sp_vector p))) prepared"
    using assms by simp_all
  have "prepare_upsert c (map upsert_of prepared) seq = Inr prepared"
    using ok(3) by (intro prepare_again [OF assms(2) ok(4)]) (auto simp: list_all_iff point_ok_def)
  then show "apply_payload c payload = Inr (map sp_id prepared, apply_prepared_upsert c prepared seq)"
    using apply_upsert_payload [OF assms(3) frame_ok_usize [OF ok(1)] assms(1) ok(3,2)] by simp
qed (use assms in simp_all)

lemma delete_record:
  assumes "next_sequence c = Inr seq" "encode_delete seq ids = Inr payload" "ids \<noteq> []" "loggable c (WriteDelete ids)"
  shows "apply_payload c payload = Inr (ids, apply_delete_at c ids seq)" "frame_ok payload"
proof -
  have ok: "frame_ok payload" "length ids \<le> max_items" "list_all string_ok ids"
    using assms by simp_all
  then show "apply_payload c payload = Inr (ids, apply_delete_at c ids seq)" "frame_ok payload"
    using apply_delete_payload [OF assms(2) frame_ok_usize [OF ok(1)] assms(1) ok(3,2) assms(3)] by simp_all
qed

lemma upsert_collection_ok:
  assumes "collection_ok c" "next_sequence c = Inr seq" "prepare_upsert c ps seq = Inr prepared"
    and "list_all (point_ok (dimension (config c))) prepared"
  shows "collection_ok (apply_prepared_upsert c prepared seq)"
proof -
  have "list_all2 (\<lambda>p sp. prepare_point (config c) seq p = Inr sp) ps prepared"
    using assms(3) by (auto simp: prepare_upsert_def try_map_eq_Inr split: if_splits)
  then have "list_all (\<lambda>sp. sp_id sp \<noteq> [] \<and> sp_sequence sp = seq) prepared"
    by (induction rule: list_all2_induct) (auto simp: prepare_point_Inr)
  then have "list_all (stored_ok (config c) seq) prepared"
    using assms(4) by (auto simp: list_all_iff stored_ok_def point_ok_def)
  then show ?thesis
    using assms(1) next_sequence_less [OF assms(2)] by (intro collection_ok_upsert) auto
qed

lemma stored_not_listed:
  "i \<notin> set (map sp_id ps) \<Longrightarrow> get_stored (apply_prepared_upsert c ps seq) i = get_stored c i"
  "i \<notin> set ids \<Longrightarrow> get_stored (apply_delete_at c ids seq) i = get_stored c i"
  by (auto simp: get_upserted get_deleted map_add_dom_app_simps(3) dom_map_of_conv_image_fst by_id_def image_image)

text \<open>Every write, on every disk.\<close>

definition write_outcome :: "persistent \<Rightarrow> collection \<Rightarrow> bytes list \<Rightarrow> write_request \<Rightarrow> persistent \<Rightarrow> u64 result \<Rightarrow> bool" where
  "write_outcome pc c0 ps w pc' r \<longleftrightarrow> (case r of
     Inr seq \<Rightarrow> write_effect (pc_inner pc) w = Inr (seq, pc_inner pc') \<and> (\<exists>qs. running pc' c0 (ps @ qs))
   | Inl (Io _) \<Rightarrow> pc_inner pc' = pc_inner pc \<and>
       (recovers (dk_files (pc_disk pc')) (pc_inner pc) \<or> recovers (dk_files (pc_disk pc')) (settle (pc_inner pc) w))
   | Inl _ \<Rightarrow> pc' = pc \<and> settle (pc_inner pc) w = pc_inner pc)"

lemma write_refused:
  assumes "running pc c0 ps" "settle (pc_inner pc) w = pc_inner pc"
  shows "write_outcome pc c0 ps w pc (Inl e)"
proof -
  have "recovers (dk_files (pc_disk pc)) (pc_inner pc)"
    using assms(1) unfolding running_def recovers_def by blast
  then show ?thesis
    using assms(2) by (simp add: write_outcome_def split: error.split)
qed

lemma write_logged:
  assumes "running pc c0 ps" "apply_payload (pc_inner pc) p = Inr (ids, c')" "frame_ok p" "collection_ok c'"
    and "\<And>i. i \<notin> set ids \<Longrightarrow> get_stored c' i = get_stored (pc_inner pc) i"
    and "logged_write p c' ids seq pc = (pc', r)" "write_effect (pc_inner pc) w = Inr (seq, c')"
  shows "write_outcome pc c0 ps w pc' r"
  using logged_write_outcome [OF assms(1-6)] assms(7)
  by (auto simp: write_outcome_def settle_def split: sum.splits error.splits)

lemma running_ok: "running pc c0 ps \<Longrightarrow> collection_ok (pc_inner pc)"
  by (simp add: running_def ready_def)

lemma perform_upsert:
  assumes run: "running pc c0 ps" and log: "loggable (pc_inner pc) (WriteUpsert batch)"
    and step: "persistent_upsert batch pc = (pc', r)"
  shows "write_outcome pc c0 ps (WriteUpsert batch) pc' r"
proof (cases "collection_upsert (pc_inner pc) batch")
  case (Inl e)
  then have "pc' = pc \<and> (\<exists>e'. r = Inl e')"
    using step by (auto simp: persistent_upsert_def collection_upsert_def abind_def aget_def alift_def rbind_def
        intro: sym split: sum.splits)
  then show ?thesis
    using write_refused [OF run] Inl by (auto simp: settle_def)
next
  case (Inr x)
  then obtain seq prepared where seq: "next_sequence (pc_inner pc) = Inr seq"
    and prep: "prepare_upsert (pc_inner pc) batch seq = Inr prepared"
    and x: "x = (seq, apply_prepared_upsert (pc_inner pc) prepared seq)"
    by (auto simp: collection_upsert_def rbind_eq_Inr)
  obtain payload where enc: "encode_upsert seq prepared = Inr payload"
    using log seq prep by (auto split: sum.splits)
  note logged = upsert_record [OF seq prep enc log]
  have "logged_write payload (apply_prepared_upsert (pc_inner pc) prepared seq) (map sp_id prepared) seq pc = (pc', r)"
    using step seq prep enc
    by (auto simp: persistent_upsert_def logged_write_def abind_def aget_def alift_def on_disk_def aput_def areturn_def
        split: prod.splits sum.splits)
  then show ?thesis
    using Inr x upsert_collection_ok [OF running_ok [OF run] seq prep logged(3)]
    by (intro write_logged [OF run logged(1,2)]) (auto simp: stored_not_listed)
qed

lemma perform_delete:
  assumes run: "running pc c0 ps" and log: "loggable (pc_inner pc) (WriteDelete ids)"
    and step: "persistent_delete ids pc = (pc', r)"
  shows "write_outcome pc c0 ps (WriteDelete ids) pc' r"
proof (cases "write_effect (pc_inner pc) (WriteDelete ids)")
  case (Inl e)
  then have "pc' = pc \<and> (\<exists>e'. r = Inl e')"
    using step by (auto simp: persistent_delete_def collection_delete_def abind_def aget_def alift_def rbind_def
        intro: sym split: sum.splits if_splits)
  then show ?thesis
    using write_refused [OF run] Inl by (auto simp: settle_def)
next
  case (Inr x)
  then obtain seq where seq: "next_sequence (pc_inner pc) = Inr seq" and ids: "ids \<noteq> []" "[] \<notin> set ids"
    and x: "x = (seq, apply_delete_at (pc_inner pc) ids seq)"
    by (auto simp: collection_delete_def rbind_eq_Inr split: if_splits)
  obtain payload where enc: "encode_delete seq ids = Inr payload"
    using log seq by (auto split: sum.splits)
  note logged = delete_record [OF seq enc ids(1) log]
  have "logged_write payload (apply_delete_at (pc_inner pc) ids seq) ids seq pc = (pc', r)"
    using step seq ids enc
    by (auto simp: persistent_delete_def logged_write_def abind_def aget_def alift_def on_disk_def aput_def areturn_def
        split: prod.splits sum.splits)
  moreover have "collection_ok (apply_delete_at (pc_inner pc) ids seq)"
    using next_sequence_less [OF seq] by (intro collection_ok_delete [OF running_ok [OF run]]) simp
  ultimately show ?thesis
    using Inr x by (intro write_logged [OF run logged]) (auto simp: stored_not_listed)
qed

lemma perform_outcome:
  "running pc c0 ps \<Longrightarrow> loggable (pc_inner pc) w \<Longrightarrow> perform w pc = (pc', r) \<Longrightarrow> write_outcome pc c0 ps w pc' r"
  by (cases w) (auto intro: perform_upsert perform_delete)

text \<open>
  A session performs writes one after the other. A refused write changes nothing and the session goes on;
  at an error of the disk it ends. The result is the state and the number of writes that were dealt with.
\<close>

fun session :: "write_request list \<Rightarrow> persistent \<Rightarrow> persistent \<times> nat" where
  "session [] pc = (pc, 0)"
| "session (w # ws) pc = (case perform w pc of
     (pc', Inl (Io _)) \<Rightarrow> (pc', 0)
   | (pc', _) \<Rightarrow> (case session ws pc' of (pc'', n) \<Rightarrow> (pc'', Suc n)))"

fun session_ok :: "collection \<Rightarrow> write_request list \<Rightarrow> bool" where
  "session_ok c [] \<longleftrightarrow> True"
| "session_ok c (w # ws) \<longleftrightarrow> loggable c w \<and> session_ok (settle c w) ws"

lemma settle_ok:
  assumes "collection_ok c" "loggable c w"
  shows "collection_ok (settle c w)" "config (settle c w) = config c"
proof -
  have "collection_ok (settle c w) \<and> config (settle c w) = config c"
  proof (cases "write_effect c w")
    case (Inr x)
    then show ?thesis
    proof (cases w)
      case (WriteUpsert batch)
      then obtain seq prepared where seq: "next_sequence c = Inr seq" "prepare_upsert c batch seq = Inr prepared"
          "settle c w = apply_prepared_upsert c prepared seq"
        using Inr by (auto simp: collection_upsert_def rbind_eq_Inr settle_def)
      have log: "loggable c (WriteUpsert batch)"
        using WriteUpsert assms(2) by simp
      then obtain payload where "encode_upsert seq prepared = Inr payload"
        using seq by (auto split: sum.splits)
      from upsert_record(3) [OF seq(1,2) this log] show ?thesis
        using upsert_collection_ok [OF assms(1) seq(1,2)] seq(3) by simp
    next
      case (WriteDelete ids)
      then obtain seq where "next_sequence c = Inr seq" "settle c w = apply_delete_at c ids seq"
        using Inr by (auto simp: collection_delete_def rbind_eq_Inr settle_def split: if_splits)
      then show ?thesis
        using collection_ok_delete [OF assms(1)] next_sequence_less by fastforce
    qed
  qed (use assms in \<open>simp add: settle_def\<close>)
  then show "collection_ok (settle c w)" "config (settle c w) = config c" by simp_all
qed

lemma session_outcome:
  assumes "running pc c0 ps" "session_ok (pc_inner pc) ws" "session ws pc = (pc', n)"
  shows "n \<le> length ws \<and> pc_inner pc' = foldl settle (pc_inner pc) (take n ws) \<and>
    (n = length ws \<longrightarrow> (\<exists>qs. running pc' c0 (ps @ qs))) \<and>
    (\<exists>m \<le> length ws. (m = n \<or> m = Suc n) \<and>
       recovers (dk_files (pc_disk pc')) (foldl settle (pc_inner pc) (take m ws)))"
  using assms
proof (induction ws arbitrary: pc ps n)
  case Nil
  then have "\<exists>qs. running pc c0 (ps @ qs)"
    by (metis append_Nil2)
  with Nil show ?case
    by (auto simp: running_def recovers_def)
next
  case (Cons w ws)
  let ?c = "pc_inner pc"
  obtain pc1 r where r: "perform w pc = (pc1, r)"
    by (cases "perform w pc")
  have out: "write_outcome pc c0 ps w pc1 r"
    using perform_outcome [OF Cons.prems(1) _ r] Cons.prems(2) by simp
  show ?case
  proof (cases "\<exists>msg. r = Inl (Io msg)")
    case True
    then have "pc' = pc1" "n = 0"
      using Cons.prems(3) r by auto
    moreover have "pc_inner pc1 = ?c"
      "recovers (dk_files (pc_disk pc1)) (foldl settle ?c (take 0 (w # ws))) \<or>
       recovers (dk_files (pc_disk pc1)) (foldl settle ?c (take (Suc 0) (w # ws)))"
      using out True by (auto simp: write_outcome_def)
    ultimately show ?thesis
      by (metis One_nat_def foldl_Nil le0 length_Cons not_less_eq_eq take0 take_0)
  next
    case False
    then obtain n' where n': "session ws pc1 = (pc', n')" "n = Suc n'"
      using Cons.prems(3) r by (auto split: prod.splits sum.splits error.splits)
    have stays: "\<exists>qs. running pc c0 (ps @ qs)"
      using Cons.prems(1) by (metis append_Nil2)
    have "pc_inner pc1 = settle ?c w \<and> (\<exists>qs. running pc1 c0 (ps @ qs))"
      using out False stays by (auto simp: write_outcome_def settle_def split: sum.splits error.splits)
    then obtain ps1 where c1: "pc_inner pc1 = settle ?c w" "running pc1 c0 (ps @ ps1)" by blast
    have "session_ok (pc_inner pc1) ws"
      using Cons.prems(2) c1(1) by simp
    from Cons.IH [OF c1(2) this n'(1)] obtain m where "n' \<le> length ws" "n' = length ws \<longrightarrow> (\<exists>qs. running pc' c0 ((ps @ ps1) @ qs))"
        "pc_inner pc' = foldl settle (settle ?c w) (take n' ws)" "m \<le> length ws" "m = n' \<or> m = Suc n'"
        "recovers (dk_files (pc_disk pc')) (foldl settle (settle ?c w) (take m ws))"
      unfolding c1(1) by blast
    then show ?thesis
      using n'(2) by (auto intro!: exI [of _ "Suc m"])
  qed
qed

lemma settled_ok:
  "collection_ok c \<Longrightarrow> session_ok c ws \<Longrightarrow> collection_ok (foldl settle c (take n ws)) \<and> config (foldl settle c (take n ws)) = config c"
proof (induction ws arbitrary: c n)
  case (Cons w ws)
  then show ?case
    using settle_ok [of c w] by (cases n) auto
qed simp


section \<open>New directories\<close>

lemma new_directory_durable:
  assumes "map_of fs meta_file = Some (encode_metadata cfg)" "map_of fs wal_file = Some []"
    and "map_of fs manifest_file = None" "0 < dimension cfg" "dimension cfg < 2 ^ 64"
  shows "durable fs (empty_collection cfg) [] (empty_collection cfg)"
proof -
  have "torn_log [] []"
    using torn_log_whole [of "[]"] by (simp add: log_of_def)
  moreover have "collection_ok (empty_collection cfg)"
    using assms(4) by (simp add: empty_collection_def collection_ok_def)
  ultimately show ?thesis
    using assms decode_own_metadata [OF assms(4,5)]
    by (simp add: durable_def load_current_segments_def manifest_of_def manifest_named_def)
qed

definition new_directory :: "directory \<Rightarrow> bool" where
  "new_directory fs \<longleftrightarrow> list_all (\<lambda>name. map_of fs name = None) [meta_file, meta_temporary, wal_file, manifest_file, lock_file]"

lemma open_locked_new:
  assumes "calm d" "list_all (\<lambda>name. file_of d name = None) [meta_file, meta_temporary, wal_file, manifest_file]"
    and "0 < dimension cfg" "dimension cfg < 2 ^ 64" "cuda_mode cuda \<noteq> CudaRequired"
  shows "\<exists>d' pc. open_locked cfg dur cuda d = (d', Inr pc) \<and> pc_disk pc = d' \<and> calm d' \<and> dk_locked d' = dk_locked d \<and>
    running pc (empty_collection cfg) [] \<and> same_collection (pc_inner pc) (empty_collection cfg)"
proof -
  let ?bs = "encode_metadata cfg"
  define d1 where "d1 = d\<lparr>dk_clock := Suc (Suc (Suc (dk_clock d))),
    dk_files := hm_insert meta_file ?bs (hm_remove meta_temporary (hm_insert meta_temporary ?bs (dk_files d)))\<rparr>"
  define d2 where "d2 = d1\<lparr>dk_clock := Suc (dk_clock d1), dk_files := hm_insert wal_file [] (dk_files d1)\<rparr>"
  have "ensure_metadata cfg d = (d1, Inr ())"
    using assms(1,2)
    by (simp add: ensure_metadata_def abind_def write_new_file_def fs_op_calm fs_rename_def fs_sync_def update_conv'
        delete_conv' d1_def usize_max_def)
  moreover have "fs_create wal_file d1 = (d2, Inr ())"
    using assms(1,2) by (simp add: fs_create_def d1_def d2_def fs_op_calm update_conv' delete_conv')
  moreover have d2: "file_of d2 meta_file = Some ?bs" "file_of d2 wal_file = Some []" "file_of d2 manifest_file = None"
      "calm d2" "dk_locked d2 = dk_locked d"
    using assms(1,2) by (simp_all add: d1_def d2_def update_conv' delete_conv')
  ultimately have "open_locked cfg dur cuda d = open_locked cfg dur cuda d2"
    using ensure_metadata_known [OF d2(1) decode_own_metadata [OF assms(3,4)]]
    by (simp add: open_locked_def abind_def fs_create_def)
  moreover have "collection_ok (empty_collection cfg)"
    using assms(3) by (simp add: empty_collection_def collection_ok_def)
  ultimately show ?thesis
    using open_locked_durable [OF new_directory_durable [OF d2(1-3) assms(3,4)] d2(4) assms(5)] d2(5) by simp
qed

text \<open>The directories in which the collection \<open>c\<close> can be opened: it is stored there, or it is empty and nothing is there.\<close>

definition openable :: "directory \<Rightarrow> collection \<Rightarrow> bool" where
  "openable fs c \<longleftrightarrow> recovers fs c \<and> collection_ok c \<or>
     new_directory fs \<and> c = empty_collection (config c) \<and> 0 < dimension (config c) \<and> dimension (config c) < 2 ^ 64"

text \<open>
  C29: opening returns. In a directory that holds a collection, with whole or torn log, and in a new one,
  opening without disk errors succeeds and gives the stored points, in a state that is ready for searches
  and writes and agrees with the directory.
\<close>

theorem open_succeeds:
  assumes "openable (dk_files d) c" "calm d" "\<not> dk_locked d" "cuda_mode cuda \<noteq> CudaRequired"
  shows "\<exists>d' pc c0 ps. open_with_cuda (config c) dur cuda d = (d', Inr pc) \<and> pc_disk pc = d' \<and> dk_locked d' \<and>
    running pc c0 ps \<and> same_collection (pc_inner pc) c"
proof (cases "recovers (dk_files d) c \<and> collection_ok c")
  case True
  then show ?thesis
    using open_durable [OF _ assms(2-4)] unfolding recovers_def by meson
next
  case False
  then have new: "new_directory (dk_files d)" "c = empty_collection (config c)" "0 < dimension (config c)" "dimension (config c) < 2 ^ 64"
    using assms(1) by (auto simp: openable_def)
  obtain d1 where d1: "open_with_cuda (config c) dur cuda d = on_error (open_locked (config c) dur cuda) unlock d1"
      "calm d1" "dk_locked d1" "\<forall>name. name \<noteq> lock_file \<longrightarrow> file_of d1 name = file_of d name"
    using open_takes_lock [OF assms(2,3)] by blast
  have "list_all (\<lambda>name. file_of d1 name = None) [meta_file, meta_temporary, wal_file, manifest_file]"
    using new(1) d1(4) by (simp add: new_directory_def)
  from open_locked_new [OF d1(2) this new(3,4) assms(4), of dur]
  obtain d' pc where "open_locked (config c) dur cuda d1 = (d', Inr pc)" "pc_disk pc = d'" "dk_locked d' = dk_locked d1"
      "running pc c []" "same_collection (pc_inner pc) c"
    using new(2) by auto
  then show ?thesis
    using d1(1,3) by (intro exI [of _ d'] exI [of _ pc] exI [of _ c] exI [of _ "[]"]) (simp add: on_error_def)
qed

text \<open>A disk on which only the operation at the given time fails.\<close>

definition fail_once :: "nat \<Rightarrow> nat \<Rightarrow> fault option" where
  "fail_once t u = (if u = t then Some (Fault 0 ''Input/output error (os error 5)'') else None)"

lemma open_leftover:
  assumes "calm d" "\<not> dk_locked d" "file_of d meta_file = None" "file_of d meta_temporary = Some bs"
  shows "snd (open_with_cuda cfg dur cuda d) = Inl file_exists"
proof -
  obtain d1 where d1: "open_with_cuda cfg dur cuda d = on_error (open_locked cfg dur cuda) unlock d1"
      "\<forall>name. name \<noteq> lock_file \<longrightarrow> file_of d1 name = file_of d name"
    using open_takes_lock [OF assms(1,2)] by blast
  have "ensure_metadata cfg d1 = (d1, Inl file_exists)"
    using assms(3,4) d1(2) by (simp add: ensure_metadata_def abind_def write_new_file_def)
  then show ?thesis
    unfolding d1(1) by (simp add: on_error_def open_locked_def abind_def)
qed

text \<open>
  C30: an interrupted creation wedges the directory. When the rename of the new metadata file fails, by an
  error or by a crash, the temporary file stays behind, and every later attempt to open the directory,
  with any configuration and on a disk without errors, fails because that file exists.
\<close>

theorem open_interrupted_wedges:
  assumes "new_directory (dk_files d)" "\<not> dk_locked d"
  shows "\<exists>d1 e. open_with_cuda cfg dur cuda (d\<lparr>dk_faults := fail_once (dk_clock d + 3)\<rparr>) = (d1, Inl e) \<and> \<not> dk_locked d1 \<and>
    (\<forall>d2 cfg' dur' cuda'. dk_files d2 = dk_files d1 \<and> calm d2 \<and> \<not> dk_locked d2 \<longrightarrow>
       snd (open_with_cuda cfg' dur' cuda' d2) = Inl file_exists)"
proof -
  let ?t = "dk_clock d" and ?bs = "encode_metadata cfg" and ?e = "Io ''Input/output error (os error 5)''"
  define d0 where "d0 = d\<lparr>dk_faults := fail_once (?t + 3)\<rparr>"
  define da where "da = d0\<lparr>dk_clock := ?t + 1\<rparr>"
  define db where "db = d0\<lparr>dk_clock := ?t + 2, dk_files := hm_insert lock_file [] (dk_files d)\<rparr>"
  define dc where "dc = db\<lparr>dk_locked := True, dk_clock := ?t + 3, dk_files := hm_insert meta_temporary ?bs (dk_files db)\<rparr>"
  define dd where "dd = dc\<lparr>dk_clock := ?t + 4\<rparr>"
  have new: "map_of (dk_files d) name = None" if "name \<in> set [meta_file, meta_temporary, lock_file]" for name
    using assms(1) that by (auto simp: new_directory_def)
  have "fs_sync d0 = (da, Inr ())"
    by (simp add: fs_sync_def fs_op_def Let_def fail_once_def d0_def da_def)
  moreover have "fs_create lock_file da = (db, Inr ())"
    using new by (simp add: fs_create_def fs_op_def Let_def fail_once_def d0_def da_def db_def)
  moreover have "try_lock db = (db\<lparr>dk_locked := True\<rparr>, Inr ())"
    using assms(2) by (simp add: try_lock_def db_def d0_def)
  moreover have "write_new_file meta_temporary ?bs (db\<lparr>dk_locked := True\<rparr>) = (dc, Inr ())"
    using new by (simp add: write_new_file_def fs_op_def Let_def fail_once_def d0_def db_def dc_def update_conv' usize_max_def)
  moreover have "fs_rename meta_temporary meta_file dc = (dd, Inl ?e)"
    by (simp add: fs_rename_def fs_op_def Let_def fail_once_def d0_def db_def dc_def dd_def update_conv')
  moreover have "file_of (db\<lparr>dk_locked := True\<rparr>) meta_file = None"
    using new by (simp add: db_def update_conv')
  ultimately have "open_with_cuda cfg dur cuda d0 = (dd\<lparr>dk_locked := False\<rparr>, Inl ?e)"
    by (simp add: open_with_cuda_def abind_def on_error_def open_locked_def ensure_metadata_def unlock_def aput_def)
  moreover have "file_of dd meta_file = None" "file_of dd meta_temporary = Some ?bs"
    using new by (simp_all add: dd_def dc_def db_def update_conv')
  ultimately show ?thesis
    using open_leftover unfolding d0_def by (intro exI [of _ "dd\<lparr>dk_locked := False\<rparr>"] exI [of _ ?e]) simp
qed

lemma zero_dimension_refused:
  "dimension cfg = 0 \<Longrightarrow> decode_metadata (encode_metadata cfg) = Inl (CorruptStorage ''collection dimension must be non-zero'')"
  by (simp add: decode_encode_metadata)

lemma open_unreadable:
  assumes "calm d" "\<not> dk_locked d" "file_of d meta_file = Some bs" "decode_metadata bs = Inl e"
  shows "snd (open_with_cuda cfg dur cuda d) = Inl e"
proof -
  obtain d1 where d1: "open_with_cuda cfg dur cuda d = on_error (open_locked cfg dur cuda) unlock d1"
      "\<forall>name. name \<noteq> lock_file \<longrightarrow> file_of d1 name = file_of d name"
    using open_takes_lock [OF assms(1,2)] by blast
  have "ensure_metadata cfg d1 = (d1, Inl e)"
    using assms(3,4) d1(2) by (simp add: ensure_metadata_def alift_def)
  then show ?thesis
    unfolding d1(1) by (simp add: on_error_def open_locked_def abind_def)
qed

text \<open>
  C31: opening a new directory with dimension zero fails, as it must, but only after the metadata file was
  written: every later attempt to open the directory, with any configuration, fails.
\<close>

theorem open_zero_dimension_wedges:
  assumes "new_directory (dk_files d)" "\<not> dk_locked d" "calm d" "dimension cfg = 0"
  shows "\<exists>d1 e. open_with_cuda cfg dur cuda d = (d1, Inl e) \<and> \<not> dk_locked d1 \<and>
    (\<forall>d2 cfg' dur' cuda'. dk_files d2 = dk_files d1 \<and> calm d2 \<and> \<not> dk_locked d2 \<longrightarrow>
       snd (open_with_cuda cfg' dur' cuda' d2) = Inl (CorruptStorage ''collection dimension must be non-zero''))"
proof -
  obtain d1 e where "open_with_cuda cfg dur cuda d = (d1, Inl e)" "\<not> dk_locked d1" "file_of d1 meta_file = Some (encode_metadata cfg)"
    using assms
    by (simp add: open_with_cuda_def abind_def fs_sync_def fs_op_calm new_directory_def fs_create_def try_lock_def on_error_def
        open_locked_def ensure_metadata_def write_new_file_def fs_rename_def update_conv' delete_conv' unlock_def aput_def
        usize_max_def alift_def collection_new_def)
  then show ?thesis
    using open_unreadable [OF _ _ _ zero_dimension_refused [OF assms(4)]] by (intro exI [of _ d1] exI [of _ e]) simp
qed

section \<open>Witnesses\<close>

definition demo_collection_config :: collection_config where
  "demo_collection_config = \<lparr>dimension = 1, config_metric = DotProduct\<rparr>"

definition demo_stored_disk :: disk where
  "demo_stored_disk = \<lparr>dk_files = [(meta_file, encode_metadata demo_collection_config), (wal_file, [])], dk_locked = False,
     dk_clock = 0, dk_faults = (\<lambda>_. None)\<rparr>"

definition demo_running :: persistent where
  "demo_running = \<lparr>pc_inner = empty_collection demo_collection_config, pc_disk = demo_stored_disk, pc_durability = Sync,
     pc_indexes = [], pc_metadata = None, pc_dirty = [], pc_cuda = demo_cuda\<rparr>"

lemma demo_running_ok: "running demo_running (empty_collection demo_collection_config) []"
proof -
  have "durable (dk_files demo_stored_disk) (empty_collection demo_collection_config) [] (empty_collection demo_collection_config)"
    by (rule new_directory_durable) (simp_all add: demo_stored_disk_def demo_collection_config_def)
  moreover have "collection_ok (empty_collection demo_collection_config)"
    by (simp add: collection_ok_def empty_collection_def demo_collection_config_def)
  ultimately show ?thesis
    by (simp add: running_def demo_running_def demo_stored_disk_def ready_def metadata_ok_def log_of_def)
qed

lemma demo_session_ok: "session_ok (pc_inner demo_running) [WriteDelete [''a'']]"
proof -
  have "loggable (empty_collection demo_collection_config) (WriteDelete [''a''])"
    by code_simp
  then show ?thesis
    by (simp add: demo_running_def)
qed


theorem open_succeeds_witness:
  "\<exists>d' pc. open_with_cuda demo_collection_config Sync demo_cuda demo_disk = (d', Inr pc) \<and>
     same_collection (pc_inner pc) (empty_collection demo_collection_config)"
proof -
  have "openable (dk_files demo_disk) (empty_collection demo_collection_config)" "calm demo_disk" "\<not> dk_locked demo_disk"
      "cuda_mode demo_cuda \<noteq> CudaRequired"
    by (simp_all add: openable_def new_directory_def demo_disk_def demo_collection_config_def calm_def demo_cuda_def)
  from open_succeeds [OF this, of Sync] show ?thesis by auto
qed

lemma demo_disk_new: "new_directory (dk_files demo_disk)" "\<not> dk_locked demo_disk" "calm demo_disk"
  by (simp_all add: new_directory_def demo_disk_def calm_def)

theorem open_interrupted_wedges_witness:
  "\<exists>d1 e. open_with_cuda demo_collection_config Sync demo_cuda (demo_disk\<lparr>dk_faults := fail_once 3\<rparr>) = (d1, Inl e) \<and>
     snd (open_with_cuda demo_collection_config Sync demo_cuda (demo_disk\<lparr>dk_files := dk_files d1\<rparr>)) = Inl file_exists"
proof -
  have "dk_clock demo_disk = 0" "calm (demo_disk\<lparr>dk_files := fs\<rparr>)" "\<not> dk_locked (demo_disk\<lparr>dk_files := fs\<rparr>)" for fs
    by (simp_all add: demo_disk_def calm_def)
  then show ?thesis
    using open_interrupted_wedges [OF demo_disk_new(1,2), of demo_collection_config Sync demo_cuda] by fastforce
qed

theorem open_zero_dimension_wedges_witness:
  "\<exists>d1 e. open_with_cuda \<lparr>dimension = 0, config_metric = DotProduct\<rparr> Sync demo_cuda demo_disk = (d1, Inl e) \<and>
     snd (open_with_cuda demo_collection_config Sync demo_cuda (demo_disk\<lparr>dk_files := dk_files d1\<rparr>)) =
       Inl (CorruptStorage ''collection dimension must be non-zero'')"
proof -
  have "calm (demo_disk\<lparr>dk_files := fs\<rparr>)" "\<not> dk_locked (demo_disk\<lparr>dk_files := fs\<rparr>)" for fs
    by (simp_all add: demo_disk_def calm_def)
  then show ?thesis
    using open_zero_dimension_wedges [OF demo_disk_new, of "\<lparr>dimension = 0, config_metric = DotProduct\<rparr>" Sync demo_cuda] by fastforce
qed

end
