(* ===== verification/FlushSafety.thy ===== *)
theory FlushSafety
  imports Recovery
begin

text \<open>
  The flush and crashes. The new segment is written under a temporary name, renamed, read back, and made
  part of the collection by the rename of the manifest; only then is the log cut. Whatever operation fails,
  the directory recovers to the points in memory.
\<close>

section \<open>Loading one segment more\<close>

lemma check_segment_inner:
  assumes "check_segment cfg m position previous s = Inr ()" "position + 1 < length (m_segments m')"
  shows "check_segment cfg m' position previous s = Inr ()"
  using assms by (auto simp: check_segment_def split: if_splits)

lemma load_segments_extend:
  assumes "load_segments fs m position previous c ixs names = Inr (c', ixs')"
    and "position + length names = length (m_segments m)" "length (m_segments m') = Suc (length (m_segments m))"
  shows "load_segments fs m' position previous c ixs (names @ [name]) =
    load_segments fs m' (position + length names) (if names = [] then previous else m_sequence m) c' ixs' [name]"
  using assms
proof (induction names arbitrary: position previous c ixs)
  case (Cons n names)
  obtain bs s c1 where s: "map_of fs n = Some bs" "bs \<noteq> []" "decode_segment_mapped bs = Inr s"
      "check_segment (config c) m position previous s = Inr ()" "apply_segment c s = Inr c1"
    and rest: "load_segments fs m (position + 1) (ds_sequence s) c1 (push_index (ds_sequence s) (ds_index s) ixs) names = Inr (c', ixs')"
    using Cons.prems(1) by (auto simp: rbind_eq_Inr ok_or_eq_Inr split: if_splits)
  have check: "check_segment (config c) m' position previous s = Inr ()"
    using Cons.prems(2,3) by (intro check_segment_inner [OF s(4)]) simp
  have last: "ds_sequence s = m_sequence m" if "names = []"
    using that s(4) Cons.prems(2) by (auto simp: check_segment_def split: if_splits)
  have "load_segments fs m' position previous c ixs ((n # names) @ [name]) =
      load_segments fs m' (position + 1) (ds_sequence s) c1 (push_index (ds_sequence s) (ds_index s) ixs) (names @ [name])"
    using s(1-3,5) check by simp
  also have "\<dots> = load_segments fs m' (position + 1 + length names) (if names = [] then ds_sequence s else m_sequence m) c' ixs' [name]"
    using Cons.prems(2,3) by (intro Cons.IH [OF rest]) simp_all
  also have "(if names = [] then ds_sequence s else m_sequence m) = m_sequence m"
    using last by simp
  finally show ?case by simp
qed simp

lemma apply_segment_sequence: "apply_segment c s = Inr c' \<Longrightarrow> sequence c' = ds_sequence s"
  by (auto simp: apply_segment_def restore_stored_snapshot_def Let_def rbind_eq_Inr split: if_splits prod.splits)

lemma load_segments_sequence:
  assumes "load_segments fs m position previous c ixs names = Inr (c', ixs')" "names \<noteq> []"
    and "position + length names = length (m_segments m)"
  shows "sequence c' = m_sequence m"
  using assms
proof (induction names arbitrary: position previous c ixs)
  case (Cons n names)
  obtain s c1 where s: "check_segment (config c) m position previous s = Inr ()" "apply_segment c s = Inr c1"
    and rest: "load_segments fs m (position + 1) (ds_sequence s) c1 (push_index (ds_sequence s) (ds_index s) ixs) names = Inr (c', ixs')"
    using Cons.prems(1) by (auto simp: rbind_eq_Inr split: if_splits)
  show ?case
  proof (cases "names = []")
    case True
    then show ?thesis
      using rest s Cons.prems(3) apply_segment_sequence [OF s(2)] by (auto simp: check_segment_def split: if_splits)
  next
    case False
    then show ?thesis
      using Cons.IH [OF rest] Cons.prems(3) by simp
  qed
qed simp

lemma durable_manifest:
  assumes "durable fs c0 ps c" "manifest_of fs = Inr (Some m)"
  obtains ixs where "load_segments fs m 0 0 (empty_collection (config c)) [] (m_segments m) = Inr (c0, ixs)"
    "sequence c0 = m_sequence m"
proof -
  obtain loaded where "load_current_segments fs (empty_collection (config c)) = Inr (c0, loaded)"
    using assms(1) unfolding durable_def by blast
  then obtain ixs where ixs: "load_segments fs m 0 0 (empty_collection (config c)) [] (m_segments m) = Inr (c0, ixs)"
    using assms(2) by (auto elim: load_current_cases)
  moreover have "m_segments m \<noteq> []"
    using assms(2) decode_manifest_names(1) by (auto simp: manifest_of_Some)
  ultimately show thesis
    using that load_segments_sequence [OF ixs] by simp
qed

section \<open>What a flushed segment contains\<close>

text \<open>
  The points and tombstones of a segment that takes \<open>c0\<close> to \<open>cs\<close>: all points, or those under the IDs
  \<open>dirty\<close>, outside of which the two agree.
\<close>

definition carries :: "decoded_segment \<Rightarrow> collection \<Rightarrow> collection \<Rightarrow> bool" where
  "carries s c0 cs \<longleftrightarrow> ds_config s = config cs \<and> ds_sequence s = sequence cs \<and>
     (if ds_full s then map to_owned_point (ds_points s) = map to_owned_point (snapshot_stored_points cs)
      else \<exists>dirty. (\<forall>i. i \<notin> set dirty \<longrightarrow> collection_get c0 i = collection_get cs i) \<and>
        map to_owned_point (ds_points s) = map to_owned_point (List.filter (\<lambda>p. sp_id p \<in> set dirty) (snapshot_stored_points cs)) \<and>
        ds_tombstones s = List.filter (\<lambda>i. get_stored cs i = None) dirty)"

lemma owned_ids: "map to_owned_point ps = map to_owned_point qs \<Longrightarrow> map sp_id ps = map sp_id qs"
proof -
  have "map p_id (map to_owned_point ps) = map sp_id ps" for ps
    by (simp add: to_owned_point_def)
  then show "map to_owned_point ps = map to_owned_point qs \<Longrightarrow> map sp_id ps = map sp_id qs"
    by metis
qed

lemma owned_sequences: "map to_owned_point ps = map to_owned_point qs \<Longrightarrow> map sp_sequence ps = map sp_sequence qs"
proof -
  have "map p_sequence (map to_owned_point ps) = map sp_sequence ps" for ps
    by (simp add: to_owned_point_def)
  then show "map to_owned_point ps = map to_owned_point qs \<Longrightarrow> map sp_sequence ps = map sp_sequence qs"
    by metis
qed

lemma keyed_collection: "collection_ok c \<Longrightarrow> keyed c"
  unfolding collection_ok_def keyed_def list_all_iff by auto

lemma keyed_by_id: "distinct (map sp_id ps) \<Longrightarrow> keyed (c\<lparr>points := by_id ps, sequence := seq\<rparr>)"
  by (auto simp: keyed_def by_id_def list_all_iff comp_def)

lemma map_of_by_id_owned:
  "map_option to_owned_point (map_of (by_id ps) i) = map_of (map (\<lambda>q. (p_id q, q)) (map to_owned_point ps)) i"
  by (induction ps) (auto simp: by_id_def to_owned_point_def)

lemma apply_full_segment:
  assumes "ds_full s" "carries s c0 cs" "collection_ok cs" "config c = config cs"
  shows "\<exists>c'. apply_segment c s = Inr c' \<and> same_collection c' cs \<and> collection_ok c'"
proof -
  let ?ps = "ds_points s" and ?qs = "snapshot_stored_points cs"
  have s: "ds_sequence s = sequence cs" "map to_owned_point ?ps = map to_owned_point ?qs"
    using assms(1,2) by (simp_all add: carries_def)
  have ids: "distinct (map sp_id ?ps)"
    using owned_ids [OF s(2)] distinct_snapshot_ids [OF assms(3)] by simp
  have "list_all (\<lambda>p. sp_sequence p \<le> sequence cs) ?qs"
    using assms(3) by (auto simp: collection_ok_def stored_ok_def list_all_iff)
  then have "list_all (\<lambda>q. q \<le> sequence cs) (map sp_sequence ?ps)"
    unfolding owned_sequences [OF s(2)] by (simp add: list.pred_map comp_def)
  then have seqs: "list_all (\<lambda>p. sp_sequence p \<le> ds_sequence s) ?ps"
    by (simp add: list.pred_map comp_def s(1))
  let ?c = "c\<lparr>points := by_id ?ps, sequence := ds_sequence s\<rparr>"
  have app: "apply_segment c s = Inr ?c"
    using assms(1) restore_stored_snapshot_ok [OF seqs ids] by (simp add: apply_segment_def)
  have "collection_get ?c = collection_get cs"
  proof
    fix i
    have "collection_get ?c i = map_option to_owned_point (map_of (by_id ?ps) i)"
      by (simp add: collection_get_def)
    also have "\<dots> = map_option to_owned_point (map_of (by_id ?qs) i)"
      unfolding map_of_by_id_owned s(2) ..
    also have "\<dots> = collection_get cs i"
      using map_of_snapshot [OF assms(3)] by (simp add: collection_get_stored)
    finally show "collection_get ?c i = collection_get cs i" .
  qed
  then have same: "same_collection ?c cs"
    using assms(4) s(1) by (simp add: same_collection_def)
  moreover have "collection_ok ?c"
    by (rule keyed_collection_ok [OF keyed_by_id [OF ids] same assms(3)])
  ultimately show ?thesis
    using app by blast
qed

lemma map_of_by_id_filter:
  assumes "distinct (map sp_id ps)"
  shows "map_of (by_id (List.filter (\<lambda>p. sp_id p \<in> D) ps)) i = (if i \<in> D then map_of (by_id ps) i else None)"
  by (induction ps) (auto simp: by_id_def)

lemma map_of_rev_distinct: "distinct (map fst xs) \<Longrightarrow> map_of (rev xs) = map_of xs"
  by (rule map_of_inject_set [THEN iffD2]) (simp_all add: rev_map [symmetric])

lemma apply_delta_segment:
  assumes "\<not> ds_full s" "carries s c0 cs" "collection_ok cs" "config c0 = config cs" "keyed c0"
  shows "\<exists>c'. apply_segment c0 s = Inr c' \<and> same_collection c' cs \<and> collection_ok c'"
proof -
  obtain dirty where same: "\<forall>i. i \<notin> set dirty \<longrightarrow> collection_get c0 i = collection_get cs i"
    and pts: "map to_owned_point (ds_points s) = map to_owned_point (List.filter (\<lambda>p. sp_id p \<in> set dirty) (snapshot_stored_points cs))"
    and ts: "ds_tombstones s = List.filter (\<lambda>i. get_stored cs i = None) dirty" and seq: "ds_sequence s = sequence cs"
    using assms(1,2) by (auto simp: carries_def)
  let ?qs = "List.filter (\<lambda>p. sp_id p \<in> set dirty) (snapshot_stored_points cs)"
  define c1 where "c1 = (if ds_points s \<noteq> [] then apply_prepared_upsert c0 (ds_points s) (ds_sequence s) else c0)"
  define c' where "c' = apply_delete_at c1 (ds_tombstones s) (ds_sequence s)"
  have ids: "distinct (map sp_id (snapshot_stored_points cs))"
    by (rule distinct_snapshot_ids [OF assms(3)])
  have "distinct (map sp_id ?qs)"
    using ids by (rule distinct_map_filter)
  then have "distinct (map fst (map (\<lambda>q. (p_id q, q)) (map to_owned_point ?qs)))"
    by (simp add: to_owned_point_def comp_def)
  note rev = map_of_rev_distinct [OF this]
  have listed: "map_of (rev (map (\<lambda>q. (p_id q, q)) (map to_owned_point ?qs))) i =
      (if i \<in> set dirty then collection_get cs i else None)" for i
    unfolding rev map_of_by_id_owned [symmetric] map_of_by_id_filter [OF ids] map_of_snapshot [OF assms(3)]
    by (simp add: collection_get_stored)
  have c1: "collection_get c1 i =
      (case if i \<in> set dirty then collection_get cs i else None of None \<Rightarrow> collection_get c0 i | Some q \<Rightarrow> Some q)" for i
  proof -
    have "collection_get c1 i = collection_get (apply_prepared_upsert c0 (ds_points s) (ds_sequence s)) i"
      by (simp add: c1_def collection_get_def apply_prepared_upsert_def)
    then show ?thesis
      unfolding get_prepared pts listed .
  qed
  have "collection_get c' i = collection_get cs i" for i
    using same unfolding c'_def get_after_delete c1 ts by (auto simp: collection_get_stored split: option.splits)
  moreover have "config c' = config cs" "sequence c' = sequence cs"
    using assms(4) seq by (simp_all add: c'_def c1_def)
  ultimately have view: "same_collection c' cs"
    by (auto simp: same_collection_def fun_eq_iff)
  moreover have "keyed c'"
    using assms(5) unfolding c'_def c1_def by (auto intro: keyed_delete keyed_upsert)
  ultimately have "collection_ok c'"
    using keyed_collection_ok assms(3) by blast
  moreover have "apply_segment c0 s = Inr c'"
    using assms(1) by (simp add: apply_segment_def c'_def c1_def)
  ultimately show ?thesis
    using view by blast
qed

section \<open>Records behind a segment\<close>

lemma replay_fewer_dirty:
  "replay c dirty ps = Inr (c1, dirty1) \<Longrightarrow> set d0 \<subseteq> set dirty \<Longrightarrow>
     \<exists>d1. replay c d0 ps = Inr (c1, d1) \<and> set d1 \<subseteq> set dirty1"
proof (induction ps arbitrary: c dirty d0)
  case (Cons p ps)
  obtain ids c' where app: "apply_payload c p = Inr (ids, c')" and rest: "replay c' (hs_extend dirty ids) ps = Inr (c1, dirty1)"
    using Cons.prems(1) by (auto simp: rbind_eq_Inr)
  have "set (hs_extend d0 ids) \<subseteq> set (hs_extend dirty ids)"
    using Cons.prems(2) by auto
  from Cons.IH [OF rest this] show ?case
    using app by simp
qed simp

lemma apply_payload_newer:
  assumes "apply_payload c p = Inr (ids, c1)"
  shows "collection_get c1 i = collection_get c i \<or> (\<forall>q. collection_get c1 i = Some q \<longrightarrow> sequence c < p_sequence q)"
    "sequence c1 = sequence c \<Longrightarrow> c1 = c \<and> ids = []"
proof -
  have "(collection_get c1 i = collection_get c i \<or> (\<forall>q. collection_get c1 i = Some q \<longrightarrow> sequence c < p_sequence q)) \<and>
    (sequence c1 = sequence c \<longrightarrow> c1 = c \<and> ids = [])"
    using assms
  proof (cases rule: apply_payload_cases)
    case (upsert op seq d1 d2 prepared)
    have "p_sequence q = seq" if "map_of (rev (map (\<lambda>q. (p_id q, q)) (map to_owned_point prepared))) i = Some q" for q
      using map_of_SomeD [OF that] upsert(7) by (auto simp: list_all_iff to_owned_point_def)
    then show ?thesis
      using upsert(3,4) by (auto simp: get_prepared split: option.splits)
  qed (auto simp: get_after_delete)
  then show "collection_get c1 i = collection_get c i \<or> (\<forall>q. collection_get c1 i = Some q \<longrightarrow> sequence c < p_sequence q)"
    "sequence c1 = sequence c \<Longrightarrow> c1 = c \<and> ids = []" by blast+
qed

lemma replay_newer:
  assumes "replay c dirty ps = Inr (c1, dirty1)"
  shows "collection_get c1 i = collection_get c i \<or> (\<forall>q. collection_get c1 i = Some q \<longrightarrow> sequence c < p_sequence q)"
  using assms
proof (induction ps arbitrary: c dirty)
  case (Cons p ps)
  obtain ids c' where app: "apply_payload c p = Inr (ids, c')" and rest: "replay c' (hs_extend dirty ids) ps = Inr (c1, dirty1)"
    using Cons.prems by (auto simp: rbind_eq_Inr)
  have "sequence c \<le> sequence c'"
    by (rule apply_payload_reached(2) [OF app])
  then show ?case
    using Cons.IH [OF rest] apply_payload_newer(1) [OF app, of i] by (metis order_le_less_trans)
qed simp

lemma replay_stuck:
  assumes "replay c dirty ps = Inr (c1, dirty1)" "sequence c1 = sequence c"
  shows "c1 = c \<and> dirty1 = dirty"
  using assms
proof (induction ps arbitrary: c dirty)
  case (Cons p ps)
  obtain ids c' where app: "apply_payload c p = Inr (ids, c')" and rest: "replay c' (hs_extend dirty ids) ps = Inr (c1, dirty1)"
    using Cons.prems(1) by (auto simp: rbind_eq_Inr)
  have "sequence c' = sequence c"
    using apply_payload_reached(2) [OF app] replay_reached [OF rest] Cons.prems(2) by simp
  then have "c' = c" "ids = []"
    using apply_payload_newer(2) [OF app] by simp_all
  then show ?case
    using Cons.IH [OF rest] Cons.prems(2) by simp
qed simp

section \<open>The directory behind a new manifest\<close>

text \<open>
  A flush of the points \<open>cs\<close> into the segment \<open>s\<close>, beside the manifest \<open>previous\<close>. A delta has segments
  before it, and room in the manifest; its name is new.
\<close>

definition publishes :: "decoded_segment \<Rightarrow> collection \<Rightarrow> collection \<Rightarrow> manifest option \<Rightarrow> bool" where
  "publishes s c0 cs previous \<longleftrightarrow> carries s c0 cs \<and> collection_ok cs \<and>
     (case previous of None \<Rightarrow> ds_full s
      | Some m \<Rightarrow> sequence c0 < sequence cs \<and> (ds_full s \<or> length (m_segments m) \<le> max_index_segments))"

lemma load_published:
  assumes dur: "durable fs c0 ps c" and prev: "manifest_of fs = Inr previous" and pub: "publishes s c0 cs previous"
    and cfg: "config cs = config c" and dec: "decode_segment_mapped bs = Inr s" "bs \<noteq> []"
    and name: "map_of fs' (segment_name (sequence cs)) = Some bs"
    and man: "manifest_of fs' = Inr (Some \<lparr>m_sequence = sequence cs,
        m_segments = new_names (ds_full s) previous (segment_name (sequence cs))\<rparr>)"
    and old: "\<And>m n. \<not> ds_full s \<Longrightarrow> previous = Some m \<Longrightarrow> n \<in> set (m_segments m) \<Longrightarrow> map_of fs' n = map_of fs n"
  shows "\<exists>c0' loaded. load_current_segments fs' (empty_collection (config c)) = Inr (c0', loaded) \<and>
    same_collection c0' cs \<and> collection_ok c0'"
proof -
  let ?e = "empty_collection (config c)" and ?n = "segment_name (sequence cs)"
  let ?m = "\<lparr>m_sequence = sequence cs, m_segments = new_names (ds_full s) previous ?n\<rparr>"
  have car: "carries s c0 cs" and ok: "collection_ok cs"
    using pub by (simp_all add: publishes_def)
  have s: "ds_config s = config c" "ds_sequence s = sequence cs"
    using car cfg by (simp_all add: carries_def)
  have "\<exists>c0' ixs. load_segments fs' ?m 0 0 ?e [] (m_segments ?m) = Inr (c0', ixs) \<and> same_collection c0' cs \<and> collection_ok c0'"
  proof (cases "ds_full s")
    case True
    obtain c0' where "apply_segment ?e s = Inr c0'" "same_collection c0' cs" "collection_ok c0'"
      using apply_full_segment [OF True car ok, of ?e] cfg by auto
    then show ?thesis
      using True name dec s by (simp add: new_names_def check_segment_def)
  next
    case False
    then obtain m where m: "previous = Some m" "sequence c0 < sequence cs"
      using pub by (auto simp: publishes_def split: option.splits)
    obtain ixs where ixs: "load_segments fs m 0 0 ?e [] (m_segments m) = Inr (c0, ixs)" "sequence c0 = m_sequence m"
      using durable_manifest [OF dur] prev m(1) by blast
    have same: "load_segments fs' m 0 0 ?e [] (m_segments m) = Inr (c0, ixs)"
      using ixs(1) load_segments_cong [of "m_segments m" fs' fs] old [OF False m(1)] by simp
    have ne: "m_segments m \<noteq> []"
      using prev m(1) decode_manifest_names(1) by (auto simp: manifest_of_Some)
    have c0: "keyed c0" "config c0 = config cs"
      using dur load_segments_config [OF ixs(1)] cfg by (auto simp: durable_def keyed_collection)
    obtain c0' where app: "apply_segment c0 s = Inr c0'" "same_collection c0' cs" "collection_ok c0'"
      using apply_delta_segment [OF False car ok c0(2,1)] by blast
    have "load_segments fs' ?m 0 0 ?e [] (m_segments m @ [?n]) = load_segments fs' ?m (length (m_segments m)) (m_sequence m) c0 ixs [?n]"
      using load_segments_extend [OF same, of ?m ?n] ne False m(1) by (simp add: new_names_def)
    also have "\<dots> = Inr (c0', push_index (ds_sequence s) (ds_index s) ixs)"
      using False name dec s app(1) ne m ixs(2) c0(2) cfg by (simp add: check_segment_def new_names_def)
    finally show ?thesis
      using app(2,3) False m(1) by (simp add: new_names_def)
  qed
  then show ?thesis
    using man by (auto simp: load_current_segments_def)
qed

lemma manifest_named_published:
  assumes dur: "durable fs c0 ps c" and prev: "manifest_of fs = Inr previous" and pub: "publishes s c0 cs previous"
    and man: "manifest_of fs' = Inr (Some \<lparr>m_sequence = sequence cs,
        m_segments = new_names (ds_full s) previous (segment_name (sequence cs))\<rparr>)"
  shows "manifest_named fs'"
proof (cases "ds_full s \<or> previous = None")
  case True
  then show ?thesis
    using man by (auto simp: manifest_named_def new_names_def intro: exI [of _ "[sequence cs]"])
next
  case False
  then obtain m where m: "previous = Some m" "\<not> ds_full s" "sequence c0 < sequence cs"
    using pub by (auto simp: publishes_def)
  obtain seqs where seqs: "m_segments m = map segment_name seqs" "\<forall>s \<in> set seqs. s \<le> m_sequence m"
    using dur prev m(1) by (auto simp: durable_def manifest_named_def)
  have "m_sequence m < sequence cs"
    using durable_manifest [OF dur] prev m(1,3) by metis
  then have "new_names (ds_full s) previous (segment_name (sequence cs)) = map segment_name (seqs @ [sequence cs])"
      "\<forall>q \<in> set (seqs @ [sequence cs]). q \<le> sequence cs"
    using m(1,2) seqs by (auto simp: new_names_def)
  then show ?thesis
    unfolding manifest_named_def man by (metis manifest.select_convs(1,2) old.sum.inject(2) option.inject)
qed

lemma published_durable:
  assumes dur: "durable fs c0 ps c" and prev: "manifest_of fs = Inr previous" and pub: "publishes s c0 cs previous"
    and cfg: "config cs = config c" and dec: "decode_segment_mapped bs = Inr s" "bs \<noteq> []"
    and name: "map_of fs' (segment_name (sequence cs)) = Some bs"
    and man: "manifest_of fs' = Inr (Some \<lparr>m_sequence = sequence cs,
        m_segments = new_names (ds_full s) previous (segment_name (sequence cs))\<rparr>)"
    and old: "\<And>n. n \<in> {meta_file, wal_file} \<or> (\<exists>m. previous = Some m \<and> n \<in> set (m_segments m)) \<Longrightarrow> map_of fs' n = map_of fs n"
    and taken: "ps = ps1 @ ps2" "replay c0 [] ps1 = Inr (cs1, dirty1)" "same_collection cs1 cs"
  shows "\<exists>c0' c1 dirty c2 dirty2. durable fs' c0' ps c \<and> same_collection c0' cs \<and>
    replay c0 [] ps = Inr (c1, dirty) \<and> replay c0' [] ps = Inr (c2, dirty2) \<and> set dirty2 \<subseteq> set dirty"
proof -
  obtain c0' loaded where c0': "load_current_segments fs' (empty_collection (config c)) = Inr (c0', loaded)"
      "same_collection c0' cs" "collection_ok c0'"
    using load_published [OF dur prev pub cfg dec name man] old by blast
  obtain c1 dirty where c1: "replay c0 [] ps = Inr (c1, dirty)" "same_collection c1 c"
    using dur unfolding durable_def by blast
  have rest: "replay cs1 dirty1 ps2 = Inr (c1, dirty)"
    using c1(1) taken(1,2) by (simp add: replay_append)
  have skip: "replay c0' [] ps1 = Inr (c0', [])"
  proof -
    have "sequence cs1 \<le> sequence c0'"
      using taken(3) c0'(2) by (simp add: same_collection_def)
    then show ?thesis
      using replay_reached [OF taken(2)] by blast
  qed
  have "same_collection cs1 c0'"
    using taken(3) c0'(2) same_collection_sym same_collection_trans by blast
  then obtain c2 where c2: "replay c0' dirty1 ps2 = Inr (c2, dirty)" "same_collection c1 c2"
    using replay_same [OF rest] by blast
  obtain d2 where "replay c0' [] ps2 = Inr (c2, d2)" and d2: "set d2 \<subseteq> set dirty"
    using replay_fewer_dirty [OF c2(1), of "[]"] by auto
  then have rep: "replay c0' [] ps = Inr (c2, d2)" and "same_collection c2 c"
    using skip taken(1) c2(2) c1(2) by (auto simp: replay_append intro: same_collection_trans same_collection_sym)
  moreover have "manifest_named fs'"
    by (rule manifest_named_published [OF dur prev pub man])
  ultimately have "durable fs' c0' ps c"
    using dur c0' old unfolding durable_def by auto
  then show ?thesis
    using c0'(2) c1(1) rep d2 by blast
qed

section \<open>Triples\<close>

text \<open>
  \<open>triple P m Q E\<close>: from a state in \<open>P\<close> the action \<open>m\<close> ends in \<open>Q x\<close> with its result \<open>x\<close>, or with an error
  in \<open>E\<close>, whatever the disk does.
\<close>

definition triple :: "('s \<Rightarrow> bool) \<Rightarrow> ('s, 'a) action \<Rightarrow> ('a \<Rightarrow> 's \<Rightarrow> bool) \<Rightarrow> ('s \<Rightarrow> bool) \<Rightarrow> bool" where
  "triple P m Q E \<longleftrightarrow> (\<forall>s. P s \<longrightarrow> (case m s of (s', Inl _) \<Rightarrow> E s' | (s', Inr x) \<Rightarrow> Q x s'))"

lemma triple_abind:
  "triple P m R E \<Longrightarrow> (\<And>x. triple (R x) (f x) Q E) \<Longrightarrow> triple P (abind m f) Q E"
  unfolding triple_def abind_def by (fastforce split: prod.splits sum.splits)

lemma triple_weaken:
  "triple P m Q E \<Longrightarrow> (\<And>s. P' s \<Longrightarrow> P s) \<Longrightarrow> (\<And>x s. Q x s \<Longrightarrow> Q' x s) \<Longrightarrow> (\<And>s. E s \<Longrightarrow> E' s) \<Longrightarrow> triple P' m Q' E'"
  unfolding triple_def by (fastforce split: prod.splits sum.splits)

lemma triple_afinally:
  assumes "triple P m Q0 E0" "\<And>x. triple (Q0 x) c (\<lambda>_. Q x) (Q x)" "triple E0 c (\<lambda>_. E) E"
  shows "triple P (afinally m c) Q E"
  unfolding triple_def
proof (intro allI impI)
  fix s
  assume s: "P s"
  obtain s' r where m: "m s = (s', r)"
    by (cases "m s")
  obtain s'' r' where c: "c s' = (s'', r')"
    by (cases "c s'")
  have "case r of Inl _ \<Rightarrow> E0 s' | Inr x \<Rightarrow> Q0 x s'"
    using assms(1) s m unfolding triple_def by (fastforce split: sum.splits)
  then have "case r of Inl _ \<Rightarrow> E s'' | Inr x \<Rightarrow> Q x s''"
    using assms(2,3) c unfolding triple_def by (fastforce split: sum.splits)
  then show "case afinally m c s of (s', Inl _) \<Rightarrow> E s' | (s', Inr x) \<Rightarrow> Q x s'"
    using m c by (simp add: afinally_def split: sum.splits)
qed

lemma triple_alift: "(\<And>s x. P s \<Longrightarrow> r = Inr x \<Longrightarrow> Q x s) \<Longrightarrow> (\<And>s e. P s \<Longrightarrow> r = Inl e \<Longrightarrow> E s) \<Longrightarrow> triple P (alift r) Q E"
  by (auto simp: triple_def alift_def split: sum.splits)

lemma triple_areturn: "(\<And>s. P s \<Longrightarrow> Q x s) \<Longrightarrow> triple P (areturn x) Q E"
  by (simp add: triple_def areturn_def)

lemma triple_aput: "(\<And>s. P s \<Longrightarrow> Q () (f s)) \<Longrightarrow> triple P (aput f) Q E"
  by (simp add: triple_def aput_def)

lemma triple_aget: "(\<And>s. P s \<Longrightarrow> triple ((=) s) (f s) Q E) \<Longrightarrow> triple P (abind aget f) Q E"
  by (simp add: triple_def abind_def aget_def)

text \<open>A property of the files, with the rest of the state as in \<open>pc\<close>.\<close>

definition with_files :: "persistent \<Rightarrow> (directory \<Rightarrow> bool) \<Rightarrow> persistent \<Rightarrow> bool" where
  "with_files pc P pc' \<longleftrightarrow> (\<exists>d. pc' = pc\<lparr>pc_disk := d\<rparr> \<and> P (dk_files d))"

lemma with_files_mono: "with_files pc P pc' \<Longrightarrow> (\<And>fs. P fs \<Longrightarrow> Q fs) \<Longrightarrow> with_files pc Q pc'"
  by (auto simp: with_files_def)

lemma triple_on_disk:
  assumes "\<And>d. P (dk_files d) \<Longrightarrow> case m d of (d', Inl _) \<Rightarrow> E (dk_files d') | (d', Inr x) \<Rightarrow> Q x (dk_files d')"
  shows "triple (with_files pc P) (on_disk m) (\<lambda>x. with_files pc (Q x)) (with_files pc E)"
  unfolding triple_def
proof (intro allI impI)
  fix s
  assume "with_files pc P s"
  then obtain d where d: "s = pc\<lparr>pc_disk := d\<rparr>" "P (dk_files d)"
    by (auto simp: with_files_def)
  obtain d' r where m: "m d = (d', r)"
    by (cases "m d")
  show "case on_disk m s of (s', Inl _) \<Rightarrow> with_files pc E s' | (s', Inr x) \<Rightarrow> with_files pc (Q x) s'"
    using assms [OF d(2)] m d(1) by (auto simp: on_disk_def with_files_def split: sum.splits)
qed

lemma triple_disk_op:
  assumes "\<And>fs. P fs \<Longrightarrow> Q (effect fs)" "\<And>fs n. P fs \<Longrightarrow> E (torn n fs)"
  shows "triple (with_files pc P) (on_disk (fs_op effect torn)) (\<lambda>_. with_files pc Q) (with_files pc E)"
  using assms by (intro triple_on_disk) (auto simp: fs_op_def Let_def split: option.splits fault.splits)

lemma triple_sync: "(\<And>fs. P fs \<Longrightarrow> E fs) \<Longrightarrow> triple (with_files pc P) (on_disk fs_sync) (\<lambda>_. with_files pc P) (with_files pc E)"
  unfolding fs_sync_def by (rule triple_disk_op)

lemma triple_rename:
  assumes "\<And>fs bs. P fs \<Longrightarrow> map_of fs a = Some bs \<Longrightarrow> Q (hm_insert b bs (hm_remove a fs))" "\<And>fs. P fs \<Longrightarrow> E fs"
  shows "triple (with_files pc P) (on_disk (fs_rename a b)) (\<lambda>_. with_files pc Q) (with_files pc E)"
  using assms by (intro triple_on_disk) (auto simp: fs_rename_def fs_op_def Let_def split: option.splits fault.splits)

lemma triple_remove:
  assumes "\<And>fs. P fs \<Longrightarrow> P (hm_remove name fs)"
  shows "triple (with_files pc P) (on_disk (aignore (fs_remove name))) (\<lambda>_. with_files pc P) (with_files pc P)"
  using assms by (intro triple_on_disk) (auto simp: aignore_def fs_remove_def fs_op_def Let_def split: option.splits fault.splits)

lemma triple_write_new:
  assumes "\<And>fs. P fs \<Longrightarrow> length bs \<le> usize_max \<Longrightarrow> Q (hm_insert name bs fs)" "\<And>fs. P fs \<Longrightarrow> E fs"
    "\<And>fs n. P fs \<Longrightarrow> E (hm_insert name (take n bs) fs)"
  shows "triple (with_files pc P) (on_disk (write_new_file name bs)) (\<lambda>_. with_files pc Q) (with_files pc E)"
  using assms by (intro triple_on_disk) (auto simp: write_new_file_def fs_op_def Let_def split: option.splits fault.splits nat.splits)

lemma triple_set_len:
  assumes "\<And>fs bs. P fs \<Longrightarrow> map_of fs name = Some bs \<Longrightarrow> Q (hm_insert name (take n bs) fs)" "\<And>fs. P fs \<Longrightarrow> E fs"
  shows "triple (with_files pc P) (on_disk (fs_set_len name n)) (\<lambda>_. with_files pc Q) (with_files pc E)"
  using assms by (intro triple_on_disk) (auto simp: fs_set_len_def fs_op_def Let_def split: option.splits fault.splits)

lemma triple_read:
  assumes "\<And>fs bs. P fs \<Longrightarrow> map_of fs name = Some bs \<Longrightarrow> Q bs fs" "\<And>fs. P fs \<Longrightarrow> E fs"
  shows "triple (with_files pc P) (on_disk (fs_read name)) (\<lambda>bs. with_files pc (Q bs)) (with_files pc E)"
  using assms by (intro triple_on_disk) (auto simp: fs_read_def ok_or_def split: option.splits sum.splits)

section \<open>A snapshot and the writes since\<close>

text \<open>
  The points \<open>cs\<close> were in memory at an earlier moment, after a prefix of the records that are now in the
  log. Without writes in between they are the points in memory.
\<close>

definition snapshot_in :: "persistent \<Rightarrow> collection \<Rightarrow> bytes list \<Rightarrow> collection \<Rightarrow> bool" where
  "snapshot_in pc c0 ps cs \<longleftrightarrow> running pc c0 ps \<and> collection_ok cs \<and> config cs = config (pc_inner pc) \<and>
     (\<exists>ps1 ps2 cs1 dirty1. ps = ps1 @ ps2 \<and> replay c0 [] ps1 = Inr (cs1, dirty1) \<and> same_collection cs1 cs)"

lemma snapshot_in_now:
  assumes "running pc c0 ps"
  shows "snapshot_in pc c0 ps (pc_inner pc)"
proof -
  obtain c1 dirty where "replay c0 [] ps = Inr (c1, dirty)" "same_collection c1 (pc_inner pc)"
    using assms unfolding running_def durable_def by blast
  then show ?thesis
    using assms running_ok [OF assms] unfolding snapshot_in_def by force
qed

lemma snapshot_facts:
  assumes "snapshot_in pc c0 ps cs"
  shows "collection_get (pc_inner pc) i = collection_get cs i \<or>
      (\<forall>q. collection_get (pc_inner pc) i = Some q \<longrightarrow> sequence cs < p_sequence q)"
    "i \<notin> set (pc_dirty pc) \<Longrightarrow> collection_get cs i = collection_get (pc_inner pc) i"
    "sequence cs \<le> sequence (pc_inner pc)"
    "sequence (pc_inner pc) = sequence cs \<Longrightarrow> same_collection cs (pc_inner pc)"
proof -
  obtain ps1 ps2 cs1 dirty1 where ps: "ps = ps1 @ ps2" and cs1: "replay c0 [] ps1 = Inr (cs1, dirty1)" "same_collection cs1 cs"
    and run: "running pc c0 ps"
    using assms by (auto simp: snapshot_in_def)
  obtain c1 dirty where c1: "replay c0 [] ps = Inr (c1, dirty)" "same_collection c1 (pc_inner pc)" "set dirty \<subseteq> set (pc_dirty pc)"
    using run unfolding running_def durable_def by auto
  have rest: "replay cs1 dirty1 ps2 = Inr (c1, dirty)"
    using c1(1) cs1(1) ps by (simp add: replay_append)
  have view: "collection_get cs1 = collection_get cs" "sequence cs1 = sequence cs" "config cs1 = config cs"
      "collection_get c1 = collection_get (pc_inner pc)" "sequence c1 = sequence (pc_inner pc)" "config c1 = config (pc_inner pc)"
    using cs1(2) c1(2) by (simp_all add: same_collection_def)
  show "collection_get (pc_inner pc) i = collection_get cs i \<or>
      (\<forall>q. collection_get (pc_inner pc) i = Some q \<longrightarrow> sequence cs < p_sequence q)"
    using replay_newer [OF rest, of i] by (simp add: view)
  show "collection_get cs i = collection_get (pc_inner pc) i" if "i \<notin> set (pc_dirty pc)"
    using that replay_reached [OF rest] c1(3) by (auto simp: view)
  show "sequence cs \<le> sequence (pc_inner pc)"
    using replay_reached [OF rest] by (simp add: view)
  show "same_collection cs (pc_inner pc)" if "sequence (pc_inner pc) = sequence cs"
  proof -
    have "c1 = cs1"
      using that replay_stuck [OF rest] view by simp
    then show ?thesis
      using view by (simp add: same_collection_def)
  qed
qed

lemma keyed_replaced: "keyed c \<Longrightarrow> keyed (replace_persisted_points c ps)"
proof -
  let ?P = "\<lambda>(i, p). i = sp_id p"
  let ?f = "\<lambda>m p. case map_of m (sp_id p) of
           Some current \<Rightarrow> if sp_sequence current = sp_sequence p then hm_insert (sp_id p) p m else m
         | None \<Rightarrow> m"
  have "hm_wf m \<and> list_all ?P m \<Longrightarrow> hm_wf (foldl ?f m ps) \<and> list_all ?P (foldl ?f m ps)" for m
  proof (induction ps arbitrary: m)
    case (Cons p ps)
    have "hm_wf (?f m p) \<and> list_all ?P (?f m p)"
      using Cons.prems by (auto simp: hm_wf_insert list_all_hm_insert split: option.splits)
    then show ?case
      using Cons.IH by simp
  qed simp
  then show "keyed c \<Longrightarrow> keyed (replace_persisted_points c ps)"
    by (simp add: keyed_def replace_persisted_points_def)
qed

text \<open>The points read back from the segment replace their equals.\<close>

lemma carried_points:
  assumes "carries s c0 cs" "collection_ok cs" "p \<in> set (ds_points s)"
  shows "collection_get cs (sp_id p) = Some (to_owned_point p)" "sp_sequence p \<le> sequence cs"
proof -
  have "to_owned_point p \<in> to_owned_point ` set (snapshot_stored_points cs)"
  proof (cases "ds_full s")
    case True
    then have "map to_owned_point (ds_points s) = map to_owned_point (snapshot_stored_points cs)"
      using assms(1) by (simp add: carries_def)
    from arg_cong [OF this, of set] show ?thesis
      using assms(3) by auto
  next
    case False
    then obtain dirty where "map to_owned_point (ds_points s) =
        map to_owned_point (List.filter (\<lambda>p. sp_id p \<in> set dirty) (snapshot_stored_points cs))"
      using assms(1) by (auto simp: carries_def)
    from arg_cong [OF this, of set]
    have "to_owned_point ` set (ds_points s) \<subseteq> to_owned_point ` set (snapshot_stored_points cs)"
      by auto
    then show ?thesis
      using assms(3) by blast
  qed
  then obtain q where q: "q \<in> set (snapshot_stored_points cs)" "to_owned_point p = to_owned_point q"
    by blast
  then have "(sp_id q, q) \<in> set (points cs)" "stored_ok (config cs) (sequence cs) q"
    using assms(2) unfolding collection_ok_def list_all_iff set_snapshot_stored_points by auto
  moreover have "sp_id p = sp_id q" "sp_sequence p = sp_sequence q"
    using q(2) by (simp_all add: to_owned_point_def)
  ultimately show "collection_get cs (sp_id p) = Some (to_owned_point p)" "sp_sequence p \<le> sequence cs"
    using assms(2) q(2) by (auto simp: collection_get_def collection_ok_def stored_ok_def)
qed

lemma replaced_same:
  assumes snap: "snapshot_in pc c0 ps cs" and car: "carries s c0 cs"
  shows "same_collection (replace_persisted_points (pc_inner pc) (ds_points s)) (pc_inner pc)"
    "collection_ok (replace_persisted_points (pc_inner pc) (ds_points s))"
proof -
  let ?c = "pc_inner pc"
  have ok: "collection_ok cs" "collection_ok ?c"
    using snap running_ok by (auto simp: snapshot_in_def)
  have "same_point ?c p" if "p \<in> set (ds_points s)" for p
  proof (cases "get_stored ?c (sp_id p)")
    case (Some cur)
    note p = carried_points [OF car ok(1) that]
    show ?thesis
      using snapshot_facts(1) [OF snap, of "sp_id p"] p Some
      by (auto simp: same_point_def collection_get_stored to_owned_point_def)
  qed (simp add: same_point_def)
  then have "collection_get (replace_persisted_points ?c (ds_points s)) i = collection_get ?c i" for i
    by (intro replace_persisted_view) (simp add: list_all_iff)
  then show same: "same_collection (replace_persisted_points ?c (ds_points s)) ?c"
    by (auto simp: same_collection_def fun_eq_iff replace_persisted_points_def)
  show "collection_ok (replace_persisted_points ?c (ds_points s))"
    by (rule keyed_collection_ok [OF keyed_replaced [OF keyed_collection [OF ok(2)]] same ok(2)])
qed

section \<open>The steps of a flush\<close>

lemma on_disk_abind: "on_disk (abind m f) = abind (on_disk m) (\<lambda>x. on_disk (f x))"
  by (rule ext) (auto simp: on_disk_def abind_def split: prod.splits sum.splits)

lemma on_disk_alift: "on_disk (alift r) = alift r"
  by (rule ext) (simp add: on_disk_def alift_def)

text \<open>The names a manifest lists.\<close>

definition names_of :: "manifest option \<Rightarrow> string set" where
  "names_of previous = (case previous of None \<Rightarrow> {} | Some m \<Rightarrow> set (m_segments m))"

definition stored :: "collection \<Rightarrow> bytes list \<Rightarrow> collection \<Rightarrow> manifest option \<Rightarrow> directory \<Rightarrow> bool" where
  "stored c0 ps c previous fs \<longleftrightarrow> durable fs c0 ps c \<and> manifest_of fs = Inr previous \<and> map_of fs wal_file = Some (log_of ps)"

lemma stored_cong:
  assumes "\<And>name. name \<in> {meta_file, wal_file, manifest_file} \<union> names_of previous \<Longrightarrow> map_of fs' name = map_of fs name"
  shows "stored c0 ps c previous fs \<Longrightarrow> stored c0 ps c previous fs'"
proof -
  assume st: "stored c0 ps c previous fs"
  have man: "manifest_of fs' = manifest_of fs"
    using assms [of manifest_file] by (simp add: manifest_of_def)
  have load: "load_current_segments fs' e = load_current_segments fs e" for e
  proof (rule load_cong)
    show "map_of fs' name = map_of fs name" if "manifest_of fs = Inr (Some m)" "name \<in> set (m_segments m)" for m name
      using that st by (intro assms) (auto simp: stored_def names_of_def)
  qed (simp add: assms)
  have files: "map_of fs' meta_file = map_of fs meta_file" "map_of fs' wal_file = map_of fs wal_file"
    by (simp_all add: assms)
  show "stored c0 ps c previous fs'"
    using st unfolding stored_def durable_def manifest_named_def man load files .
qed

lemma stored_insert:
  "name \<notin> {meta_file, wal_file, manifest_file} \<union> names_of previous \<Longrightarrow> stored c0 ps c previous fs \<Longrightarrow>
     stored c0 ps c previous (hm_insert name bs fs)"
  by (rule stored_cong) (auto simp: update_conv')

lemma stored_remove:
  "name \<notin> {meta_file, wal_file, manifest_file} \<union> names_of previous \<Longrightarrow> stored c0 ps c previous fs \<Longrightarrow>
     stored c0 ps c previous (hm_remove name fs)"
  by (rule stored_cong) (auto simp: delete_conv')

lemma temporary_names:
  "temporary_segment_path seq env \<notin> {meta_file, wal_file, manifest_file, segment_name seq'}"
  "manifest_temporary pid \<notin> {meta_file, wal_file, manifest_file, segment_name seq'}"
  "segment_name seq' \<notin> {meta_file, wal_file, manifest_file}"
  by (auto simp: temporary_segment_path_def manifest_temporary_def segment_name_def)

lemma names_of_prefix:
  assumes "manifest_of fs = Inr previous" "name \<in> names_of previous"
  shows "prefix ''segment-'' name"
  using assms decode_manifest_names(3) by (auto simp: names_of_def manifest_of_Some split: option.splits)

lemma temporary_unlisted:
  assumes "manifest_of fs = Inr previous"
  shows "temporary_segment_path seq env \<notin> names_of previous" "manifest_temporary pid \<notin> names_of previous"
proof -
  have "\<not> prefix ''segment-'' (temporary_segment_path seq env)" "\<not> prefix ''segment-'' (manifest_temporary pid)"
    by (simp_all add: temporary_segment_path_def manifest_temporary_def)
  then show "temporary_segment_path seq env \<notin> names_of previous" "manifest_temporary pid \<notin> names_of previous"
    using names_of_prefix [OF assms] by blast+
qed

text \<open>The new segment is placed: until the manifest lists it, nothing depends on it.\<close>

lemma triple_place:
  assumes name: "segment_name (pf_sequence pf) \<notin> names_of previous"
    and tmp: "pf_temporary pf \<notin> {meta_file, wal_file, manifest_file} \<union> names_of previous"
  shows "triple (with_files pc (\<lambda>fs. stored c0 ps c previous fs \<and> map_of fs (pf_temporary pf) = Some bs)) (place_segment pf)
    (\<lambda>s. with_files pc (\<lambda>fs. stored c0 ps c previous fs \<and> map_of fs (segment_name (pf_sequence pf)) = Some bs \<and>
        decode_segment_mapped bs = Inr s \<and> ds_full s = pf_compact pf))
    (with_files pc (stored c0 ps c previous))"
proof -
  let ?n = "segment_name (pf_sequence pf)" and ?st = "stored c0 ps c previous"
  let ?E = "with_files pc ?st"
  have n: "?n \<notin> {meta_file, wal_file, manifest_file} \<union> names_of previous"
    using name temporary_names(3) by auto
  have 1: "triple (with_files pc (\<lambda>fs. ?st fs \<and> map_of fs (pf_temporary pf) = Some bs)) (on_disk (fs_rename (pf_temporary pf) ?n))
      (\<lambda>_. with_files pc (\<lambda>fs. ?st fs \<and> map_of fs ?n = Some bs)) ?E"
    using stored_insert [OF n] stored_remove [OF tmp] by (intro triple_rename) (simp_all add: update_conv')
  have 2: "triple (with_files pc (\<lambda>fs. ?st fs \<and> map_of fs ?n = Some bs)) (on_disk fs_sync)
      (\<lambda>_. with_files pc (\<lambda>fs. ?st fs \<and> map_of fs ?n = Some bs)) ?E"
    by (rule triple_sync) simp
  have 3: "triple (with_files pc (\<lambda>fs. ?st fs \<and> map_of fs ?n = Some bs)) (on_disk (fs_read ?n))
      (\<lambda>bs'. with_files pc (\<lambda>fs. ?st fs \<and> map_of fs ?n = Some bs \<and> bs' = bs)) ?E"
    by (rule triple_read) auto
  have 4: "triple (with_files pc (\<lambda>fs. ?st fs \<and> map_of fs ?n = Some bs \<and> bs' = bs)) (alift (decode_segment_mapped bs'))
      (\<lambda>s. with_files pc (\<lambda>fs. ?st fs \<and> map_of fs ?n = Some bs \<and> decode_segment_mapped bs = Inr s)) ?E" for bs'
    by (rule triple_alift) (auto simp: with_files_def)
  have 5: "triple (with_files pc (\<lambda>fs. ?st fs \<and> map_of fs ?n = Some bs \<and> decode_segment_mapped bs = Inr s))
      (abind aget (\<lambda>pc. alift (if ds_config s \<noteq> config (pc_inner pc) \<or> ds_sequence s \<noteq> pf_sequence pf \<or> ds_full s \<noteq> pf_compact pf
        then Inl (CorruptStorage ''prepared segment changed before publication'') else Inr s)))
      (\<lambda>s. with_files pc (\<lambda>fs. ?st fs \<and> map_of fs ?n = Some bs \<and> decode_segment_mapped bs = Inr s \<and> ds_full s = pf_compact pf)) ?E" for s
    by (rule triple_aget, rule triple_alift) (auto simp: with_files_def split: if_splits)
  show ?thesis
    unfolding place_segment_def Let_def
    by (rule triple_abind [OF 1 triple_abind [OF 2 triple_abind [OF 3 triple_abind [OF 4 5]]]])
qed

text \<open>The new manifest: its rename is the moment of the flush.\<close>

definition published :: "collection \<Rightarrow> string list \<Rightarrow> bytes list \<Rightarrow> collection \<Rightarrow> manifest \<Rightarrow> directory \<Rightarrow> bool" where
  "published cs dirty ps c m fs \<longleftrightarrow> (\<exists>c0 c2 dirty2. stored c0 ps c (Some m) fs \<and> same_collection c0 cs \<and>
     replay c0 [] ps = Inr (c2, dirty2) \<and> set dirty2 \<subseteq> set dirty)"

lemma fresh_name:
  assumes "durable fs c0 ps c" "manifest_of fs = Inr previous" "previous \<noteq> None \<longrightarrow> sequence c0 < sequence cs"
  shows "segment_name (sequence cs) \<notin> names_of previous"
proof (cases previous)
  case (Some m)
  then obtain seqs where seqs: "m_segments m = map segment_name seqs" "\<forall>s \<in> set seqs. s \<le> m_sequence m"
    using assms(1,2) by (auto simp: durable_def manifest_named_def)
  have "m_sequence m < sequence cs"
    using durable_manifest [OF assms(1)] assms(2,3) Some by (metis option.distinct(1))
  then have "sequence cs \<notin> set seqs"
    using seqs(2) by force
  then show ?thesis
    using Some seqs(1) by (auto simp: names_of_def)
qed (simp add: names_of_def)

lemma new_names_ok:
  assumes "durable fs c0 ps c" "manifest_of fs = Inr previous" "publishes s c0 cs previous"
  defines "names \<equiv> new_names (ds_full s) previous (segment_name (sequence cs))"
  shows "names \<noteq> []" "length names \<le> max_index_segments + 1" "list_all name_ok names" "distinct names"
proof -
  have "names \<noteq> [] \<and> length names \<le> max_index_segments + 1 \<and> list_all name_ok names \<and> distinct names"
  proof (cases "ds_full s \<or> previous = None")
    case True
    then show ?thesis
      by (auto simp: names_def new_names_def segment_name_ok)
  next
    case False
    then obtain m where m: "previous = Some m" "\<not> ds_full s" "length (m_segments m) \<le> max_index_segments" "sequence c0 < sequence cs"
      using assms(3) by (auto simp: publishes_def)
    then obtain seqs where "m_segments m = map segment_name seqs"
      using assms(1,2) by (auto simp: durable_def manifest_named_def)
    then have "list_all name_ok (m_segments m)"
      by (simp add: list_all_iff segment_name_ok)
    moreover have "distinct (m_segments m)"
      using assms(2) m(1) decode_manifest_names(2) by (auto simp: manifest_of_Some)
    ultimately show ?thesis
      using m fresh_name [OF assms(1,2)] by (simp add: names_def new_names_def names_of_def segment_name_ok)
  qed
  then show "names \<noteq> []" "length names \<le> max_index_segments + 1" "list_all name_ok names" "distinct names"
    by simp_all
qed

lemma manifest_renamed:
  assumes snap: "snapshot_in pc c0 ps cs" and pub: "publishes s c0 cs previous"
    and st: "stored c0 ps (pc_inner pc) previous fs" and bs: "map_of fs (segment_name (sequence cs)) = Some bs"
      "decode_segment_mapped bs = Inr s" "bs \<noteq> []"
    and mb: "encode_manifest (sequence cs) (new_names (ds_full s) previous (segment_name (sequence cs))) = Inr mb" "length mb \<le> usize_max"
  shows "published cs (pc_dirty pc) ps (pc_inner pc)
    \<lparr>m_sequence = sequence cs, m_segments = new_names (ds_full s) previous (segment_name (sequence cs))\<rparr>
    (hm_insert manifest_file mb (hm_remove (manifest_temporary pid) fs))"
proof -
  let ?n = "segment_name (sequence cs)" and ?fs = "hm_insert manifest_file mb (hm_remove (manifest_temporary pid) fs)"
  let ?m = "\<lparr>m_sequence = sequence cs, m_segments = new_names (ds_full s) previous ?n\<rparr>"
  have dur: "durable fs c0 ps (pc_inner pc)" and prev: "manifest_of fs = Inr previous" and wal: "map_of fs wal_file = Some (log_of ps)"
    using st by (simp_all add: stored_def)
  have "decode_manifest mb = Inr ?m"
    by (rule manifest_round_trip [OF mb new_names_ok [OF dur prev pub]])
  then have man: "manifest_of ?fs = Inr (Some ?m)"
    by (simp add: manifest_of_Some update_conv')
  have old: "map_of ?fs n = map_of fs n" if "n \<noteq> manifest_file" "n \<noteq> manifest_temporary pid" for n
    using that by (simp add: update_conv' delete_conv')
  have listed: "n \<noteq> manifest_file" "n \<noteq> manifest_temporary pid" if "n \<in> names_of previous" for n
  proof -
    have "prefix ''segment-'' n"
      by (rule names_of_prefix [OF prev that])
    then show "n \<noteq> manifest_file" by auto
    show "n \<noteq> manifest_temporary pid"
      using that temporary_unlisted(2) [OF prev] by blast
  qed
  obtain ps1 ps2 cs1 dirty1 where taken: "ps = ps1 @ ps2" "replay c0 [] ps1 = Inr (cs1, dirty1)" "same_collection cs1 cs"
    and cfg: "config cs = config (pc_inner pc)" and run: "running pc c0 ps"
    using snap by (auto simp: snapshot_in_def)
  have kept_files: "map_of ?fs n = map_of fs n" if "n \<in> {meta_file, wal_file} \<or> (\<exists>m. previous = Some m \<and> n \<in> set (m_segments m))" for n
  proof (cases "n \<in> names_of previous")
    case True
    then show ?thesis
      by (intro old listed)
  next
    case False
    then have "n \<in> {meta_file, wal_file}"
      using that by (auto simp: names_of_def)
    then show ?thesis
      using temporary_names(2) [of pid] by (intro old) auto
  qed
  have "map_of ?fs ?n = Some bs"
    using bs(1) temporary_names(2) [of pid "sequence cs"] temporary_names(3) [of "sequence cs"]
    by (subst old) (auto simp: eq_commute [of "segment_name _" "manifest_temporary _"])
  then obtain c0' c1 dirty c2 dirty2 where new: "durable ?fs c0' ps (pc_inner pc)" "same_collection c0' cs"
      "replay c0 [] ps = Inr (c1, dirty)" "replay c0' [] ps = Inr (c2, dirty2)" "set dirty2 \<subseteq> set dirty"
    using published_durable [OF dur prev pub cfg bs(2,3) _ man kept_files taken] by blast
  have "set dirty \<subseteq> set (pc_dirty pc)"
    using run new(3) by (auto simp: running_def)
  moreover have "map_of ?fs wal_file = Some (log_of ps)"
    using wal kept_files [of wal_file] by simp
  ultimately show ?thesis
    using new man unfolding published_def stored_def by blast
qed

lemma triple_publish:
  assumes snap: "snapshot_in pc c0 ps cs" and pub: "publishes s c0 cs previous"
    and bs: "decode_segment_mapped bs = Inr s" "bs \<noteq> []"
  defines "names \<equiv> new_names (ds_full s) previous (segment_name (sequence cs))"
  shows "triple (with_files pc (\<lambda>fs. stored c0 ps (pc_inner pc) previous fs \<and> map_of fs (segment_name (sequence cs)) = Some bs))
    (on_disk (publish_manifest pid (sequence cs) names))
    (\<lambda>_. with_files pc (published cs (pc_dirty pc) ps (pc_inner pc) \<lparr>m_sequence = sequence cs, m_segments = names\<rparr>))
    (with_files pc (\<lambda>fs. stored c0 ps (pc_inner pc) previous fs \<or>
       published cs (pc_dirty pc) ps (pc_inner pc) \<lparr>m_sequence = sequence cs, m_segments = names\<rparr> fs))"
proof -
  let ?n = "segment_name (sequence cs)" and ?t = "manifest_temporary pid"
  let ?P = "\<lambda>fs. stored c0 ps (pc_inner pc) previous fs \<and> map_of fs ?n = Some bs"
  let ?pub = "published cs (pc_dirty pc) ps (pc_inner pc) \<lparr>m_sequence = sequence cs, m_segments = names\<rparr>"
  let ?E = "\<lambda>fs. stored c0 ps (pc_inner pc) previous fs \<or> ?pub fs"
  have tmp: "?P (hm_insert ?t x fs)" if "?P fs" for fs x
  proof -
    have "manifest_of fs = Inr previous"
      using that by (simp add: stored_def)
    then have "?t \<notin> {meta_file, wal_file, manifest_file} \<union> names_of previous"
      using temporary_names(2) [of pid] temporary_unlisted(2) by auto
    then show ?thesis
      using that temporary_names(2) [of pid "sequence cs"] by (simp add: stored_insert update_conv')
  qed
  have 1: "triple (with_files pc ?P) (alift (encode_manifest (sequence cs) names))
      (\<lambda>mb. with_files pc (\<lambda>fs. ?P fs \<and> encode_manifest (sequence cs) names = Inr mb)) (with_files pc ?E)"
    by (rule triple_alift) (auto simp: with_files_def)
  have 2: "triple (with_files pc (\<lambda>fs. ?P fs \<and> encode_manifest (sequence cs) names = Inr mb)) (on_disk (write_new_file ?t mb))
      (\<lambda>_. with_files pc (\<lambda>fs. ?P fs \<and> encode_manifest (sequence cs) names = Inr mb \<and> length mb \<le> usize_max \<and> map_of fs ?t = Some mb))
      (with_files pc ?E)" for mb
    using tmp by (intro triple_write_new) (simp_all add: update_conv')
  have 3: "triple (with_files pc (\<lambda>fs. ?P fs \<and> encode_manifest (sequence cs) names = Inr mb \<and> length mb \<le> usize_max \<and> map_of fs ?t = Some mb))
      (on_disk (fs_rename ?t manifest_file)) (\<lambda>_. with_files pc ?pub) (with_files pc ?E)" for mb
    using manifest_renamed [OF snap pub _ _ bs] unfolding names_def by (intro triple_rename) auto
  have 4: "triple (with_files pc ?pub) (on_disk fs_sync) (\<lambda>_. with_files pc ?pub) (with_files pc ?E)"
    by (rule triple_sync) simp
  show ?thesis
    unfolding publish_manifest_def on_disk_abind on_disk_alift
    by (rule triple_abind [OF 1 triple_abind [OF 2 triple_abind [OF 3 4]]])
qed

text \<open>What holds of the files from the start of a flush to its end, whatever fails.\<close>

definition held :: "collection \<Rightarrow> bytes list \<Rightarrow> manifest option \<Rightarrow> manifest \<Rightarrow> collection \<Rightarrow> collection \<Rightarrow> directory \<Rightarrow> bool" where
  "held c0 ps previous m cs c fs \<longleftrightarrow> stored c0 ps c previous fs \<or> (\<exists>dirty' ps'. published cs dirty' ps' c m fs)"

definition safe :: "persistent \<Rightarrow> (directory \<Rightarrow> bool) \<Rightarrow> persistent \<Rightarrow> bool" where
  "safe pc P pc' \<longleftrightarrow> same_collection (pc_inner pc') (pc_inner pc) \<and> collection_ok (pc_inner pc') \<and> P (dk_files (pc_disk pc'))"

lemma with_files_update:
  assumes "with_files pc P pc'"
  shows "with_files (pc\<lparr>pc_dirty := x\<rparr>) P (pc'\<lparr>pc_dirty := x\<rparr>)"
    "with_files (pc\<lparr>pc_inner := f (pc_inner pc)\<rparr>) P (pc'\<lparr>pc_inner := f (pc_inner pc')\<rparr>)"
    "with_files (pc\<lparr>pc_indexes := g (pc_indexes pc)\<rparr>) P (pc'\<lparr>pc_indexes := g (pc_indexes pc')\<rparr>)"
    "with_files (pc\<lparr>pc_metadata := y\<rparr>) P (pc'\<lparr>pc_metadata := y\<rparr>)"
  using assms by (cases pc, auto simp: with_files_def)+

lemma with_files_safe:
  assumes "with_files pc' P pc''" "same_collection (pc_inner pc') (pc_inner pc)" "collection_ok (pc_inner pc')" "\<And>fs. P fs \<Longrightarrow> Q fs"
  shows "safe pc Q pc''"
  using assms by (auto simp: with_files_def safe_def)

lemma published_truncated:
  assumes "published cs dirty ps c m fs" "same_collection cs c"
  shows "published cs [] [] c m (hm_insert wal_file [] fs)"
proof -
  obtain c0 where st: "stored c0 ps c (Some m) fs" and same: "same_collection c0 cs"
    using assms(1) by (auto simp: published_def)
  let ?fs = "hm_insert wal_file [] fs"
  have other: "map_of ?fs name = map_of fs name" if "name \<noteq> wal_file" for name
    using that by (simp add: update_conv')
  have "durable fs c0 ps c"
    using st by (simp add: stored_def)
  then have "durable ?fs c0 [] c"
    using torn_log_whole [of "[]"] same_collection_trans [OF same assms(2)]
    by (intro durable_new_log [OF _ other _ _ replay.simps(1)]) (auto simp: update_conv' log_of_def)
  moreover have "manifest_of ?fs = Inr (Some m)"
    using st other [of manifest_file] by (simp add: stored_def manifest_of_def)
  ultimately show ?thesis
    using same by (auto simp: published_def stored_def update_conv' log_of_def)
qed

lemma published_remove:
  assumes "name \<notin> {meta_file, wal_file, manifest_file} \<union> set (m_segments m)" "published cs dirty ps c m fs"
  shows "published cs dirty ps c m (hm_remove name fs)"
  using assms(2) stored_remove [of name "Some m"] assms(1) unfolding published_def by (fastforce simp: names_of_def)

lemma triple_truncate:
  assumes c': "pc_inner pc' = c'" "same_collection c' (pc_inner pc)" "collection_ok c'" "pc_dirty pc' = pc_dirty pc"
    and snap: "snapshot_in pc c0 ps cs"
  defines "now \<equiv> sequence (pc_inner pc) = sequence cs"
  shows "triple (with_files pc' (published cs (pc_dirty pc) ps (pc_inner pc) m)) (truncate_wal (sequence cs))
    (\<lambda>_. with_files (if now then pc'\<lparr>pc_dirty := []\<rparr> else pc')
       (published cs (if now then [] else pc_dirty pc) (if now then [] else ps) (pc_inner pc) m))
    (safe pc (held c0 ps previous m cs (pc_inner pc)))"
proof -
  let ?P = "published cs (pc_dirty pc) ps (pc_inner pc) m" and ?P' = "published cs [] [] (pc_inner pc) m"
  let ?E = "safe pc (held c0 ps previous m cs (pc_inner pc))"
  have seq: "sequence c' = sequence (pc_inner pc)"
    using c'(2) by (simp add: same_collection_def)
  have safe: "?E s" if "with_files pc' P s" "\<And>fs. P fs \<Longrightarrow> ?P fs \<or> ?P' fs" for s P
    using that c' by (intro with_files_safe [OF that(1)]) (auto simp: held_def)
  show ?thesis
  proof (cases now)
    case True
    then have same: "same_collection cs (pc_inner pc)"
      using snapshot_facts(4) [OF snap] by (simp add: now_def)
    have 1: "triple (with_files pc' ?P) (on_disk (fs_set_len wal_file 0)) (\<lambda>_. with_files pc' ?P') ?E"
      by (rule triple_weaken [OF triple_set_len [of ?P wal_file ?P' 0 ?P]])
        (auto intro: published_truncated [OF _ same] safe)
    have 2: "triple (with_files pc' ?P') (on_disk fs_sync) (\<lambda>_. with_files pc' ?P') ?E"
      by (rule triple_weaken [OF triple_sync [of ?P' ?P']]) (auto intro: safe)
    have 3: "triple (with_files pc' ?P') (aput (\<lambda>pc. pc\<lparr>pc_dirty := []\<rparr>)) (\<lambda>_. with_files (pc'\<lparr>pc_dirty := []\<rparr>) ?P') ?E"
      by (rule triple_aput) (rule with_files_update)
    note steps = triple_abind [OF 1 triple_abind [OF 2 3]]
    have "triple (with_files pc' ?P) (truncate_wal (sequence cs)) (\<lambda>_. with_files (pc'\<lparr>pc_dirty := []\<rparr>) ?P') ?E"
      unfolding truncate_wal_def
    proof (rule triple_aget)
      fix s
      assume s: "with_files pc' ?P s"
      then have "sequence (pc_inner s) = sequence cs"
        using True seq c'(1) by (auto simp: with_files_def now_def)
      then show "triple ((=) s) (if sequence (pc_inner s) = sequence cs
          then abind (on_disk (fs_set_len wal_file 0)) (\<lambda>_. abind (on_disk fs_sync) (\<lambda>_. aput (\<lambda>pc. pc\<lparr>pc_dirty := []\<rparr>)))
          else areturn ()) (\<lambda>_. with_files (pc'\<lparr>pc_dirty := []\<rparr>) ?P') ?E"
        using triple_weaken [OF steps, of "(=) s"] s by simp
    qed
    then show ?thesis
      using True by simp
  next
    case False
    have "triple (with_files pc' ?P) (truncate_wal (sequence cs)) (\<lambda>_. with_files pc' ?P) ?E"
      unfolding truncate_wal_def
      by (rule triple_aget) (use False seq c'(1) in \<open>auto simp: triple_def with_files_def now_def areturn_def\<close>)
    then show ?thesis
      using False by simp
  qed
qed

lemma triple_remove_files:
  assumes "\<And>n fs. n \<in> set names \<Longrightarrow> n \<noteq> keep \<Longrightarrow> P fs \<Longrightarrow> P (hm_remove n fs)"
  shows "triple (with_files pc P) (on_disk (remove_files keep names)) (\<lambda>_. with_files pc P) E"
  using assms
proof (induction names)
  case Nil
  then show ?case
    by (simp add: triple_def on_disk_def areturn_def with_files_def)
next
  case (Cons n names)
  have "triple (with_files pc P) (on_disk (if n \<noteq> keep then aignore (fs_remove n) else areturn ())) (\<lambda>_. with_files pc P) E"
  proof (rule triple_weaken [where E = "\<lambda>_. False"])
    show "triple (with_files pc P) (on_disk (if n \<noteq> keep then aignore (fs_remove n) else areturn ())) (\<lambda>_. with_files pc P) (\<lambda>_. False)"
      using Cons.prems [of n] by (auto simp: triple_def on_disk_def aignore_def areturn_def with_files_def fs_remove_def fs_op_def Let_def
          split: option.splits fault.splits)
  qed auto
  moreover have "triple (with_files pc P) (on_disk (remove_files keep names)) (\<lambda>_. with_files pc P) E"
    using Cons by simp
  ultimately show ?case
    by (simp only: remove_files.simps on_disk_abind) (rule triple_abind)
qed

lemma triple_retire:
  assumes "\<And>n fs. compact \<Longrightarrow> n \<in> names_of previous \<Longrightarrow> n \<noteq> name \<Longrightarrow> P fs \<Longrightarrow> P (hm_remove n fs)"
  shows "triple (with_files pc P) (retire_segments compact previous name)
    (\<lambda>_. with_files (pc\<lparr>pc_indexes := if compact then [] else pc_indexes pc\<rparr>) P) E"
proof (cases compact)
  case True
  have "triple (with_files pc P) (aput (\<lambda>pc. pc\<lparr>pc_indexes := []\<rparr>)) (\<lambda>_. with_files (pc\<lparr>pc_indexes := []\<rparr>) P) E"
    by (rule triple_aput) (rule with_files_update(3) [where g = "\<lambda>_. []"])
  moreover have "triple (with_files (pc\<lparr>pc_indexes := []\<rparr>) P)
      (on_disk (remove_files name (case previous of None \<Rightarrow> [] | Some m \<Rightarrow> m_segments m))) (\<lambda>_. with_files (pc\<lparr>pc_indexes := []\<rparr>) P) E"
    using assms True by (intro triple_remove_files) (auto simp: names_of_def split: option.splits)
  ultimately have "triple (with_files pc P) (abind (aput (\<lambda>pc. pc\<lparr>pc_indexes := []\<rparr>)) (\<lambda>_.
        on_disk (remove_files name (case previous of None \<Rightarrow> [] | Some m \<Rightarrow> m_segments m)))) (\<lambda>_. with_files (pc\<lparr>pc_indexes := []\<rparr>) P) E"
    by (rule triple_abind)
  then show ?thesis
    using True by (simp add: retire_segments_def)
qed (simp add: retire_segments_def triple_areturn)

text \<open>The state in memory after a flush.\<close>

definition flushed :: "persistent \<Rightarrow> prepared_flush \<Rightarrow> decoded_segment \<Rightarrow> persistent" where
  "flushed pc pf s = pc\<lparr>pc_inner := replace_persisted_points (pc_inner pc) (ds_points s),
     pc_dirty := if sequence (pc_inner pc) = pf_sequence pf then [] else pc_dirty pc,
     pc_indexes := push_index (pf_sequence pf) (ds_index s) (if pf_compact pf then [] else pc_indexes pc),
     pc_metadata := Some (pf_metadata pf)\<rparr>"

lemma triple_finish:
  assumes snap: "snapshot_in pc c0 ps cs" and car: "carries s c0 cs" and pf: "pf_sequence pf = sequence cs"
    and prev: "manifest_of fs0 = Inr previous"
    and m: "pf_compact pf \<Longrightarrow> m_segments m = [segment_name (sequence cs)]"
  defines "now \<equiv> sequence (pc_inner pc) = sequence cs"
  shows "triple (with_files pc (published cs (pc_dirty pc) ps (pc_inner pc) m)) (finish_flush pf previous (segment_name (sequence cs)) s)
    (\<lambda>x pc'. x = sequence cs \<and> with_files (flushed pc pf s) (published cs (if now then [] else pc_dirty pc) (if now then [] else ps) (pc_inner pc) m) pc')
    (safe pc (held c0 ps previous m cs (pc_inner pc)))"
proof -
  let ?c = "replace_persisted_points (pc_inner pc) (ds_points s)"
  let ?pc1 = "pc\<lparr>pc_inner := ?c\<rparr>"
  let ?pc2 = "if now then ?pc1\<lparr>pc_dirty := []\<rparr> else ?pc1"
  let ?pc3 = "?pc2\<lparr>pc_indexes := if pf_compact pf then [] else pc_indexes ?pc2\<rparr>"
  let ?P = "published cs (pc_dirty pc) ps (pc_inner pc) m"
  let ?P' = "published cs (if now then [] else pc_dirty pc) (if now then [] else ps) (pc_inner pc) m"
  let ?E = "safe pc (held c0 ps previous m cs (pc_inner pc))"
  have 1: "triple (with_files pc ?P) (aput (\<lambda>pc. pc\<lparr>pc_inner := replace_persisted_points (pc_inner pc) (ds_points s)\<rparr>))
      (\<lambda>_. with_files ?pc1 ?P) ?E"
    by (rule triple_aput) (rule with_files_update(2))
  have 2: "triple (with_files ?pc1 ?P) (truncate_wal (pf_sequence pf)) (\<lambda>_. with_files ?pc2 ?P') ?E"
    using triple_truncate [of ?pc1 ?c pc c0 ps cs m previous] replaced_same [OF snap car] snap unfolding pf now_def by simp
  have gone: "n \<notin> {meta_file, wal_file, manifest_file} \<union> set (m_segments m)"
    if "pf_compact pf" "n \<in> names_of previous" "n \<noteq> segment_name (sequence cs)" for n
  proof -
    have "prefix ''segment-'' n"
      by (rule names_of_prefix [OF prev that(2)])
    then show ?thesis
      using m [OF that(1)] that(3) by auto
  qed
  have 3: "triple (with_files ?pc2 ?P') (retire_segments (pf_compact pf) previous (segment_name (sequence cs))) (\<lambda>_. with_files ?pc3 ?P') ?E"
    using published_remove [OF gone] by (intro triple_retire) blast
  have 4: "triple (with_files ?pc3 ?P') (aput (\<lambda>pc. pc\<lparr>pc_indexes := push_index (pf_sequence pf) (ds_index s) (pc_indexes pc),
       pc_metadata := Some (pf_metadata pf)\<rparr>)) (\<lambda>_. with_files (flushed pc pf s) ?P') ?E"
  proof (rule triple_aput)
    fix x
    assume "with_files ?pc3 ?P' x"
    from with_files_update(4) [OF with_files_update(3) [OF this, of "push_index (pf_sequence pf) (ds_index s)"], of "Some (pf_metadata pf)"]
    show "with_files (flushed pc pf s) ?P' (x\<lparr>pc_indexes := push_index (pf_sequence pf) (ds_index s) (pc_indexes x), pc_metadata := Some (pf_metadata pf)\<rparr>)"
      by (cases pc) (simp add: flushed_def pf now_def split: if_splits)
  qed
  have 5: "triple (with_files (flushed pc pf s) ?P') (areturn (pf_sequence pf))
      (\<lambda>x pc'. x = sequence cs \<and> with_files (flushed pc pf s) ?P' pc') ?E"
    by (rule triple_areturn) (simp add: pf)
  show ?thesis
    unfolding finish_flush_def
    by (rule triple_abind [OF 1 triple_abind [OF 2 triple_abind [OF 3 triple_abind [OF 4 5]]]])
qed

section \<open>Publication\<close>

text \<open>
  A prepared flush of the points \<open>cs\<close>: its file is complete, and whatever it decodes to carries them.
\<close>

definition prepared_for :: "persistent \<Rightarrow> collection \<Rightarrow> collection \<Rightarrow> manifest option \<Rightarrow> prepared_flush \<Rightarrow> bool" where
  "prepared_for pc c0 cs previous pf \<longleftrightarrow> pf_sequence pf = sequence cs \<and> pf_metadata pf = index_points (snapshot_stored_points cs) \<and>
     (\<exists>seq env. pf_temporary pf = temporary_segment_path seq env) \<and> (previous \<noteq> None \<longrightarrow> sequence c0 < sequence cs) \<and>
     (\<exists>bs. file_of (pc_disk pc) (pf_temporary pf) = Some bs \<and>
       (\<forall>s. decode_segment_mapped bs = Inr s \<and> ds_full s = pf_compact pf \<longrightarrow> publishes s c0 cs previous))"

lemma running_stored:
  assumes "running pc c0 ps"
  obtains previous where "stored c0 ps (pc_inner pc) previous (dk_files (pc_disk pc))"
proof -
  obtain loaded where "load_current_segments (dk_files (pc_disk pc)) (empty_collection (config (pc_inner pc))) = Inr (c0, loaded)"
    using assms unfolding running_def durable_def by blast
  then obtain previous where "manifest_of (dk_files (pc_disk pc)) = Inr previous"
    by (auto elim: load_current_cases)
  then show thesis
    using that assms by (simp add: stored_def running_def)
qed

lemma snapshot_not_older:
  assumes "snapshot_in pc c0 ps cs" "stored c0 ps (pc_inner pc) previous fs"
  shows "\<not> (case previous of None \<Rightarrow> False | Some m \<Rightarrow> m_sequence m > sequence cs)"
proof (cases previous)
  case (Some m)
  obtain ps1 cs1 dirty1 where "replay c0 [] ps1 = Inr (cs1, dirty1)" "same_collection cs1 cs"
    using assms(1) by (auto simp: snapshot_in_def)
  then have "sequence c0 \<le> sequence cs"
    using replay_reached by (metis same_collection_def)
  moreover have "sequence c0 = m_sequence m"
    using assms(2) Some durable_manifest by (metis stored_def)
  ultimately show ?thesis
    using Some by simp
qed simp

lemma durable_same_collection: "durable fs c0 ps c \<Longrightarrow> same_collection c c' \<Longrightarrow> durable fs c0 ps c'"
proof -
  assume dur: "durable fs c0 ps c" and same: "same_collection c c'"
  have "config c' = config c"
    using same by (simp add: same_collection_def)
  moreover have "\<exists>c1 dirty. replay c0 [] ps = Inr (c1, dirty) \<and> same_collection c1 c'"
    using dur same same_collection_trans unfolding durable_def by blast
  ultimately show "durable fs c0 ps c'"
    using dur by (simp add: durable_def)
qed

lemma flushed_running:
  assumes snap: "snapshot_in pc c0 ps cs" and car: "carries s c0 cs" and dec: "decode_segment_mapped bs = Inr s"
    and pf: "pf_sequence pf = sequence cs" "pf_metadata pf = index_points (snapshot_stored_points cs)"
    and wf: "with_files (flushed pc pf s) (published cs (if sequence (pc_inner pc) = sequence cs then [] else pc_dirty pc)
       (if sequence (pc_inner pc) = sequence cs then [] else ps) (pc_inner pc) m) pc'"
  shows "same_collection (pc_inner pc') (pc_inner pc) \<and> (\<exists>c0 ps. running pc' c0 ps)"
proof -
  let ?now = "sequence (pc_inner pc) = sequence cs" and ?c = "replace_persisted_points (pc_inner pc) (ds_points s)"
  let ?ps = "if ?now then [] else ps" and ?dirty = "if ?now then [] else pc_dirty pc"
  note rep = replaced_same [OF snap car]
  obtain d where pc': "pc' = (flushed pc pf s)\<lparr>pc_disk := d\<rparr>" and pub: "published cs ?dirty ?ps (pc_inner pc) m (dk_files d)"
    using wf by (auto simp: with_files_def)
  have parts: "pc_inner pc' = ?c" "pc_dirty pc' = ?dirty" "pc_disk pc' = d"
      "pc_indexes pc' = push_index (sequence cs) (ds_index s) (if pf_compact pf then [] else pc_indexes pc)"
      "pc_metadata pc' = Some (index_points (snapshot_stored_points cs))"
    using pf by (simp_all add: pc' flushed_def)
  obtain c0' c2 dirty2 where st: "stored c0' ?ps (pc_inner pc) (Some m) (dk_files d)" and c0': "same_collection c0' cs"
      "replay c0' [] ?ps = Inr (c2, dirty2)" "set dirty2 \<subseteq> set ?dirty"
    using pub by (auto simp: published_def)
  have ready: "ready pc" and cs: "collection_ok cs" "config cs = config (pc_inner pc)"
    using snap by (auto simp: snapshot_in_def running_def)
  have cfg: "config ?c = config (pc_inner pc)" "sequence ?c = sequence (pc_inner pc)" "collection_get ?c = collection_get (pc_inner pc)"
    using rep(1) by (simp_all add: same_collection_def)
  have "metadata_ok pc'"
  proof (rule metadata_of_snapshot [OF cs(1)])
    show "collection_get cs i = collection_get (pc_inner pc') i" if "i \<notin> set (pc_dirty pc')" for i
      using that snapshot_facts(2) [OF snap, of i] snapshot_facts(4) [OF snap] cfg(3)
      by (cases ?now) (auto simp: parts same_collection_def)
  qed (simp add: parts)
  moreover have "list_all (segment_fits (config ?c)) (pc_indexes pc')"
    using ready decoded_segment_fits [OF dec] car cs(2)
    by (auto simp: parts cfg ready_def push_index_def carries_def segment_fits_def [of _ "\<lparr>is_sequence = _, is_index = _, is_pool = _\<rparr>"])
  moreover have "distinct ?dirty"
    using ready by (simp add: ready_def)
  ultimately have "ready pc'"
    using rep(2) by (simp add: ready_def parts)
  moreover have "durable (dk_files d) c0' ?ps ?c"
    using st by (intro durable_same_collection [OF _ same_collection_sym [OF rep(1)]]) (simp add: stored_def)
  moreover have "?dirty \<noteq> [] \<longrightarrow> sequence c0' < sequence ?c"
    using c0'(1) snapshot_facts(3) [OF snap] cfg(2) by (auto simp: same_collection_def)
  ultimately have "running pc' c0' ?ps"
    using st c0'(2,3) unfolding running_def parts stored_def by blast
  then show ?thesis
    using rep(1) parts(1) by auto
qed

lemma held_remove:
  assumes "held c0 ps previous \<lparr>m_sequence = seq, m_segments = new_names full previous (segment_name seq)\<rparr> cs c fs"
  shows "held c0 ps previous \<lparr>m_sequence = seq, m_segments = new_names full previous (segment_name seq)\<rparr> cs c
     (hm_remove (temporary_segment_path seq' env) fs)"
proof -
  let ?t = "temporary_segment_path seq' env"
  let ?m = "\<lparr>m_sequence = seq, m_segments = new_names full previous (segment_name seq)\<rparr>"
  from assms consider "stored c0 ps c previous fs" | dirty' ps' where "published cs dirty' ps' c ?m fs"
    by (auto simp: held_def)
  then show ?thesis
  proof cases
    case 1
    then have "?t \<notin> {meta_file, wal_file, manifest_file} \<union> names_of previous"
      using temporary_names(1) temporary_unlisted(1) by (auto simp: stored_def)
    then show ?thesis
      using stored_remove 1 by (simp add: held_def)
  next
    case 2
    then have "manifest_of fs = Inr (Some ?m)"
      by (auto simp: published_def stored_def)
    from temporary_unlisted(1) [OF this, of seq' env]
    have "?t \<notin> {meta_file, wal_file, manifest_file} \<union> set (m_segments ?m)"
      using temporary_names(1) [of seq' env] by (auto simp: names_of_def)
    from published_remove [OF this 2] show ?thesis
      by (auto simp: held_def)
  qed
qed

lemma triple_Ex:
  assumes "\<And>x. triple (P x) m Q E"
  shows "triple (\<lambda>s. \<exists>x. P x s) m Q E"
  unfolding triple_def
proof (intro allI impI)
  fix s
  assume "\<exists>x. P x s"
  then obtain x where "P x s" ..
  then show "case m s of (s', Inl _) \<Rightarrow> E s' | (s', Inr x) \<Rightarrow> Q x s'"
    using assms [of x] unfolding triple_def by simp
qed

lemma triple_conj: "(A \<Longrightarrow> triple P m Q E) \<Longrightarrow> triple (\<lambda>s. A \<and> P s) m Q E"
  unfolding triple_def by simp

lemma triple_remove_safe:
  assumes "\<And>fs. P fs \<Longrightarrow> P (hm_remove name fs)"
  shows "triple (safe pc P) (on_disk (aignore (fs_remove name))) (\<lambda>_. safe pc P) (safe pc P)"
  unfolding triple_def safe_def on_disk_def aignore_def fs_remove_def fs_op_def Let_def
  using assms by (auto split: option.splits fault.splits)

lemma decoded_nonempty: "decode_segment_mapped bs = Inr s \<Longrightarrow> bs \<noteq> []"
  by (auto simp: decode_segment_mapped_def decode_segment_inner_def)

lemma triple_publication:
  assumes snap: "snapshot_in pc c0 ps cs" and st: "stored c0 ps (pc_inner pc) previous (dk_files (pc_disk pc))"
    and prep: "prepared_for pc c0 cs previous pf"
  defines "m \<equiv> \<lparr>m_sequence = sequence cs, m_segments = new_names (pf_compact pf) previous (segment_name (sequence cs))\<rparr>"
  shows "triple ((=) pc) (publish_flush pid pf)
    (\<lambda>x pc'. x = sequence cs \<and> same_collection (pc_inner pc') (pc_inner pc) \<and> (\<exists>c0 ps. running pc' c0 ps))
    (safe pc (held c0 ps previous m cs (pc_inner pc)))"
proof -
  let ?n = "segment_name (sequence cs)" and ?st = "stored c0 ps (pc_inner pc) previous"
  let ?D = "published cs (if sequence (pc_inner pc) = sequence cs then [] else pc_dirty pc)
       (if sequence (pc_inner pc) = sequence cs then [] else ps) (pc_inner pc) m"
  let ?E = "safe pc (held c0 ps previous m cs (pc_inner pc))"
  obtain bs where pf: "pf_sequence pf = sequence cs" "pf_metadata pf = index_points (snapshot_stored_points cs)"
    and bs: "file_of (pc_disk pc) (pf_temporary pf) = Some bs"
    and pub: "\<And>s. decode_segment_mapped bs = Inr s \<Longrightarrow> ds_full s = pf_compact pf \<Longrightarrow> publishes s c0 cs previous"
    using prep by (auto simp: prepared_for_def)
  obtain seq env where tmp: "pf_temporary pf = temporary_segment_path seq env"
    using prep by (auto simp: prepared_for_def)
  have prev: "manifest_of (dk_files (pc_disk pc)) = Inr previous" and dur: "durable (dk_files (pc_disk pc)) c0 ps (pc_inner pc)"
    using st by (simp_all add: stored_def)
  have safe: "?E s" if "with_files pc P s" "\<And>fs. P fs \<Longrightarrow> held c0 ps previous m cs (pc_inner pc) fs" for P s
    using that snap running_ok by (intro with_files_safe [OF that(1)]) (auto simp: snapshot_in_def)
  let ?Q0 = "\<lambda>x pc'. \<exists>s. (decode_segment_mapped bs = Inr s \<and> carries s c0 cs \<and> x = sequence cs) \<and> with_files (flushed pc pf s) ?D pc'"
  have body: "triple ((=) pc) (abind (on_disk read_manifest) (\<lambda>previous.
      if (case previous of None \<Rightarrow> False | Some m \<Rightarrow> m_sequence m > pf_sequence pf)
      then areturn (m_sequence (the previous))
      else (let name = segment_name (pf_sequence pf) in
        abind (place_segment pf) (\<lambda>s.
        abind (on_disk (publish_manifest pid (pf_sequence pf) (new_names (pf_compact pf) previous name))) (\<lambda>_.
        finish_flush pf previous name s))))) ?Q0 ?E"
  proof (rule triple_abind)
    let ?A = "\<lambda>fs. ?st fs \<and> map_of fs (pf_temporary pf) = Some bs"
    have "triple (with_files pc ?A) (on_disk read_manifest) (\<lambda>x. with_files pc (\<lambda>fs. x = previous \<and> ?A fs)) (with_files pc ?A)"
      by (rule triple_on_disk) (auto simp: read_manifest_def stored_def split: sum.splits)
    then show "triple ((=) pc) (on_disk read_manifest) (\<lambda>x s. x = previous \<and> with_files pc ?A s) ?E"
    proof (rule triple_weaken)
      show "with_files pc ?A s" if "pc = s" for s
        using st bs that by (cases s) (auto simp: with_files_def)
    qed (auto simp: with_files_def held_def intro!: safe [where P = ?A])
    fix x
    show "triple (\<lambda>s. x = previous \<and> with_files pc ?A s) (if (case x of None \<Rightarrow> False | Some m \<Rightarrow> m_sequence m > pf_sequence pf)
      then areturn (m_sequence (the x))
      else (let name = segment_name (pf_sequence pf) in
        abind (place_segment pf) (\<lambda>s.
        abind (on_disk (publish_manifest pid (pf_sequence pf) (new_names (pf_compact pf) x name))) (\<lambda>_.
        finish_flush pf x name s)))) ?Q0 ?E"
    proof (rule triple_conj)
      assume x: "x = previous"
      have fresh: "segment_name (pf_sequence pf) \<notin> names_of previous"
        using fresh_name [OF dur prev, of cs] prep pf(1) by (simp add: prepared_for_def)
      have unlisted: "pf_temporary pf \<notin> {meta_file, wal_file, manifest_file} \<union> names_of previous"
        using temporary_names(1) [of seq env] temporary_unlisted(1) [OF prev] by (auto simp: tmp)
      let ?B = "\<lambda>fs. ?st fs \<and> map_of fs ?n = Some bs"
      have 1: "triple (with_files pc ?A) (place_segment pf)
          (\<lambda>s pc'. (decode_segment_mapped bs = Inr s \<and> ds_full s = pf_compact pf) \<and> with_files pc ?B pc') ?E"
        by (rule triple_weaken [OF triple_place [OF fresh unlisted]])
          (auto simp: with_files_def pf(1) held_def intro!: safe [where P = ?st])
      have 2: "triple (\<lambda>pc'. (decode_segment_mapped bs = Inr s \<and> ds_full s = pf_compact pf) \<and> with_files pc ?B pc')
          (abind (on_disk (publish_manifest pid (sequence cs) (new_names (pf_compact pf) previous ?n))) (\<lambda>_. finish_flush pf previous ?n s)) ?Q0 ?E" for s
      proof (rule triple_conj)
        assume s: "decode_segment_mapped bs = Inr s \<and> ds_full s = pf_compact pf"
        have pubs: "publishes s c0 cs previous"
          using pub s by blast
        then have car: "carries s c0 cs"
          by (simp add: publishes_def)
        have "triple (with_files pc ?B) (on_disk (publish_manifest pid (sequence cs) (new_names (pf_compact pf) previous ?n)))
            (\<lambda>_. with_files pc (published cs (pc_dirty pc) ps (pc_inner pc) m)) ?E"
        proof (rule triple_weaken)
          show "triple (with_files pc ?B) (on_disk (publish_manifest pid (sequence cs) (new_names (pf_compact pf) previous ?n)))
            (\<lambda>_. with_files pc (published cs (pc_dirty pc) ps (pc_inner pc) m))
            (with_files pc (\<lambda>fs. ?st fs \<or> published cs (pc_dirty pc) ps (pc_inner pc) m fs))"
            using triple_publish [OF snap pubs, of bs pid] s decoded_nonempty unfolding m_def by simp
          show "?E pc'" if "with_files pc (\<lambda>fs. ?st fs \<or> published cs (pc_dirty pc) ps (pc_inner pc) m fs) pc'" for pc'
            by (rule safe [OF that]) (auto simp: held_def)
        qed
        moreover have "triple (with_files pc (published cs (pc_dirty pc) ps (pc_inner pc) m)) (finish_flush pf previous ?n s) ?Q0 ?E"
          using s car by (intro triple_weaken [OF triple_finish [OF snap car pf(1) prev, of m]]) (auto simp: m_def new_names_def)
        ultimately show "triple (with_files pc ?B) (abind (on_disk (publish_manifest pid (sequence cs) (new_names (pf_compact pf) previous ?n)))
            (\<lambda>_. finish_flush pf previous ?n s)) ?Q0 ?E"
          by (rule triple_abind)
      qed
      show "triple (with_files pc ?A) (if (case x of None \<Rightarrow> False | Some m \<Rightarrow> m_sequence m > pf_sequence pf)
        then areturn (m_sequence (the x))
        else (let name = segment_name (pf_sequence pf) in
          abind (place_segment pf) (\<lambda>s.
          abind (on_disk (publish_manifest pid (pf_sequence pf) (new_names (pf_compact pf) x name))) (\<lambda>_.
          finish_flush pf x name s)))) ?Q0 ?E"
        using snapshot_not_older [OF snap st] triple_abind [OF 1 2] unfolding x pf(1) Let_def by simp
    qed
  qed
  show ?thesis
    unfolding publish_flush_def
  proof (rule triple_afinally [OF body])
    have gone: "?D (hm_remove (pf_temporary pf) fs)" if "?D fs" for fs
    proof -
      have "manifest_of fs = Inr (Some m)"
        using that by (auto simp: published_def stored_def)
      from temporary_unlisted(1) [OF this, of seq env]
      have "pf_temporary pf \<notin> {meta_file, wal_file, manifest_file} \<union> set (m_segments m)"
        using temporary_names(1) [of seq env] by (auto simp: names_of_def tmp)
      from published_remove [OF this that] show ?thesis .
    qed
    show "triple (?Q0 x) (on_disk (aignore (fs_remove (pf_temporary pf))))
        (\<lambda>_ pc'. x = sequence cs \<and> same_collection (pc_inner pc') (pc_inner pc) \<and> (\<exists>c0 ps. running pc' c0 ps))
        (\<lambda>pc'. x = sequence cs \<and> same_collection (pc_inner pc') (pc_inner pc) \<and> (\<exists>c0 ps. running pc' c0 ps))" for x
    proof (intro triple_Ex triple_conj)
      fix s
      assume s: "decode_segment_mapped bs = Inr s \<and> carries s c0 cs \<and> x = sequence cs"
      then have run: "x = sequence cs \<and> same_collection (pc_inner pc') (pc_inner pc) \<and> (\<exists>c0 ps. running pc' c0 ps)"
        if "with_files (flushed pc pf s) ?D pc'" for pc'
        using flushed_running [OF snap _ _ pf that] by blast
      show "triple (with_files (flushed pc pf s) ?D) (on_disk (aignore (fs_remove (pf_temporary pf))))
          (\<lambda>_ pc'. x = sequence cs \<and> same_collection (pc_inner pc') (pc_inner pc) \<and> (\<exists>c0 ps. running pc' c0 ps))
          (\<lambda>pc'. x = sequence cs \<and> same_collection (pc_inner pc') (pc_inner pc) \<and> (\<exists>c0 ps. running pc' c0 ps))"
        using run by (intro triple_weaken [OF triple_remove [of ?D "pf_temporary pf"]] gone)
    qed
    show "triple ?E (on_disk (aignore (fs_remove (pf_temporary pf)))) (\<lambda>_. ?E) ?E"
      unfolding tmp m_def by (intro triple_remove_safe held_remove)
  qed
qed

section \<open>Preparation\<close>

lemma on_disk_on_error: "on_disk (on_error m c) = on_error (on_disk m) (on_disk c)"
  by (rule ext) (auto simp: on_disk_def on_error_def split: prod.splits sum.splits)

lemma triple_on_error:
  assumes "triple P m Q E0" "triple E0 c (\<lambda>_. E) E"
  shows "triple P (on_error m c) Q E"
  unfolding triple_def
proof (intro allI impI)
  fix s
  assume s: "P s"
  obtain s' r where m: "m s = (s', r)"
    by (cases "m s")
  obtain s'' r' where c: "c s' = (s'', r')"
    by (cases "c s'")
  show "case on_error m c s of (s', Inl _) \<Rightarrow> E s' | (s', Inr x) \<Rightarrow> Q x s'"
  proof (cases r)
    case (Inl e)
    then have "E0 s'"
      using assms(1) s m unfolding triple_def by fastforce
    then have "E s''"
      using assms(2) c unfolding triple_def by (fastforce split: sum.splits)
    then show ?thesis
      using m c Inl by (simp add: on_error_def)
  next
    case (Inr x)
    then show ?thesis
      using assms(1) s m unfolding triple_def on_error_def by fastforce
  qed
qed

lemma triple_write_segment:
  assumes keep: "\<And>fs x. P fs \<Longrightarrow> P (hm_insert path x fs)" "\<And>fs. P fs \<Longrightarrow> P (hm_remove path fs)"
  shows "triple (with_files pc P) (on_disk (write_segment_file path cfg seq pts ts full ix))
    (\<lambda>_. with_files pc (\<lambda>fs. P fs \<and> (\<exists>bs. map_of fs path = Some bs \<and> segment_bytes cfg seq pts ts full ix = Inr bs \<and> length bs \<le> usize_max)))
    (with_files pc P)"
  unfolding write_segment_file_def on_disk_on_error
proof (rule triple_on_error)
  show "triple (with_files pc P) (on_disk (aignore (fs_remove path))) (\<lambda>_. with_files pc P) (with_files pc P)"
    by (rule triple_remove) (rule keep(2))
  show "triple (with_files pc P) (on_disk (case segment_bytes cfg seq pts ts full ix of
      Inl e \<Rightarrow> abind (write_new_file path []) (\<lambda>_. alift (Inl e)) | Inr bs \<Rightarrow> write_new_file path bs))
    (\<lambda>_. with_files pc (\<lambda>fs. P fs \<and> (\<exists>bs. map_of fs path = Some bs \<and> segment_bytes cfg seq pts ts full ix = Inr bs \<and> length bs \<le> usize_max)))
    (with_files pc P)"
  proof (cases "segment_bytes cfg seq pts ts full ix")
    case (Inl e)
    have "triple (with_files pc P) (on_disk (write_new_file path [])) (\<lambda>_. with_files pc P) (with_files pc P)"
      by (rule triple_write_new) (simp_all add: keep)
    moreover have "triple (with_files pc P) (alift (Inl e)) Q (with_files pc P)" for Q :: "unit \<Rightarrow> persistent \<Rightarrow> bool"
      by (rule triple_alift) simp_all
    ultimately show ?thesis
      unfolding Inl sum.case on_disk_abind on_disk_alift by (rule triple_abind)
  next
    case (Inr bs)
    then show ?thesis
      by (simp, intro triple_write_new) (simp_all add: keep update_conv')
  qed
qed

text \<open>
  The flushes covered: there is something to flush, or nothing was flushed before; the contents are within
  the limits of the segment reader; and the manifest has room for one more delta.
\<close>

definition flushable :: "persistent \<Rightarrow> bool" where
  "flushable pc \<longleftrightarrow> (let s = flush_snapshot_of pc in
     segment_limits (fs_config s) (if fs_compact s then fs_points s else fs_graph_points s) (fs_tombstones s) (fs_compact s) \<and>
     (case manifest_of (dk_files (pc_disk pc)) of
        Inl _ \<Rightarrow> False
      | Inr None \<Rightarrow> fs_compact s
      | Inr (Some m) \<Rightarrow> pc_dirty pc \<noteq> [] \<and> (fs_compact s \<or> length (m_segments m) \<le> max_index_segments)))"

lemma running_outside_dirty:
  assumes "running pc c0 ps" "i \<notin> set (pc_dirty pc)"
  shows "collection_get c0 i = collection_get (pc_inner pc) i"
proof -
  obtain c1 dirty where c1: "replay c0 [] ps = Inr (c1, dirty)" "same_collection c1 (pc_inner pc)" "set dirty \<subseteq> set (pc_dirty pc)"
    using assms(1) unfolding running_def durable_def by auto
  then show ?thesis
    using replay_reached [OF c1(1)] assms(2) by (auto simp: same_collection_def)
qed

lemma snapshot_publishes:
  assumes run: "running pc c0 ps" and st: "stored c0 ps (pc_inner pc) previous (dk_files (pc_disk pc))" and fl: "flushable pc"
    and bs: "segment_bytes (fs_config (flush_snapshot_of pc)) (fs_sequence (flush_snapshot_of pc))
       (if fs_compact (flush_snapshot_of pc) then fs_points (flush_snapshot_of pc) else fs_graph_points (flush_snapshot_of pc))
       (fs_tombstones (flush_snapshot_of pc)) (fs_compact (flush_snapshot_of pc)) ix = Inr bs" "length bs \<le> usize_max"
    and dec: "decode_segment_mapped bs = Inr s"
  shows "publishes s c0 (pc_inner pc) previous"
proof -
  let ?s = "flush_snapshot_of pc"
  have "segment_limits (fs_config ?s) (if fs_compact ?s then fs_points ?s else fs_graph_points ?s) (fs_tombstones ?s) (fs_compact ?s)"
    using fl by (simp add: flushable_def Let_def)
  note again = segment_read_back [OF bs this, of "Some bs" s, unfolded decode_segment_mapped_def [symmetric]]
  have fields: "fs_config ?s = config (pc_inner pc)" "fs_sequence ?s = sequence (pc_inner pc)"
      "fs_points ?s = snapshot_stored_points (pc_inner pc)"
      "\<not> fs_compact ?s \<Longrightarrow> fs_graph_points ?s = List.filter (\<lambda>p. sp_id p \<in> set (pc_dirty pc)) (snapshot_stored_points (pc_inner pc))"
      "\<not> fs_compact ?s \<Longrightarrow> fs_tombstones ?s = List.filter (\<lambda>i. get_stored (pc_inner pc) i = None) (pc_dirty pc)"
    by (simp_all add: flush_snapshot_of_def Let_def)
  have full: "ds_full s = fs_compact ?s"
    using again dec by simp
  have "carries s c0 (pc_inner pc)"
    using again dec full fields running_outside_dirty [OF run] unfolding carries_def by auto
  moreover have "manifest_of (dk_files (pc_disk pc)) = Inr previous"
    using st by (simp add: stored_def)
  ultimately show ?thesis
    using fl running_ok [OF run] running_sequence(2) [OF run] full
    by (auto simp: publishes_def flushable_def Let_def split: option.splits)
qed

lemma running_with_files:
  assumes "running pc c0 ps" "stored c0 ps (pc_inner pc) previous (dk_files d)"
  shows "running (pc\<lparr>pc_disk := d\<rparr>) c0 ps"
proof -
  have "metadata_ok (pc\<lparr>pc_disk := d\<rparr>) = metadata_ok pc"
    by (cases "pc_metadata pc") (simp_all add: metadata_ok_def)
  then show ?thesis
    using assms by (simp add: running_def ready_def stored_def)
qed

text \<open>The state may have moved on since the snapshot.\<close>

lemma triple_build:
  assumes run: "running pc c0 ps" and st: "stored c0 ps (pc_inner pc) previous (dk_files (pc_disk pc))" and fl: "flushable pc"
  shows "triple (with_files pc2 (stored c0 qs c previous)) (on_disk (build_flush env (flush_snapshot_of pc)))
    (\<lambda>pf pc'. with_files pc2 (stored c0 qs c previous) pc' \<and> prepared_for pc' c0 (pc_inner pc) previous pf)
    (with_files pc2 (stored c0 qs c previous))"
proof -
  let ?s = "flush_snapshot_of pc" and ?st = "stored c0 qs c previous"
  let ?t = "temporary_segment_path (fs_sequence ?s) env"
  let ?pts = "if fs_compact ?s then fs_points ?s else fs_graph_points ?s"
  let ?bytes = "\<lambda>ix bs. segment_bytes (fs_config ?s) (fs_sequence ?s) ?pts (fs_tombstones ?s) (fs_compact ?s) ix = Inr bs \<and> length bs \<le> usize_max"
  let ?pf = "\<lparr>pf_sequence = fs_sequence ?s, pf_temporary = ?t, pf_metadata = index_points (fs_points ?s), pf_compact = fs_compact ?s\<rparr>"
  have unlisted: "?t \<notin> {meta_file, wal_file, manifest_file} \<union> names_of previous"
    using temporary_names(1) [of "fs_sequence ?s" env] temporary_unlisted(1) [of _ previous] st by (auto simp: stored_def)
  have 1: "triple (with_files pc2 ?st) (alift r) (\<lambda>_. with_files pc2 ?st) (with_files pc2 ?st)" for r :: "hnsw_index result"
    by (rule triple_alift)
  have 2: "triple (with_files pc2 ?st) (on_disk (write_segment_file ?t (fs_config ?s) (fs_sequence ?s) ?pts (fs_tombstones ?s) (fs_compact ?s) ix))
      (\<lambda>_. with_files pc2 (\<lambda>fs. ?st fs \<and> (\<exists>bs. map_of fs ?t = Some bs \<and> ?bytes ix bs))) (with_files pc2 ?st)" for ix
    by (rule triple_write_segment) (intro stored_insert stored_remove unlisted; assumption)+
  have prepared: "prepared_for pc' c0 (pc_inner pc) previous ?pf"
    if wf: "with_files pc2 (\<lambda>fs. ?st fs \<and> (\<exists>bs. map_of fs ?t = Some bs \<and> ?bytes ix bs)) pc'" for ix pc'
  proof -
    obtain d bs where d: "pc' = pc2\<lparr>pc_disk := d\<rparr>" "file_of d ?t = Some bs" "?bytes ix bs"
      using wf by (auto simp: with_files_def)
    have "fs_sequence ?s = sequence (pc_inner pc)" "fs_points ?s = snapshot_stored_points (pc_inner pc)"
      by (simp_all add: flush_snapshot_of_def Let_def)
    moreover have "previous \<noteq> None \<longrightarrow> sequence c0 < sequence (pc_inner pc)"
      using fl st running_sequence(2) [OF run] by (auto simp: flushable_def stored_def Let_def split: option.splits)
    moreover have "\<forall>s. decode_segment_mapped bs = Inr s \<longrightarrow> publishes s c0 (pc_inner pc) previous"
      using snapshot_publishes [OF run st fl] d(3) by blast
    ultimately show ?thesis
      using d(1,2) by (auto simp: prepared_for_def)
  qed
  have 3: "triple (with_files pc2 (\<lambda>fs. ?st fs \<and> (\<exists>bs. map_of fs ?t = Some bs \<and> ?bytes ix bs))) (areturn ?pf)
      (\<lambda>pf pc'. with_files pc2 ?st pc' \<and> prepared_for pc' c0 (pc_inner pc) previous pf) (with_files pc2 ?st)" for ix
    by (rule triple_areturn) (use prepared in \<open>blast intro: with_files_mono\<close>)
  have ret: "on_disk (areturn x) = areturn x" for x :: prepared_flush
    by (rule ext) (simp add: on_disk_def areturn_def)
  show ?thesis
    unfolding build_flush_def on_disk_abind on_disk_alift ret
    by (rule triple_abind [OF 1 triple_abind [OF 2 3]])
qed

lemma held_recovers: "held c0 ps previous m cs c fs \<Longrightarrow> recovers fs c"
  by (auto simp: held_def published_def stored_def recovers_def)

text \<open>The flush: the points stay, and so does what the directory recovers to.\<close>

definition flush_outcome :: "persistent \<Rightarrow> persistent \<Rightarrow> u64 result \<Rightarrow> bool" where
  "flush_outcome pc pc' r \<longleftrightarrow> same_collection (pc_inner pc') (pc_inner pc) \<and> collection_ok (pc_inner pc') \<and>
     recovers (dk_files (pc_disk pc')) (pc_inner pc) \<and>
     (is_ok r \<longrightarrow> (\<exists>c0 ps. running pc' c0 ps))"

lemma running_recovers: "running pc c0 ps \<Longrightarrow> recovers (dk_files (pc_disk pc)) (pc_inner pc)"
  unfolding running_def recovers_def by blast

lemma running_outcome:
  assumes "running pc' c0 ps" "same_collection (pc_inner pc') (pc_inner pc)"
  shows "flush_outcome pc pc' r"
  using assms running_ok [OF assms(1)] running_recovers [OF assms(1)] durable_same_collection [OF _ assms(2)]
  unfolding flush_outcome_def recovers_def by blast

lemma publication_outcome:
  assumes "snapshot_in pc c0 ps cs" "stored c0 ps (pc_inner pc) previous (dk_files (pc_disk pc))"
    and "prepared_for pc c0 cs previous pf" "publish_flush pid pf pc = (pc', r)"
  shows "flush_outcome pc pc' r" "r = Inr x \<Longrightarrow> x = sequence cs"
proof -
  have "case r of Inl _ \<Rightarrow> \<exists>m. safe pc (held c0 ps previous m cs (pc_inner pc)) pc'
    | Inr x \<Rightarrow> x = sequence cs \<and> same_collection (pc_inner pc') (pc_inner pc) \<and> (\<exists>c0 ps. running pc' c0 ps)"
    using triple_publication [OF assms(1-3), of pid] assms(4) unfolding triple_def by (cases r) fastforce+
  then show "flush_outcome pc pc' r" "r = Inr x \<Longrightarrow> x = sequence cs"
    using running_outcome held_recovers by (cases r; fastforce simp: flush_outcome_def safe_def is_ok_def)+
qed

lemma prepared_outcome:
  assumes run: "running pc c0 ps" and st: "stored c0 ps (pc_inner pc) previous (dk_files (pc_disk pc))" and fl: "flushable pc"
    and build: "on_disk (build_flush env (flush_snapshot_of pc)) pc = (pc', r)"
  shows "\<exists>d. pc' = pc\<lparr>pc_disk := d\<rparr> \<and> running pc' c0 ps \<and> stored c0 ps (pc_inner pc) previous (dk_files d) \<and>
    (\<forall>pf. r = Inr pf \<longrightarrow> prepared_for pc' c0 (pc_inner pc) previous pf)"
proof -
  have "with_files pc (stored c0 ps (pc_inner pc) previous) pc"
    using st by (cases pc) (auto simp: with_files_def)
  then have "with_files pc (stored c0 ps (pc_inner pc) previous) pc' \<and> (\<forall>pf. r = Inr pf \<longrightarrow> prepared_for pc' c0 (pc_inner pc) previous pf)"
    using triple_build [OF run st fl, of pc ps "pc_inner pc" env] build unfolding triple_def by (cases r) fastforce+
  then show ?thesis
    using running_with_files [OF run] by (auto simp: with_files_def)
qed

lemma persistent_flush_outcome:
  assumes run: "running pc c0 ps" and fl: "flushable pc \<or> pc_dirty pc = [] \<and> pc_indexes pc \<noteq> []"
    and step: "persistent_flush env pc = (pc', r)"
  shows "flush_outcome pc pc' r" "r = Inr x \<Longrightarrow> x = sequence (pc_inner pc)"
proof -
  have "flush_outcome pc pc' r \<and> (\<forall>x. r = Inr x \<longrightarrow> x = sequence (pc_inner pc))"
  proof (cases "pc_dirty pc = [] \<and> pc_indexes pc \<noteq> []")
    case True
    then have "pc' = pc" "r = Inr (sequence (pc_inner pc))"
      using step by (auto simp: persistent_flush_def abind_def aget_def areturn_def)
    then show ?thesis
      using running_outcome [OF run] by simp
  next
    case False
    obtain previous where st: "stored c0 ps (pc_inner pc) previous (dk_files (pc_disk pc))"
      using running_stored [OF run] .
    obtain pc1 b where b: "on_disk (build_flush env (flush_snapshot_of pc)) pc = (pc1, b)"
      by (cases "on_disk (build_flush env (flush_snapshot_of pc)) pc")
    obtain d where d: "pc1 = pc\<lparr>pc_disk := d\<rparr>" "running pc1 c0 ps" "stored c0 ps (pc_inner pc) previous (dk_files d)"
        "\<forall>pf. b = Inr pf \<longrightarrow> prepared_for pc1 c0 (pc_inner pc) previous pf"
      using prepared_outcome [OF run st _ b] fl False by blast
    have inner: "pc_inner pc1 = pc_inner pc" "pc_disk pc1 = d"
      using d(1) by simp_all
    have st1: "stored c0 ps (pc_inner pc1) previous (dk_files (pc_disk pc1))"
      using d(3) inner by simp
    have flush: "persistent_flush env pc = (case b of Inl e \<Rightarrow> (pc1, Inl e) | Inr pf \<Rightarrow> publish_flush (fe_pid env) pf pc1)"
      using False b by (auto simp: persistent_flush_def abind_def aget_def split: sum.splits)
    show ?thesis
    proof (cases b)
      case (Inl e)
      then show ?thesis
        using flush step running_outcome [OF d(2), of pc] inner by auto
    next
      case (Inr pf)
      then have "publish_flush (fe_pid env) pf pc1 = (pc', r)" "prepared_for pc1 c0 (pc_inner pc1) previous pf"
        using flush step d(4) inner by auto
      from publication_outcome [OF snapshot_in_now [OF d(2)] st1 this(2,1)] show ?thesis
        by (auto simp: flush_outcome_def inner)
    qed
  qed
  then show "flush_outcome pc pc' r" "r = Inr x \<Longrightarrow> x = sequence (pc_inner pc)" by blast+
qed


lemma demo_flushable: "flushable demo_running"
proof -
  have "flush_snapshot_of demo_running = \<lparr>fs_config = demo_collection_config, fs_sequence = 0, fs_points = [], fs_graph_points = [], fs_tombstones = [], fs_compact = True\<rparr>"
    by (simp add: flush_snapshot_of_def Let_def demo_running_def empty_collection_def snapshot_stored_points_def stored_id.sort_by_sort_key)
  then show ?thesis
    by (simp add: flushable_def Let_def segment_limits_def demo_collection_config_def demo_running_def demo_stored_disk_def manifest_of_def max_items_def)
qed


end
