(* ===== verification/Concurrent.thy ===== *)
theory Concurrent
  imports FlushSafety
begin

text \<open>
  \<open>SharedCollection\<close> of \<open>src/concurrent.rs\<close>: one collection behind a reader-writer lock. A flush takes
  its snapshot under the read lock, builds the segment without a lock, and publishes it under the write
  lock; writers run in between.
\<close>

section \<open>Operations\<close>

text \<open>\<open>flush\<close> when no other thread gets the lock in between.\<close>

definition shared_flush :: "flush_env \<Rightarrow> (persistent, u64) action" where
  "shared_flush env =
     abind aget (\<lambda>pc.
     abind (on_disk (build_flush env (flush_snapshot_of pc))) (publish_flush (fe_pid env)))"

definition backup_to ::
    "flush_env \<Rightarrow> error option \<Rightarrow> string \<Rightarrow> directory option \<Rightarrow> (persistent, u64 \<times> directory option) action" where
  "backup_to env failure path destination =
     abind (shared_flush env) (\<lambda>_.
     abind aget (\<lambda>pc.
     case copy_collection_directory (dk_files (pc_disk pc)) failure path destination of
       (dest, r) \<Rightarrow> abind (alift r) (\<lambda>_. areturn (sequence (pc_inner pc), dest))))"

definition check_background :: "nat \<Rightarrow> nat \<Rightarrow> unit result" where
  "check_background check_interval dirty_point_threshold =
     (if dirty_point_threshold = 0
      then Inl (InvalidConfig ''background flush threshold must be greater than zero'')
      else if check_interval = 0
      then Inl (InvalidConfig ''background flush interval must be greater than zero'')
      else Inr ())"

text \<open>One round of the background thread, and its loop: it ends at the first error, which it keeps.\<close>

definition background_round :: "nat \<Rightarrow> flush_env \<Rightarrow> (persistent, unit) action" where
  "background_round dirty_point_threshold env =
     abind aget (\<lambda>pc.
     if length (pc_dirty pc) < dirty_point_threshold then areturn ()
     else abind (shared_flush env) (\<lambda>_. areturn ()))"

fun background_loop :: "nat \<Rightarrow> flush_env list \<Rightarrow> persistent \<Rightarrow> persistent \<times> error option" where
  "background_loop threshold [] pc = (pc, None)"
| "background_loop threshold (env # envs) pc = (case background_round threshold env pc of
     (pc', Inl e) \<Rightarrow> (pc', Some e)
   | (pc', Inr _) \<Rightarrow> background_loop threshold envs pc')"

text \<open>\<open>BackgroundFlusher::stop\<close> after the thread has ended.\<close>

definition background_stop :: "error option \<Rightarrow> unit result" where
  "background_stop last_error = (case last_error of Some e \<Rightarrow> Inl e | None \<Rightarrow> Inr ())"

section \<open>Writers during a flush\<close>

text \<open>A flush between its critical sections.\<close>

datatype flight = Taken flush_snapshot | Built prepared_flush

text \<open>
  The states that are reached from an open collection when writers and one flush at a time interleave,
  and no operation of the disk has failed a write or a publication. A flush starts when there is
  something to flush.
\<close>

inductive shared_reach :: "persistent \<Rightarrow> persistent \<Rightarrow> flight option \<Rightarrow> bool" for start where
  opened: "shared_reach start start None"
| wrote: "shared_reach start pc flight \<Longrightarrow> loggable (pc_inner pc) w \<Longrightarrow> perform w pc = (pc', r) \<Longrightarrow>
    (\<nexists>msg. r = Inl (Io msg)) \<Longrightarrow> shared_reach start pc' flight"
| took: "shared_reach start pc None \<Longrightarrow> flushable pc \<Longrightarrow> shared_reach start pc (Some (Taken (flush_snapshot_of pc)))"
| built: "shared_reach start pc (Some (Taken s)) \<Longrightarrow> on_disk (build_flush env s) pc = (pc', Inr pf) \<Longrightarrow>
    shared_reach start pc' (Some (Built pf))"
| gave_up: "shared_reach start pc (Some (Taken s)) \<Longrightarrow> on_disk (build_flush env s) pc = (pc', Inl e) \<Longrightarrow>
    shared_reach start pc' None"
| flushed: "shared_reach start pc (Some (Built pf)) \<Longrightarrow> publish_flush pid pf pc = (pc', Inr x) \<Longrightarrow> shared_reach start pc' None"

text \<open>A write touches no file but the log.\<close>

lemma triple_append_other:
  "triple (\<lambda>s. \<forall>name. name \<noteq> wal_file \<longrightarrow> file_of (pc_disk s) name = F name) (on_disk (wal_append payload))
     (\<lambda>_ s. \<forall>name. name \<noteq> wal_file \<longrightarrow> file_of (pc_disk s) name = F name)
     (\<lambda>s. \<forall>name. name \<noteq> wal_file \<longrightarrow> file_of (pc_disk s) name = F name)"
  by (auto simp: triple_def on_disk_def wal_append_def Let_def append_frame_def update_conv' split: option.splits fault.splits)

lemma triple_keep: "triple P aget (\<lambda>_. P) P" "triple P (alift r) (\<lambda>_. P) P"
  by (simp_all add: triple_def aget_def alift_def split: sum.splits)

lemma perform_other:
  assumes "perform w pc = (pc', r)" "name \<noteq> wal_file"
  shows "file_of (pc_disk pc') name = file_of (pc_disk pc) name"
proof -
  let ?P = "\<lambda>s. \<forall>name. name \<noteq> wal_file \<longrightarrow> file_of (pc_disk s) name = file_of (pc_disk pc) name"
  have rest: "triple ?P (abind (on_disk (wal_append payload)) (\<lambda>_. abind (aput (\<lambda>pc. pc\<lparr>pc_inner := f pc, pc_dirty := g pc\<rparr>)) (\<lambda>_. areturn x)))
      (\<lambda>_. ?P) ?P" for payload f g and x :: u64
    by (rule triple_abind [OF triple_append_other triple_abind [where R = "\<lambda>_. ?P"]]) (auto intro: triple_aput triple_areturn)
  have "triple ?P (perform w) (\<lambda>_. ?P) ?P"
  proof (cases w)
    case (WriteUpsert batch)
    then show ?thesis
      by (simp add: persistent_upsert_def) (intro triple_abind [OF triple_keep(1)] triple_abind [OF triple_keep(2)] rest)
  next
    case (WriteDelete ids)
    have "triple ?P (abind aget (\<lambda>pc. abind (alift (next_sequence (pc_inner pc))) (\<lambda>seq. abind (alift (encode_delete seq ids)) (\<lambda>payload.
        abind (on_disk (wal_append payload)) (\<lambda>_. abind (aput (\<lambda>pc. pc\<lparr>pc_inner := apply_delete_at (pc_inner pc) ids seq,
        pc_dirty := hs_extend (pc_dirty pc) ids\<rparr>)) (\<lambda>_. areturn seq)))))) (\<lambda>_. ?P) ?P"
      by (intro triple_abind [OF triple_keep(1)] triple_abind [OF triple_keep(2)] rest)
    then show ?thesis
      using WriteDelete by (simp add: persistent_delete_def triple_keep(2))
  qed
  then show ?thesis
    using assms unfolding triple_def by (cases r) fastforce+
qed

text \<open>What is known of a flush in flight, and how it survives the writes.\<close>

fun flight_ok :: "persistent \<Rightarrow> collection \<Rightarrow> bytes list \<Rightarrow> flight option \<Rightarrow> bool" where
  "flight_ok pc c0 ps None \<longleftrightarrow> True"
| "flight_ok pc c0 ps (Some (Taken s)) \<longleftrightarrow> (\<exists>pcS ps1 ps2 previous. s = flush_snapshot_of pcS \<and> running pcS c0 ps1 \<and>
     stored c0 ps1 (pc_inner pcS) previous (dk_files (pc_disk pcS)) \<and> flushable pcS \<and> ps = ps1 @ ps2 \<and>
     manifest_of (dk_files (pc_disk pc)) = Inr previous)"
| "flight_ok pc c0 ps (Some (Built pf)) \<longleftrightarrow> (\<exists>cs previous. snapshot_in pc c0 ps cs \<and>
     manifest_of (dk_files (pc_disk pc)) = Inr previous \<and> prepared_for pc c0 cs previous pf)"

lemma flight_ok_write:
  assumes fl: "flight_ok pc c0 ps flight" and step: "perform w pc = (pc', r)" and run: "running pc c0 ps" "running pc' c0 (ps @ qs)"
  shows "flight_ok pc' c0 (ps @ qs) flight"
proof (cases "(pc, c0, ps, flight)" rule: flight_ok.cases)
  case (2 pc c0 ps s)
  have "manifest_of (dk_files (pc_disk pc')) = manifest_of (dk_files (pc_disk pc))"
    using perform_other [OF step, of manifest_file] 2 by (simp add: manifest_of_def)
  then show ?thesis
    using fl 2 by (metis append_assoc flight_ok.simps(2) old.prod.inject)
next
  case (3 pc2 c02 ps2 pf)
  then obtain cs previous where cs: "snapshot_in pc c0 ps cs" "manifest_of (dk_files (pc_disk pc)) = Inr previous"
      "prepared_for pc c0 cs previous pf" and flight: "flight = Some (Built pf)"
    using fl by auto
  obtain ps1 ps2 cs1 dirty1 where ps: "ps = ps1 @ ps2" "replay c0 [] ps1 = Inr (cs1, dirty1)" "same_collection cs1 cs"
    using cs(1) by (auto simp: snapshot_in_def)
  obtain c1 d1 where c1: "replay c0 [] (ps @ qs) = Inr (c1, d1)" "same_collection c1 (pc_inner pc')"
    using run(2) unfolding running_def durable_def by blast
  have "config cs = config (pc_inner pc')"
    using replay_reached [OF ps(2)] replay_reached [OF c1(1)] ps(3) c1(2) by (simp add: same_collection_def)
  then have "snapshot_in pc' c0 (ps @ qs) cs"
    using cs(1) ps run(2) unfolding snapshot_in_def by (metis append_assoc)
  moreover have "manifest_of (dk_files (pc_disk pc')) = Inr previous"
    using perform_other [OF step, of manifest_file] cs(2) by (simp add: manifest_of_def)
  moreover have "prepared_for pc' c0 cs previous pf"
  proof -
    obtain seq env where "pf_temporary pf = temporary_segment_path seq env"
      using cs(3) by (auto simp: prepared_for_def)
    then have "pf_temporary pf \<noteq> wal_file"
      using temporary_names(1) [of seq env] by simp
    then show ?thesis
      using cs(3) perform_other [OF step] by (simp add: prepared_for_def)
  qed
  ultimately show ?thesis
    using flight by auto
qed auto

lemma stored_running: "running pc c0 ps \<Longrightarrow> manifest_of (dk_files (pc_disk pc)) = Inr previous \<Longrightarrow>
    stored c0 ps (pc_inner pc) previous (dk_files (pc_disk pc))"
  by (simp add: stored_def running_def)

lemma built_ok:
  assumes run: "running pc c0 ps" and fl: "flight_ok pc c0 ps (Some (Taken s))" and step: "on_disk (build_flush env s) pc = (pc', r)"
  shows "running pc' c0 ps \<and> (\<forall>pf. r = Inr pf \<longrightarrow> flight_ok pc' c0 ps (Some (Built pf)))"
proof -
  obtain pcS ps1 ps2 previous where s: "s = flush_snapshot_of pcS" and S: "running pcS c0 ps1"
      "stored c0 ps1 (pc_inner pcS) previous (dk_files (pc_disk pcS))" "flushable pcS" and ps: "ps = ps1 @ ps2"
    and man: "manifest_of (dk_files (pc_disk pc)) = Inr previous"
    using fl by auto
  have st: "with_files pc (stored c0 ps (pc_inner pc) previous) pc"
    using stored_running [OF run man] by (cases pc) (auto simp: with_files_def)
  have out: "with_files pc (stored c0 ps (pc_inner pc) previous) pc' \<and> (\<forall>pf. r = Inr pf \<longrightarrow> prepared_for pc' c0 (pc_inner pcS) previous pf)"
    using triple_build [OF S, of pc ps "pc_inner pc" env] step st unfolding triple_def s by (cases r) fastforce+
  then obtain d where d: "pc' = pc\<lparr>pc_disk := d\<rparr>" "stored c0 ps (pc_inner pc) previous (dk_files d)"
    by (auto simp: with_files_def)
  have run': "running pc' c0 ps"
    using running_with_files [OF run d(2)] d(1) by simp
  obtain cs1 dirty1 where cs1: "replay c0 [] ps1 = Inr (cs1, dirty1)" "same_collection cs1 (pc_inner pcS)"
    using S(1) unfolding running_def durable_def by blast
  obtain c1 d1 where c1: "replay c0 [] ps = Inr (c1, d1)" "same_collection c1 (pc_inner pc)"
    using run unfolding running_def durable_def by blast
  have "config (pc_inner pcS) = config (pc_inner pc')"
    using replay_reached [OF cs1(1)] replay_reached [OF c1(1)] cs1(2) c1(2) d(1) by (simp add: same_collection_def)
  then have "snapshot_in pc' c0 ps (pc_inner pcS)"
    using run' running_ok [OF S(1)] cs1 ps unfolding snapshot_in_def by blast
  moreover have "manifest_of (dk_files (pc_disk pc')) = Inr previous"
    using d by (simp add: stored_def)
  ultimately show ?thesis
    using out run' by auto
qed

lemma shared_reach_ok:
  assumes "shared_reach start pc flight" "running start c0 ps"
  shows "\<exists>c0 ps. running pc c0 ps \<and> flight_ok pc c0 ps flight"
  using assms(1)
proof induction
  case opened
  then show ?case
    using assms(2) by auto
next
  case (wrote pc flight w pc' r)
  then obtain c0 ps where run: "running pc c0 ps" and fl: "flight_ok pc c0 ps flight" by blast
  have out: "write_outcome pc c0 ps w pc' r"
    by (rule perform_outcome [OF run wrote(2,3)])
  have "\<exists>qs. running pc' c0 (ps @ qs)"
  proof (cases r)
    case (Inl e)
    then have "pc' = pc"
      using out wrote(4) by (auto simp: write_outcome_def split: error.splits)
    then show ?thesis
      using run by (metis append_Nil2)
  next
    case (Inr x)
    then show ?thesis
      using out by (auto simp: write_outcome_def)
  qed
  then show ?case
    using flight_ok_write [OF fl wrote(3) run] by blast
next
  case (took pc)
  then obtain c0 ps where run: "running pc c0 ps" by blast
  obtain previous where "stored c0 ps (pc_inner pc) previous (dk_files (pc_disk pc))"
    using running_stored [OF run] .
  then have "flight_ok pc c0 ps (Some (Taken (flush_snapshot_of pc)))"
    using run took(2) by (force simp: stored_def)
  then show ?case
    using run by blast
next
  case (built pc s env pc' pf)
  then show ?case
    using built_ok by blast
next
  case (gave_up pc s env pc' e)
  then show ?case
    using built_ok by (metis flight_ok.simps(1))
next
  case (flushed pc pf pid pc' x)
  then obtain c0 ps cs previous where "running pc c0 ps" "snapshot_in pc c0 ps cs"
      "manifest_of (dk_files (pc_disk pc)) = Inr previous" "prepared_for pc c0 cs previous pf"
    by auto
  then have "flush_outcome pc pc' (Inr x)"
    using publication_outcome(1) [OF _ stored_running _ flushed(2)] by blast
  then show ?case
    by (auto simp: flush_outcome_def is_ok_def)
qed



section \<open>Flushing twice\<close>

text \<open>The index over no points, and the segment that holds nothing.\<close>

definition no_index :: "nat \<Rightarrow> metric \<Rightarrow> hnsw_index" where
  "no_index dim m = \<lparr>ix_dimension = dim, ix_metric = m, ix_config = default_hnsw_config, ix_nodes = [], ix_ids = [],
     ix_vectors = arena_new ScalarInt8Storage, ix_entry_point = None, ix_max_level = 0,
     ix_compact_graph = Some \<lparr>ranges = [], links = []\<rparr>\<rparr>"

lemma build_nothing: "0 < dim \<Longrightarrow> build_quantized_prepared dim m default_hnsw_config [] = Inr (no_index dim m)"
  by (simp add: build_quantized_prepared_def validate_config_def default_hnsw_config_def build_prepared_points_def Let_def
      compact_neighbors_def finalize_compact_graph_def no_index_def insert_batches.simps)

lemma no_index_storable:
  assumes "0 < dim" "dim \<le> max_items"
  shows "storable (no_index dim m)"
proof -
  have "graph_ok (no_index dim m)"
    using build_quantized_prepared_ok(1) [OF build_nothing [OF assms(1)]] .
  then show ?thesis
    using assms unfolding storable_def
    by (simp add: no_index_def validate_config_def default_hnsw_config_def total_layers_def total_links_def max_items_def)
qed

lemma empty_segment:
  assumes "0 < dimension cfg" "dimension cfg \<le> max_items"
  shows "\<exists>bs s. segment_bytes cfg seq [] [] False (no_index (dimension cfg) (config_metric cfg)) = Inr bs \<and> length bs \<le> usize_max \<and>
    decode_segment_mapped bs = Inr s \<and> ds_config s = cfg \<and> ds_sequence s = seq \<and> ds_points s = [] \<and> ds_tombstones s = [] \<and>
    \<not> ds_full s \<and> ix_nodes (ds_index s) = []"
proof -
  let ?ix = "no_index (dimension cfg) (config_metric cfg)"
  have len: "encoded_len ?ix = Inr 39"
    using assms(2) by (simp add: encoded_len_def no_index_def add_len_def checked_add_usize_def usize_max_def max_items_def)
  have "\<exists>g. encode_into ?ix = Inr g \<and> length g \<le> 100"
    by (simp add: encode_into_def no_index_def default_hnsw_config_def put_u32_writer_def put_all_def graph_magic_def)
  then have "\<exists>bs. segment_bytes cfg seq [] [] False ?ix = Inr bs \<and> length bs \<le> usize_max"
    by (auto simp: segment_bytes_def len put_count_writer_def put_count_def segment_header_write writer_finish_def Let_def
        writer_new_def segment_magic_def usize_max_def)
  then obtain bs where bs: "segment_bytes cfg seq [] [] False ?ix = Inr bs" "length bs \<le> usize_max" by blast
  have "segment_ok cfg [] [] False ?ix"
    using assms no_index_storable [OF assms] by (simp add: segment_ok_def) (simp add: no_index_def max_items_def)
  from segment_round_trip [OF bs this, of "Some bs"] show ?thesis
    using bs by (auto simp: segment_of_def decode_segment_mapped_def no_index_def same_view_def)
qed

text \<open>Actions that succeed, on a disk without errors; \<open>F\<close> are the contents of the files.\<close>

definition runs :: "('s \<Rightarrow> bool) \<Rightarrow> ('s, 'a) action \<Rightarrow> ('a \<Rightarrow> 's \<Rightarrow> bool) \<Rightarrow> bool" where
  "runs P m Q \<longleftrightarrow> (\<forall>s. P s \<longrightarrow> (\<exists>x s'. m s = (s', Inr x) \<and> Q x s'))"

definition steady :: "persistent \<Rightarrow> (string \<Rightarrow> bytes option) \<Rightarrow> persistent \<Rightarrow> bool" where
  "steady pc F s \<longleftrightarrow> (\<exists>d. s = pc\<lparr>pc_disk := d\<rparr> \<and> calm d \<and> map_of (dk_files d) = F)"

lemma runs_abind: "runs P m R \<Longrightarrow> (\<And>x. runs (R x) (f x) Q) \<Longrightarrow> runs P (abind m f) Q"
  unfolding runs_def abind_def by (metis (mono_tags, lifting) case_prod_conv old.sum.simps(6))

lemma runs_on_error: "runs P m Q \<Longrightarrow> runs P (on_error m c) Q"
  unfolding runs_def on_error_def by fastforce

lemma abind_alift_Inr: "abind (alift (Inr x)) f = f x"
  by (rule ext) (simp add: abind_def alift_def)

lemma runs_given: "(x = y \<Longrightarrow> runs P m Q) \<Longrightarrow> runs (\<lambda>s. x = y \<and> P s) m Q"
  by (auto simp: runs_def)

lemma runs_afinally: "runs P m Q0 \<Longrightarrow> (\<And>x s. Q0 x s \<Longrightarrow> Q x (fst (c s))) \<Longrightarrow> runs P (afinally m c) Q"
  unfolding runs_def afinally_def by fastforce

lemma runs_alift: "(\<And>s. P s \<Longrightarrow> Q x s) \<Longrightarrow> runs P (alift (Inr x)) Q"
  by (simp add: runs_def alift_def)

lemma runs_areturn: "(\<And>s. P s \<Longrightarrow> Q x s) \<Longrightarrow> runs P (areturn x) Q"
  by (simp add: runs_def areturn_def)

lemma runs_aput: "(\<And>s. P s \<Longrightarrow> Q () (f s)) \<Longrightarrow> runs P (aput f) Q"
  by (simp add: runs_def aput_def)

lemma runs_aget: "(\<And>s. P s \<Longrightarrow> runs ((=) s) (f s) Q) \<Longrightarrow> runs P (abind aget f) Q"
  by (simp add: runs_def abind_def aget_def)

lemma steadyI: "calm d \<Longrightarrow> map_of (dk_files d) = F \<Longrightarrow> steady pc F (pc\<lparr>pc_disk := d\<rparr>)"
  unfolding steady_def by blast

lemma steadyE:
  assumes "steady pc F s"
  obtains d where "s = pc\<lparr>pc_disk := d\<rparr>" "calm d" "map_of (dk_files d) = F"
  using assms unfolding steady_def by blast

lemma runs_disk:
  "runs (steady pc F) (on_disk fs_sync) (\<lambda>_. steady pc F)"
  "F name = None \<Longrightarrow> length bs \<le> usize_max \<Longrightarrow> runs (steady pc F) (on_disk (write_new_file name bs)) (\<lambda>_. steady pc (F(name \<mapsto> bs)))"
  "F a = Some bs \<Longrightarrow> runs (steady pc F) (on_disk (fs_rename a b)) (\<lambda>_. steady pc (F(a := None, b \<mapsto> bs)))"
  "F name = Some bs \<Longrightarrow> runs (steady pc F) (on_disk (fs_read name)) (\<lambda>x s. x = bs \<and> steady pc F s)"
  "F name = Some bs \<Longrightarrow> runs (steady pc F) (on_disk (fs_set_len name n)) (\<lambda>_. steady pc (F(name \<mapsto> take n bs)))"
  by (auto simp: runs_def on_disk_def fs_sync_def fs_op_calm write_new_file_def fs_rename_def fs_read_def fs_set_len_def
      update_conv' delete_conv' fun_upd_def elim!: steadyE intro!: steadyI)

lemma put_names: "list_all string_ok names \<Longrightarrow> \<exists>ns. put_all put_string names = Inr ns \<and> length ns \<le> length names * (4 + max_items)"
proof (induction names)
  case (Cons v vs)
  then obtain ns where ns: "try_map put_string vs = Inr ns" "length (concat ns) \<le> length vs * (4 + max_items)"
    by (auto simp: put_all_def rbind_eq_Inr)
  have v: "length v \<le> max_items"
    using Cons.prems by (simp add: string_ok_def)
  then have "put_string v = Inr (u32_le (of_nat (length v)) @ as_bytes v)"
    by (simp add: put_string_Inr max_items_def)
  then show ?case
    using ns v by (simp add: put_all_def)
qed (simp add: put_all_def)

lemma encode_names:
  assumes "list_all string_ok names" "length names \<le> max_index_segments + 1"
  shows "\<exists>mb. encode_manifest seq names = Inr mb \<and> length mb \<le> usize_max"
proof -
  obtain ns where ns: "put_all put_string names = Inr ns" "length ns \<le> length names * (4 + max_items)"
    using put_names [OF assms(1)] by blast
  have "length names * (4 + max_items) \<le> 9 * (4 + max_items)"
    using assms(2) by (intro mult_right_mono) (simp_all add: max_index_segments_def)
  then have "length ns \<le> 9 * (4 + max_items)"
    using ns(2) by (rule order_trans [rotated])
  then show ?thesis
    using assms(2) ns(1)
    by (simp add: encode_manifest_def put_count_def Let_def max_index_segments_def max_items_def usize_max_def manifest_magic_def)
qed

lemma runs_build:
  assumes "0 < dimension cfg" "segment_bytes cfg seq [] [] False (no_index (dimension cfg) (config_metric cfg)) = Inr bs"
    "length bs \<le> usize_max" "F (temporary_segment_path seq env) = None"
  shows "runs (steady pc F) (on_disk (build_flush env \<lparr>fs_config = cfg, fs_sequence = seq, fs_points = ps,
      fs_graph_points = [], fs_tombstones = [], fs_compact = False\<rparr>))
    (\<lambda>pf s. pf = \<lparr>pf_sequence = seq, pf_temporary = temporary_segment_path seq env, pf_metadata = index_points ps, pf_compact = False\<rparr> \<and>
      steady pc (F(temporary_segment_path seq env \<mapsto> bs)) s)"
proof -
  have "runs (steady pc F) (on_disk (write_new_file (temporary_segment_path seq env) bs))
      (\<lambda>_. steady pc (F(temporary_segment_path seq env \<mapsto> bs)))"
    using assms(3,4) by (intro runs_disk(2))
  from runs_on_error [OF this] show ?thesis
    unfolding build_flush_def on_disk_abind on_disk_alift write_segment_file_def on_disk_on_error
    by (simp add: build_nothing [OF assms(1)] assms(2) abind_alift_Inr)
      (rule runs_abind, assumption, auto simp: runs_def on_disk_def areturn_def elim!: steadyE intro!: steadyI)
qed

lemma runs_place:
  assumes "F (pf_temporary pf) = Some bs" "decode_segment_mapped bs = Inr s" "ds_config s = config (pc_inner pc)"
    "ds_sequence s = pf_sequence pf" "ds_full s = pf_compact pf"
  shows "runs (steady pc F) (place_segment pf)
    (\<lambda>x s'. x = s \<and> steady pc (F(pf_temporary pf := None, segment_name (pf_sequence pf) \<mapsto> bs)) s')"
proof -
  let ?n = "segment_name (pf_sequence pf)"
  define F' where "F' = F(pf_temporary pf := None, ?n \<mapsto> bs)"
  have 1: "runs (steady pc F) (on_disk (fs_rename (pf_temporary pf) ?n)) (\<lambda>_. steady pc F')"
    using assms(1) unfolding F'_def by (rule runs_disk(3))
  have 2: "runs (steady pc F') (on_disk (fs_read ?n)) (\<lambda>x s. x = bs \<and> steady pc F' s)"
    by (rule runs_disk(4)) (simp add: F'_def)
  have 3: "runs (\<lambda>s. x = bs \<and> steady pc F' s) (alift (decode_segment_mapped x)) (\<lambda>y s'. y = s \<and> steady pc F' s')" for x
    using assms(2) by (auto simp: runs_def alift_def)
  have 4: "runs (\<lambda>s'. y = s \<and> steady pc F' s')
      (abind aget (\<lambda>pc. alift (if ds_config y \<noteq> config (pc_inner pc) \<or> ds_sequence y \<noteq> pf_sequence pf \<or> ds_full y \<noteq> pf_compact pf
        then Inl (CorruptStorage ''prepared segment changed before publication'') else Inr y)))
      (\<lambda>x s'. x = s \<and> steady pc F' s')" for y
    using assms(3-5) by (auto simp: runs_def abind_def aget_def alift_def elim!: steadyE intro!: steadyI)
  show ?thesis
    unfolding place_segment_def Let_def F'_def [symmetric]
    by (rule runs_abind [OF 1 runs_abind [OF runs_disk(1) runs_abind [OF 2 runs_abind [OF 3 4]]]])
qed

lemma runs_manifest:
  assumes "encode_manifest seq names = Inr mb" "length mb \<le> usize_max" "F (manifest_temporary pid) = None"
  shows "runs (steady pc F) (on_disk (publish_manifest pid seq names))
    (\<lambda>_. steady pc (F(manifest_temporary pid \<mapsto> mb, manifest_temporary pid := None, manifest_file \<mapsto> mb)))"
proof -
  let ?t = "manifest_temporary pid"
  have 1: "runs (steady pc F) (on_disk (write_new_file ?t mb)) (\<lambda>_. steady pc (F(?t \<mapsto> mb)))"
    using assms(3,2) by (rule runs_disk(2))
  have 2: "runs (steady pc (F(?t \<mapsto> mb))) (on_disk (fs_rename ?t manifest_file)) (\<lambda>_. steady pc (F(?t \<mapsto> mb, ?t := None, manifest_file \<mapsto> mb)))"
    by (rule runs_disk(3)) simp
  show ?thesis
    unfolding publish_manifest_def on_disk_abind on_disk_alift assms(1) abind_alift_Inr
    by (rule runs_abind [OF 1 runs_abind [OF 2 runs_disk(1)]])
qed

text \<open>
  The situation after a flush: nothing is dirty, and the manifest lists a segment with the sequence number
  of the points in memory.
\<close>

definition just_flushed :: "persistent \<Rightarrow> manifest \<Rightarrow> flush_env \<Rightarrow> bool" where
  "just_flushed pc m env \<longleftrightarrow> pc_dirty pc = [] \<and> pc_indexes pc \<noteq> [] \<and> length (pc_indexes pc) < max_index_segments \<and>
     0 < dimension (config (pc_inner pc)) \<and> dimension (config (pc_inner pc)) \<le> max_items \<and>
     manifest_of (dk_files (pc_disk pc)) = Inr (Some m) \<and> segment_name (sequence (pc_inner pc)) \<in> set (m_segments m) \<and>
     m_sequence m = sequence (pc_inner pc) \<and> list_all name_ok (m_segments m) \<and> length (m_segments m) \<le> max_index_segments \<and>
     file_of (pc_disk pc) wal_file \<noteq> None \<and>
     file_of (pc_disk pc) (temporary_segment_path (sequence (pc_inner pc)) env) = None \<and>
     file_of (pc_disk pc) (manifest_temporary (fe_pid env)) = None"

lemma open_refused:
  assumes "file_of d manifest_file = Some bs" "decode_manifest bs = Inl e"
  shows "\<not> is_ok (snd (open_with_cuda cfg dur cuda d))"
proof -
  define P where "P = (\<lambda>d. file_of d manifest_file = Some bs)"
  note files = fs_op_def Let_def update_conv' delete_conv'
  have seq: "triple P m (\<lambda>_. P) (\<lambda>_. True) \<Longrightarrow> (\<And>x. triple P (f x) Q (\<lambda>_. True)) \<Longrightarrow> triple P (abind m f) Q (\<lambda>_. True)"
    for m :: "'a io" and f :: "'a \<Rightarrow> 'b io" and Q
    by (rule triple_abind)
  have ops: "triple P fs_sync (\<lambda>_. P) (\<lambda>_. True)" "triple P try_lock (\<lambda>_. P) (\<lambda>_. True)"
      "name \<noteq> manifest_file \<Longrightarrow> triple P (fs_create name) (\<lambda>_. P) (\<lambda>_. True)"
      "name \<noteq> manifest_file \<Longrightarrow> triple P (write_new_file name x) (\<lambda>_. P) (\<lambda>_. True)"
      "name \<noteq> manifest_file \<Longrightarrow> name' \<noteq> manifest_file \<Longrightarrow> triple P (fs_rename name name') (\<lambda>_. P) (\<lambda>_. True)" for name name' x
    by (auto simp: triple_def P_def fs_sync_def try_lock_def fs_create_def write_new_file_def fs_rename_def files split: option.splits fault.splits nat.splits)
  have meta: "triple P (ensure_metadata cfg) (\<lambda>_. P) (\<lambda>_. True)"
  proof -
    have "triple P (abind (write_new_file meta_temporary (encode_metadata cfg)) (\<lambda>_.
        abind (fs_rename meta_temporary meta_file) (\<lambda>_. fs_sync))) (\<lambda>_. P) (\<lambda>_. True)"
      by (intro seq ops) simp_all
    then show ?thesis
      unfolding triple_def ensure_metadata_def by (auto simp: alift_def split: option.splits sum.splits)
  qed
  have load: "triple P (abind aget (\<lambda>d. abind (alift (load_current_segments (dk_files d) c)) (f d))) (\<lambda>_ _. False) (\<lambda>_. True)" for c f
    using assms(2) by (simp add: triple_def P_def abind_def aget_def alift_def load_current_segments_def manifest_of_def)
  have "triple P (open_locked cfg dur cuda) (\<lambda>_ _. False) (\<lambda>_. True)"
    unfolding open_locked_def by (rule seq [OF meta], rule seq [OF ops(3)], simp, rule seq [OF _ load], rule triple_alift) simp_all
  then have "triple P (open_with_cuda cfg dur cuda) (\<lambda>_ _. False) (\<lambda>_. True)"
    unfolding open_with_cuda_def by (intro seq ops triple_on_error) (auto simp: triple_def)
  then show ?thesis
    using assms(1) by (cases "open_with_cuda cfg dur cuda d") (auto simp: triple_def P_def is_ok_def split: sum.splits)
qed

lemma second_flush:
  assumes flushed: "just_flushed pc m env" and calm: "calm (pc_disk pc)"
  shows "\<exists>pc' mb bs s. shared_flush env pc = (pc', Inr (sequence (pc_inner pc))) \<and>
    file_of (pc_disk pc') manifest_file = Some mb \<and> decode_manifest mb = Inl (CorruptStorage ''invalid segment name in manifest'') \<and>
    file_of (pc_disk pc') (segment_name (sequence (pc_inner pc))) = Some bs \<and> decode_segment_mapped bs = Inr s \<and>
    ds_points s = [] \<and> ds_tombstones s = []"
proof -
  let ?c = "pc_inner pc" and ?seq = "sequence (pc_inner pc)" and ?t = "temporary_segment_path (sequence (pc_inner pc)) env"
  let ?n = "segment_name (sequence (pc_inner pc))" and ?mt = "manifest_temporary (fe_pid env)"
  let ?cfg = "config (pc_inner pc)" and ?F = "map_of (dk_files (pc_disk pc))"
  let ?ix = "no_index (dimension ?cfg) (config_metric ?cfg)"
  obtain wal where wal: "?F wal_file = Some wal" and tmp: "?F ?t = None" "?F ?mt = None"
    using flushed by (auto simp: just_flushed_def)
  obtain bs s where bs: "segment_bytes ?cfg ?seq [] [] False ?ix = Inr bs" "length bs \<le> usize_max" "decode_segment_mapped bs = Inr s"
      "ds_config s = ?cfg" "ds_sequence s = ?seq" "ds_points s = []" "ds_tombstones s = []" "\<not> ds_full s" "ix_nodes (ds_index s) = []"
    using empty_segment [of ?cfg ?seq] flushed by (auto simp: just_flushed_def)
  let ?names = "m_segments m @ [?n]"
  have names: "list_all string_ok ?names" "length ?names \<le> max_index_segments + 1"
    using flushed segment_name_ok [of ?seq] by (auto simp: just_flushed_def list_all_iff name_ok_def)
  obtain mb where mb: "encode_manifest ?seq ?names = Inr mb" "length mb \<le> usize_max"
    using encode_names [OF names] by blast
  have bad: "decode_manifest mb = Inl (CorruptStorage ''invalid segment name in manifest'')"
  proof -
    have "check_names [] ?names \<noteq> Inr ()"
      using flushed by (simp add: check_names_Inr just_flushed_def)
    then have "check_names [] ?names = Inl (CorruptStorage ''invalid segment name in manifest'')"
      by (rule check_names_Inl)
    moreover have "length ?names \<le> max_items"
      using names(2) by (simp add: max_index_segments_def max_items_def)
    ultimately show ?thesis
      using decode_encoded_manifest [OF mb _ names(1)] names(2) by (simp add: not_less)
  qed
  define F1 where "F1 = ?F(?t \<mapsto> bs)"
  define F2 where "F2 = F1(?t := None, ?n \<mapsto> bs)"
  define F3 where "F3 = F2(?mt \<mapsto> mb)"
  define F4 where "F4 = F3(?mt := None, manifest_file \<mapsto> mb)"
  define F5 where "F5 = F4(wal_file \<mapsto> [])"
  have snap: "flush_snapshot_of pc = \<lparr>fs_config = ?cfg, fs_sequence = ?seq, fs_points = snapshot_stored_points ?c,
      fs_graph_points = [], fs_tombstones = [], fs_compact = False\<rparr>"
    using flushed by (simp add: flush_snapshot_of_def Let_def just_flushed_def)
  let ?pf = "\<lparr>pf_sequence = ?seq, pf_temporary = ?t, pf_metadata = index_points (snapshot_stored_points ?c), pf_compact = False\<rparr>"
  have ne: "?t \<noteq> ?n" "?t \<noteq> manifest_file" "?t \<noteq> ?mt" "?t \<noteq> wal_file" "?mt \<noteq> ?n" "?mt \<noteq> manifest_file" "?mt \<noteq> wal_file" "?n \<noteq> manifest_file" "?n \<noteq> wal_file"
    using temporary_names(1) [of ?seq env ?seq] temporary_names(2) [of "fe_pid env" ?seq] temporary_names(3) [of ?seq]
    by (auto simp: temporary_segment_path_def manifest_temporary_def)
  have build: "runs (steady pc ?F) (on_disk (build_flush env (flush_snapshot_of pc))) (\<lambda>pf s. pf = ?pf \<and> steady pc F1 s)"
    using flushed bs(1,2) tmp(1) unfolding F1_def snap by (intro runs_build) (simp_all add: just_flushed_def)
  have place: "runs (steady pc F1) (place_segment ?pf) (\<lambda>x s'. x = s \<and> steady pc F2 s')"
    using runs_place [of F1 ?pf bs s pc] bs(3-5,8) unfolding F2_def by (simp add: F1_def)
  have manifest: "runs (steady pc F2) (on_disk (publish_manifest (fe_pid env) ?seq ?names)) (\<lambda>_. steady pc F4)"
    using tmp(2) ne unfolding F4_def F3_def by (intro runs_manifest [OF mb]) (simp add: F2_def F1_def)
  have finish: "runs (steady pc F4) (finish_flush ?pf (Some m) ?n s) (\<lambda>x s'. x = ?seq \<and> file_of (pc_disk s') = F5)"
  proof -
    have "F4 wal_file = Some wal"
      using wal ne by (simp add: F4_def F3_def F2_def F1_def)
    then show ?thesis
      using bs(6,9)
      by (auto simp: runs_def finish_flush_def abind_def aput_def truncate_wal_def aget_def on_disk_def fs_set_len_def fs_op_calm fs_sync_def
          retire_segments_def areturn_def replace_persisted_points_def update_conv' F5_def fun_upd_def elim!: steadyE)
  qed
  have old: "runs (steady pc F1) (on_disk read_manifest) (\<lambda>x s'. x = Some m \<and> steady pc F1 s')"
  proof -
    have "F1 manifest_file = ?F manifest_file"
      using ne by (simp add: F1_def)
    then have "manifest_of (dk_files d) = Inr (Some m)" if "file_of d = F1" for d
      using flushed that by (simp add: just_flushed_def manifest_of_def)
    then show ?thesis
      by (auto simp: runs_def on_disk_def read_manifest_def elim!: steadyE intro!: steadyI)
  qed
  have "runs (steady pc F1) (publish_flush (fe_pid env) ?pf) (\<lambda>x s'. x = ?seq \<and> file_of (pc_disk s') = F5)"
  proof -
    have "F5 ?t = None"
      using ne by (simp add: F5_def F4_def F3_def F2_def)
    moreover have "\<not> ?seq < ?seq" "m_sequence m = ?seq"
      using flushed by (simp_all add: just_flushed_def)
    ultimately show ?thesis
      unfolding publish_flush_def
      by (intro runs_afinally [of _ _ "\<lambda>x s'. x = ?seq \<and> file_of (pc_disk s') = F5"] runs_abind [OF old runs_given])
        (use finish in \<open>auto simp: Let_def new_names_def on_disk_def aignore_def fs_remove_def
          intro!: runs_abind [OF place runs_given] runs_abind [OF manifest]\<close>)
  qed
  then have "runs (steady pc ?F) (abind (on_disk (build_flush env (flush_snapshot_of pc))) (publish_flush (fe_pid env)))
      (\<lambda>x s'. x = ?seq \<and> file_of (pc_disk s') = F5)"
    by (intro runs_abind [OF build] runs_given) simp
  moreover have "steady pc ?F pc"
    using calm by (auto simp: steady_def intro!: exI [of _ "pc_disk pc"])
  ultimately obtain pc' where "shared_flush env pc = (pc', Inr ?seq)" "file_of (pc_disk pc') = F5"
    unfolding runs_def shared_flush_def abind_def [of aget] aget_def by auto
  moreover have "F5 manifest_file = Some mb" "F5 ?n = Some bs"
    using ne by (simp_all add: F5_def F4_def F3_def F2_def)
  ultimately show ?thesis
    using bad bs(3,6,7) by auto
qed

text \<open>
  C34: a second flush in a row loses the collection. \<open>SharedCollection::flush\<close> has no early return for a
  collection without unflushed writes, as \<open>PersistentCollection::flush\<close> has. After a flush, with a manifest
  that lists the segment of the current sequence number, another flush (or a backup, which flushes first)
  succeeds, but it overwrites that segment with an empty one and publishes a manifest that lists its name
  twice; from then on no attempt to open the directory succeeds.
\<close>

theorem shared_flush_twice:
  assumes "just_flushed pc m env" "calm (pc_disk pc)"
  shows "\<exists>pc' bs s. shared_flush env pc = (pc', Inr (sequence (pc_inner pc))) \<and>
    file_of (pc_disk pc') (segment_name (sequence (pc_inner pc))) = Some bs \<and> decode_segment_mapped bs = Inr s \<and>
    ds_points s = [] \<and> ds_tombstones s = [] \<and>
    (\<forall>d cfg dur cuda. dk_files d = dk_files (pc_disk pc') \<longrightarrow> \<not> is_ok (snd (open_with_cuda cfg dur cuda d)))"
proof -
  obtain pc' mb bs s where s: "shared_flush env pc = (pc', Inr (sequence (pc_inner pc)))"
      "file_of (pc_disk pc') manifest_file = Some mb" "decode_manifest mb = Inl (CorruptStorage ''invalid segment name in manifest'')"
      "file_of (pc_disk pc') (segment_name (sequence (pc_inner pc))) = Some bs" "decode_segment_mapped bs = Inr s"
      "ds_points s = []" "ds_tombstones s = []"
    using second_flush [OF assms] by blast
  have "\<not> is_ok (snd (open_with_cuda cfg dur cuda d))" if "dk_files d = dk_files (pc_disk pc')" for d cfg dur cuda
    using s(2,3) that by (intro open_refused) auto
  then show ?thesis
    using s by blast
qed

lemma demo_just_flushed: "\<exists>pc m. just_flushed pc m \<lparr>fe_pid = 1, fe_timestamp = 2, fe_nonce = 0\<rparr> \<and> calm (pc_disk pc)"
proof -
  let ?names = "[segment_name 0]"
  have ok: "list_all name_ok ?names" "list_all string_ok ?names"
    using segment_name_ok [of 0] by (auto simp: name_ok_def)
  obtain mb where mb: "encode_manifest 0 ?names = Inr mb" "length mb \<le> usize_max"
    using encode_names [OF ok(2)] by (auto simp: max_index_segments_def)
  have dec: "decode_manifest mb = Inr \<lparr>m_sequence = 0, m_segments = ?names\<rparr>"
    using decode_encoded_manifest [OF mb _ ok(2)] ok(1) by (simp add: max_items_def check_names_Inr list_all_iff name_ok_def)
  let ?pc = "demo_running\<lparr>pc_indexes := [\<lparr>is_sequence = 0, is_index = no_index 1 DotProduct, is_pool = []\<rparr>],
    pc_disk := demo_stored_disk\<lparr>dk_files := [(manifest_file, mb), (wal_file, [])]\<rparr>\<rparr>"
  show ?thesis
    using dec ok
    by (intro exI [of _ ?pc] exI [of _ "\<lparr>m_sequence = 0, m_segments = ?names\<rparr>"])
      (simp add: just_flushed_def demo_running_def demo_stored_disk_def calm_def manifest_of_def max_index_segments_def max_items_def
        empty_collection_def demo_collection_config_def temporary_segment_path_def manifest_temporary_def)
qed

theorem shared_flush_twice_witness:
  "\<exists>pc pc' x. shared_flush \<lparr>fe_pid = 1, fe_timestamp = 2, fe_nonce = 0\<rparr> pc = (pc', Inr x) \<and>
     \<not> is_ok (snd (open_with_cuda demo_collection_config Sync demo_cuda (demo_disk\<lparr>dk_files := dk_files (pc_disk pc')\<rparr>)))"
proof -
  obtain pc m where "just_flushed pc m \<lparr>fe_pid = 1, fe_timestamp = 2, fe_nonce = 0\<rparr>" "calm (pc_disk pc)"
    using demo_just_flushed by blast
  from shared_flush_twice [OF this] obtain pc' where
    "shared_flush \<lparr>fe_pid = 1, fe_timestamp = 2, fe_nonce = 0\<rparr> pc = (pc', Inr (sequence (pc_inner pc)))"
    "\<And>d cfg dur cuda. dk_files d = dk_files (pc_disk pc') \<Longrightarrow> \<not> is_ok (snd (open_with_cuda cfg dur cuda d))"
    by blast
  then show ?thesis
    by (intro exI [of _ pc] exI [of _ pc'] exI [of _ "sequence (pc_inner pc)"]) simp
qed

end
