(* ===== verification/Spec2Isabelle.thy ===== *)
theory Spec2Isabelle
  imports Concurrent
begin

text \<open>
  A verification of the vector database \<open>focal-vector\<close>.

  \<^item> \<open>Prelude\<close>, \<open>Floats\<close>, \<open>Errors\<close>: machine integers, IEEE arithmetic on bit patterns,
    results, sorting, heaps and maps of the Rust standard library.
  \<^item> \<open>Metric\<close>, \<open>Filters\<close>, \<open>Collection\<close>: \<open>src/metric.rs\<close>, \<open>src/filter.rs\<close> and
    \<open>src/collection.rs\<close>.
\<close>

end
